(* ===== verification/Go_Prelude.thy ===== *)
theory Go_Prelude
  imports Main "HOL-Library.Word" "HOL-Library.Signed_Division"
begin

text \<open>
  Shared vocabulary of the development: the fixed-width integers, durations and
  instants of Go, the run-time panics the modelled code can raise, and generic list
  lemmas used by several components.

  Go's \<open>int\<close>, \<open>int64\<close> and \<open>time.Duration\<close> are 64-bit two's complement; a value of these
  types is an \<^typ>\<open>int\<close> here, and where the code can leave the range the wrap-around is
  written with \<open>i64\<close> / \<open>i32\<close>. Unsigned counters and hashes are \<open>64 word\<close>. A
  \<open>time.Time\<close> is the \<^typ>\<open>int\<close> number of nanoseconds on the monotonic clock, so that
  \<open>time.Since(t)\<close> at instant \<open>now\<close> is \<open>now - t\<close>.
\<close>

section \<open>Collections of facts\<close>

named_theorems op_defs "definitions of the operations of a component"
named_theorems frame "fields an operation does not write"
named_theorems inv_intros "preservation of the component invariants"

section \<open>Integers, time and panics\<close>

type_synonym duration = int
type_synonym instant = int
type_synonym u8 = "8 word"
type_synonym u16 = "16 word"
type_synonym u64 = "64 word"

definition i64 :: "int \<Rightarrow> int" where
  "i64 x = signed_take_bit 63 x"

definition i32 :: "int \<Rightarrow> int" where
  "i32 x = signed_take_bit 31 x"

abbreviation Millisecond :: duration where "Millisecond \<equiv> 1000000"
abbreviation Second :: duration where "Second \<equiv> 1000000000"
abbreviation Minute :: duration where "Minute \<equiv> 60000000000"

text \<open>The run-time panics the modelled code can raise.\<close>

datatype panic =
    Index_Out_Of_Range int
  | Slice_Out_Of_Range
  | Non_Positive_Ticker_Interval

text \<open>
  Indexing a slice with an \<open>int\<close> index: Go panics outside \<open>0 \<le> i < len\<close>.
\<close>

definition go_index :: "'a list \<Rightarrow> int \<Rightarrow> panic + 'a" where
  "go_index xs i =
     (if 0 \<le> i \<and> i < int (length xs) then Inr (xs ! nat i) else Inl (Index_Out_Of_Range i))"

section \<open>Laws of the integer conversions\<close>

lemma i64_id [simp]: "- (2 ^ 63) \<le> x \<Longrightarrow> x < 2 ^ 63 \<Longrightarrow> i64 x = x"
  by (simp add: i64_def signed_take_bit_int_eq_self)

lemma i32_id: "- (2 ^ 31) \<le> x \<Longrightarrow> x < 2 ^ 31 \<Longrightarrow> i32 x = x"
  by (simp add: i32_def signed_take_bit_int_eq_self)

lemma i64_le: "- (2 ^ 63) \<le> x \<Longrightarrow> i64 x \<le> x"
  using signed_take_bit_int_less_exp [of 63 x]
  by (cases "x < 2 ^ 63") (simp_all add: i64_def signed_take_bit_int_eq_self)

lemma i32_range: "- (2 ^ 31) \<le> i32 x" "i32 x < 2 ^ 31"
  using signed_take_bit_int_greater_eq_minus_exp [of 31 x] signed_take_bit_int_less_exp [of 31 x]
  by (simp_all add: i32_def)

lemma i64_range: "- (2 ^ 63) \<le> i64 x" "i64 x < 2 ^ 63"
  using signed_take_bit_int_greater_eq_minus_exp [of 63 x] signed_take_bit_int_less_exp [of 63 x]
  by (simp_all add: i64_def)

text \<open>Go's remainder truncates towards zero; on non-negative operands it is \<open>mod\<close>.\<close>

lemma smod_nonneg [simp]: "0 \<le> a \<Longrightarrow> 0 < b \<Longrightarrow> a smod b = a mod (b :: int)"
  by (cases "a = 0") (simp_all add: signed_modulo_int_def)

lemma sdiv_nonneg: "0 \<le> a \<Longrightarrow> 0 < b \<Longrightarrow> a sdiv b = a div (b :: int)"
  by (cases "a = 0") (simp_all add: signed_divide_int_def)

lemma smod_neg: "a < 0 \<Longrightarrow> 0 < b \<Longrightarrow> a smod b = - ((- a) mod (b :: int))"
  by (simp add: signed_modulo_int_def)

lemma go_index_Inr: "0 \<le> i \<Longrightarrow> i < int (length xs) \<Longrightarrow> go_index xs i = Inr (xs ! nat i)"
  by (simp add: go_index_def)

lemma go_index_of_nat [simp]: "i < length xs \<Longrightarrow> go_index xs (int i) = Inr (xs ! i)"
  by (simp add: go_index_def)

section \<open>Lists\<close>

lemma set_filter_upt [simp]: "set (filter P [0..<n]) = {i. i < n \<and> P i}"
  by auto

lemma nth_mem_upd: "i < length xs \<Longrightarrow> x \<in> set (xs[i := y]) \<Longrightarrow> x = y \<or> x \<in> set xs"
  by (meson insertE set_update_subset_insert subsetD)

lemma list_all_upd: "list_all P xs \<Longrightarrow> P y \<Longrightarrow> list_all P (xs[i := y])"
  by (auto simp: list_all_iff dest: set_update_subset_insert [THEN subsetD])

section \<open>Event machines\<close>

text \<open>
  A component is a state and a function \<open>step\<close> from an event and a state to the next
  state. \<open>exec\<close> runs a list of events; \<open>allowed\<close> says that each event of the list meets its
  caller's obligation \<open>guard\<close> in the state in which it happens.
\<close>

fun exec :: "('e \<Rightarrow> 's \<Rightarrow> 's) \<Rightarrow> 'e list \<Rightarrow> 's \<Rightarrow> 's" where
  "exec step [] s = s"
| "exec step (e # es) s = exec step es (step e s)"

fun allowed :: "('e \<Rightarrow> 's \<Rightarrow> 's) \<Rightarrow> ('e \<Rightarrow> 's \<Rightarrow> bool) \<Rightarrow> 'e list \<Rightarrow> 's \<Rightarrow> bool" where
  "allowed step guard [] s = True"
| "allowed step guard (e # es) s \<longleftrightarrow> guard e s \<and> allowed step guard es (step e s)"

fun total :: "('e \<Rightarrow> 's \<Rightarrow> 's) \<Rightarrow> ('e \<Rightarrow> 's \<Rightarrow> int) \<Rightarrow> 'e list \<Rightarrow> 's \<Rightarrow> int" where
  "total step d [] s = 0"
| "total step d (e # es) s = d e s + total step d es (step e s)"

lemma exec_append [simp]: "exec step (es @ fs) s = exec step fs (exec step es s)"
  by (induction es arbitrary: s) auto

lemma allowed_append [simp]:
  "allowed step guard (es @ fs) s \<longleftrightarrow>
     allowed step guard es s \<and> allowed step guard fs (exec step es s)"
  by (induction es arbitrary: s) auto

lemma allowed_True [simp]: "allowed step (\<lambda>_ _. True) es s"
  by (induction es arbitrary: s) auto

text \<open>The contract of a component whose operations keep an invariant.\<close>

locale event_machine =
  fixes step :: "'e \<Rightarrow> 's \<Rightarrow> 's"
    and guard :: "'e \<Rightarrow> 's \<Rightarrow> bool"
    and inv :: "'s \<Rightarrow> bool"
  assumes inv_step: "inv s \<Longrightarrow> guard e s \<Longrightarrow> inv (step e s)"
begin

lemma inv_exec: "inv s \<Longrightarrow> allowed step guard es s \<Longrightarrow> inv (exec step es s)"
  by (induction es arbitrary: s) (auto intro: inv_step)

text \<open>A field that no allowed event of a history writes keeps its value.\<close>

lemma exec_unchanged:
  assumes "inv s" and "allowed step guard es s"
    and "\<And>e s. e \<in> set es \<Longrightarrow> inv s \<Longrightarrow> guard e s \<Longrightarrow> f (step e s) = f s"
  shows "f (exec step es s) = f s"
  using assms
proof (induction es arbitrary: s)
  case Nil
  then show ?case by simp
next
  case (Cons e es)
  then have "f (exec step es (step e s)) = f (step e s)"
    by (intro Cons.IH) (auto intro: inv_step)
  with Cons.prems show ?case by simp
qed

text \<open>A quantity that each event changes by \<open>d\<close> changes by the sum over the history.\<close>

lemma exec_total:
  assumes "\<And>e s. inv s \<Longrightarrow> guard e s \<Longrightarrow> f (step e s) = f s + d e s"
    and "inv s" and "allowed step guard es s"
  shows "f (exec step es s) = f s + total step d es s"
  using assms(2,3)
proof (induction es arbitrary: s)
  case Nil
  then show ?case by simp
next
  case (Cons e es)
  then have "f (exec step es (step e s)) = f (step e s) + total step d es (step e s)"
    by (intro Cons.IH) (auto intro: inv_step)
  with Cons.prems assms(1) [of s e] show ?case by simp
qed

end

text \<open>
  The contract of a component that implements an abstract machine: the abstraction of the
  next state is the abstract step of the abstraction.
\<close>

locale refined_machine = event_machine step guard inv
  for step :: "'e \<Rightarrow> 's \<Rightarrow> 's" and guard and inv +
  fixes astep :: "'e \<Rightarrow> 'a \<Rightarrow> 'a"
    and abs :: "'s \<Rightarrow> 'a"
  assumes abs_step: "inv s \<Longrightarrow> guard e s \<Longrightarrow> abs (step e s) = astep e (abs s)"
begin

lemma abs_exec:
  "inv s \<Longrightarrow> allowed step guard es s \<Longrightarrow> abs (exec step es s) = exec astep es (abs s)"
  by (induction es arbitrary: s) (auto simp: abs_step [symmetric] intro: inv_step)

end

end
