(* ===== verification/Backend.thy ===== *)
theory Backend
  imports Go_Prelude
begin

text \<open>
  Model of \<open>internal/pool/backend.go\<close>: one SOCKS backend with its circuit breaker
  (health state), its admission phase and its in-flight counter. The mutex-protected
  struct \<open>innerState\<close> is flattened into the record; each operation that runs under the
  mutex is one function of the whole record, taken at the instant \<open>now\<close>.
\<close>

section \<open>State\<close>

datatype State = StateUnknown | StateHealthy | StateDegraded | StateUnhealthy | StateCircuitOpen

definition State_String :: "State \<Rightarrow> string" where
  "State_String s = (case s of
       StateHealthy \<Rightarrow> ''healthy''
     | StateDegraded \<Rightarrow> ''degraded''
     | StateUnhealthy \<Rightarrow> ''unhealthy''
     | StateCircuitOpen \<Rightarrow> ''circuit_open''
     | _ \<Rightarrow> ''unknown'')"

record ProbeInfo =
  Warp :: string
  IP :: string
  Loc :: string
  LatencyMS :: int

datatype AdmitPhase = AdmitWarming | AdmitInPool | AdmitParked

definition AdmitPhase_String :: "AdmitPhase \<Rightarrow> string" where
  "AdmitPhase_String p = (case p of
       AdmitInPool \<Rightarrow> ''in_pool''
     | AdmitParked \<Rightarrow> ''parked''
     | _ \<Rightarrow> ''warming'')"

text \<open>
  The struct \<open>Backend\<close> with \<open>innerState\<close> flattened. \<open>inflight\<close> is an \<open>atomic.Int32\<close>,
  the totals are \<open>atomic.Uint64\<close>; \<open>openedAt\<close> and \<open>lastProbe\<close> are pointers, \<open>None\<close> when nil.
\<close>

record backend =
  ID :: int
  Addr :: string
  MaxFails :: int
  FailTimeout :: duration
  OpenAfter :: duration
  MaxInflight :: int
  inflight :: int
  successTotal :: u64
  failTotal :: u64
  state :: State
  admit :: AdmitPhase
  egressIPv4 :: string
  uniqueTries :: int
  fails :: int
  lastError :: string
  lastProbe :: "ProbeInfo option"
  lastChange :: instant
  openedAt :: "instant option"

section \<open>Operations\<close>

definition NewBackend ::
  "instant \<Rightarrow> int \<Rightarrow> string \<Rightarrow> int \<Rightarrow> duration \<Rightarrow> duration \<Rightarrow> int \<Rightarrow> backend" where
  "NewBackend now ident addr maxFails failTimeout openAfter maxInflight =
     \<lparr>ID = ident, Addr = addr,
      MaxFails = (if maxFails < 1 then 1 else maxFails),
      FailTimeout = failTimeout, OpenAfter = openAfter,
      MaxInflight = (if maxInflight < 1 then 1 else maxInflight),
      inflight = 0, successTotal = 0, failTotal = 0,
      state = StateUnknown, admit = AdmitWarming, egressIPv4 = '''', uniqueTries = 0,
      fails = 0, lastError = '''', lastProbe = None, lastChange = now, openedAt = None\<rparr>"

definition HasCapacity :: "backend \<Rightarrow> bool" where
  "HasCapacity b \<longleftrightarrow> inflight b < MaxInflight b"

definition IsSelectable :: "instant \<Rightarrow> backend \<Rightarrow> bool \<times> backend" where
  "IsSelectable now b =
     (if admit b \<noteq> AdmitInPool then (False, b)
      else (case state b of
          StateHealthy \<Rightarrow> (True, b)
        | StateDegraded \<Rightarrow> (True, b)
        | StateUnknown \<Rightarrow> (True, b)
        | StateUnhealthy \<Rightarrow>
            if now - lastChange b \<ge> FailTimeout b
            then (True, b\<lparr>state := StateDegraded, lastChange := now\<rparr>)
            else (False, b)
        | StateCircuitOpen \<Rightarrow>
            (case openedAt b of
               None \<Rightarrow> (False, b)
             | Some t \<Rightarrow>
                 if now - t \<ge> OpenAfter b
                 then (True, b\<lparr>state := StateDegraded, fails := 0, lastChange := now,
                               openedAt := None\<rparr>)
                 else (False, b))))"

text \<open>
  \<open>TryAcquire\<close> run without interference: the compare-and-swap of the first loop
  iteration succeeds. The theory \<open>Interleaving\<close> models the loop under contention.
\<close>

definition TryAcquire :: "instant \<Rightarrow> backend \<Rightarrow> bool \<times> backend" where
  "TryAcquire now b =
     (let (ok, b1) = IsSelectable now b in
      if \<not> ok then (False, b1)
      else if inflight b1 \<ge> MaxInflight b1 then (False, b1)
      else (True, b1\<lparr>inflight := i32 (inflight b1 + 1)\<rparr>))"

definition Release :: "backend \<Rightarrow> backend" where
  "Release b = b\<lparr>inflight := i32 (inflight b - 1)\<rparr>"

definition MarkSuccess :: "instant \<Rightarrow> backend \<Rightarrow> backend" where
  "MarkSuccess now b =
     (let b1 = b\<lparr>successTotal := successTotal b + 1, fails := 0\<rparr>;
          b2 = (if state b1 \<noteq> StateHealthy
                then b1\<lparr>state := StateHealthy, lastChange := now\<rparr> else b1)
      in b2\<lparr>lastError := '''', openedAt := None\<rparr>)"

definition markFailureLocked :: "instant \<Rightarrow> string \<Rightarrow> backend \<Rightarrow> backend" where
  "markFailureLocked now reason b =
     (let b1 = b\<lparr>failTotal := failTotal b + 1, fails := fails b + 1,
                 lastError := reason, lastChange := now\<rparr>
      in if fails b1 \<ge> MaxFails b1
         then b1\<lparr>state := StateCircuitOpen, openedAt := Some now\<rparr>
         else if state b1 = StateHealthy \<or> state b1 = StateUnknown
         then b1\<lparr>state := StateDegraded\<rparr>
         else b1)"

definition MarkFailure :: "instant \<Rightarrow> string \<Rightarrow> backend \<Rightarrow> backend" where
  "MarkFailure now reason b = markFailureLocked now reason b"

definition MarkProbeOK :: "instant \<Rightarrow> ProbeInfo \<Rightarrow> backend \<Rightarrow> backend" where
  "MarkProbeOK now info b =
     b\<lparr>successTotal := successTotal b + 1, fails := 0, state := StateHealthy,
       lastProbe := Some info, lastError := '''', lastChange := now, openedAt := None\<rparr>"

definition MarkProbeFail :: "instant \<Rightarrow> string \<Rightarrow> backend \<Rightarrow> backend" where
  "MarkProbeFail now reason b =
     (let b1 = markFailureLocked now reason b
      in if state b1 = StateDegraded \<and> fails b1 \<ge> MaxFails b1
         then b1\<lparr>state := StateUnhealthy\<rparr> else b1)"

definition ForceState :: "instant \<Rightarrow> State \<Rightarrow> backend \<Rightarrow> backend" where
  "ForceState now st b =
     (let b1 = b\<lparr>state := st, lastChange := now\<rparr>;
          b2 = (if st = StateCircuitOpen then b1\<lparr>openedAt := Some now\<rparr> else b1)
      in if st = StateHealthy then b2\<lparr>fails := 0, openedAt := None\<rparr> else b2)"

definition SetAdmit :: "instant \<Rightarrow> AdmitPhase \<Rightarrow> string \<Rightarrow> backend \<Rightarrow> backend" where
  "SetAdmit now phase egress b =
     (let b1 = b\<lparr>admit := phase\<rparr>;
          b2 = (if egress \<noteq> '''' then b1\<lparr>egressIPv4 := egress\<rparr> else b1)
      in b2\<lparr>lastChange := now\<rparr>)"

definition IncUniqueAttempt :: "backend \<Rightarrow> int \<times> backend" where
  "IncUniqueAttempt b =
     (let b1 = b\<lparr>uniqueTries := uniqueTries b + 1\<rparr> in (uniqueTries b1, b1))"

text \<open>\<open>Snapshot\<close> copies the record for the admin API and the supervisor.\<close>

record Snapshot =
  snap_ID :: int
  snap_Addr :: string
  snap_State :: string
  snap_Admit :: string
  snap_EgressIPv4 :: string
  snap_UniqueTries :: int
  snap_Fails :: int
  snap_Inflight :: int
  snap_SuccessTotal :: u64
  snap_FailTotal :: u64
  snap_LastProbe :: "ProbeInfo option"
  snap_LastError :: string
  snap_LastChangeAgo :: int

definition Snapshot_of :: "instant \<Rightarrow> backend \<Rightarrow> Snapshot" where
  "Snapshot_of now b =
     \<lparr>snap_ID = ID b, snap_Addr = Addr b, snap_State = State_String (state b),
      snap_Admit = AdmitPhase_String (admit b), snap_EgressIPv4 = egressIPv4 b,
      snap_UniqueTries = uniqueTries b, snap_Fails = fails b, snap_Inflight = inflight b,
      snap_SuccessTotal = successTotal b, snap_FailTotal = failTotal b,
      snap_LastProbe = lastProbe b, snap_LastError = lastError b,
      snap_LastChangeAgo = (now - lastChange b) sdiv Millisecond\<rparr>"

section \<open>Histories of one backend\<close>

text \<open>
  Every exported operation of a backend as an event, so that a history is a list of
  timed events. The events that return a value (\<open>IsSelectable\<close>, \<open>TryAcquire\<close>,
  \<open>IncUniqueAttempt\<close>) appear with their effect on the state.
\<close>

datatype be_event =
    EvIsSelectable
  | EvTryAcquire
  | EvRelease
  | EvMarkSuccess
  | EvMarkFailure string
  | EvMarkProbeOK ProbeInfo
  | EvMarkProbeFail string
  | EvForceState State
  | EvSetAdmit AdmitPhase string
  | EvIncUniqueAttempt

fun be_step :: "instant \<Rightarrow> be_event \<Rightarrow> backend \<Rightarrow> backend" where
  "be_step now EvIsSelectable b = snd (IsSelectable now b)"
| "be_step now EvTryAcquire b = snd (TryAcquire now b)"
| "be_step now EvRelease b = Release b"
| "be_step now EvMarkSuccess b = MarkSuccess now b"
| "be_step now (EvMarkFailure r) b = MarkFailure now r b"
| "be_step now (EvMarkProbeOK i) b = MarkProbeOK now i b"
| "be_step now (EvMarkProbeFail r) b = MarkProbeFail now r b"
| "be_step now (EvForceState s) b = ForceState now s b"
| "be_step now (EvSetAdmit p e) b = SetAdmit now p e b"
| "be_step now EvIncUniqueAttempt b = snd (IncUniqueAttempt b)"

type_synonym timed_event = "instant \<times> be_event"

fun be_tstep :: "timed_event \<Rightarrow> backend \<Rightarrow> backend" where
  "be_tstep (now, e) b = be_step now e b"

text \<open>The callers' obligation: \<open>Release\<close> is called by a holder of a slot.\<close>

fun be_guard :: "timed_event \<Rightarrow> backend \<Rightarrow> bool" where
  "be_guard (now, EvRelease) b \<longleftrightarrow> 0 < inflight b"
| "be_guard (now, e) b \<longleftrightarrow> True"

lemmas be_defs =
  IsSelectable_def TryAcquire_def Release_def MarkSuccess_def MarkFailure_def
  markFailureLocked_def MarkProbeOK_def MarkProbeFail_def ForceState_def SetAdmit_def
  IncUniqueAttempt_def HasCapacity_def
declare be_defs [op_defs]

section \<open>Well-formed backends\<close>

text \<open>
  The limits are positive (\<open>NewBackend\<close> clamps them), the in-flight counter lies between
  zero and its limit, the consecutive failures are counted from zero, and an open circuit
  knows since when it is open.
\<close>

definition be_inv :: "backend \<Rightarrow> bool" where
  "be_inv b \<longleftrightarrow>
     1 \<le> MaxFails b \<and> 1 \<le> MaxInflight b \<and> MaxInflight b < 2 ^ 31 \<and>
     0 \<le> inflight b \<and> inflight b \<le> MaxInflight b \<and> 0 \<le> fails b \<and>
     (state b = StateCircuitOpen \<longrightarrow> openedAt b \<noteq> None)"

lemma be_inv_NewBackend [inv_intros]:
  "n < 2 ^ 31 \<Longrightarrow> be_inv (NewBackend now i a mf ft oa n)"
  by (simp add: be_inv_def NewBackend_def)

text \<open>What \<open>IsSelectable\<close> leaves alone, and when it answers yes.\<close>

lemma IsSelectable_frame [simp]:
  "ID (snd (IsSelectable now b)) = ID b"
  "Addr (snd (IsSelectable now b)) = Addr b"
  "MaxFails (snd (IsSelectable now b)) = MaxFails b"
  "FailTimeout (snd (IsSelectable now b)) = FailTimeout b"
  "OpenAfter (snd (IsSelectable now b)) = OpenAfter b"
  "MaxInflight (snd (IsSelectable now b)) = MaxInflight b"
  "inflight (snd (IsSelectable now b)) = inflight b"
  "successTotal (snd (IsSelectable now b)) = successTotal b"
  "failTotal (snd (IsSelectable now b)) = failTotal b"
  "admit (snd (IsSelectable now b)) = admit b"
  "egressIPv4 (snd (IsSelectable now b)) = egressIPv4 b"
  "uniqueTries (snd (IsSelectable now b)) = uniqueTries b"
  "lastError (snd (IsSelectable now b)) = lastError b"
  "lastProbe (snd (IsSelectable now b)) = lastProbe b"
  by (simp_all add: IsSelectable_def split: State.splits option.splits)

definition selectable :: "instant \<Rightarrow> backend \<Rightarrow> bool" where
  "selectable now b \<longleftrightarrow> fst (IsSelectable now b)"

lemma selectable_iff:
  "selectable now b \<longleftrightarrow> admit b = AdmitInPool \<and>
     (state b \<in> {StateHealthy, StateDegraded, StateUnknown} \<or>
      state b = StateUnhealthy \<and> FailTimeout b \<le> now - lastChange b \<or>
      state b = StateCircuitOpen \<and> (\<exists>t. openedAt b = Some t \<and> OpenAfter b \<le> now - t))"
  by (auto simp: selectable_def IsSelectable_def split: State.splits option.splits)

lemma IsSelectable_idem [simp]:
  "IsSelectable now (snd (IsSelectable now b)) = (selectable now b, snd (IsSelectable now b))"
proof (cases "admit b = AdmitInPool")
  case True
  then show ?thesis
    by (cases "state b"; cases "openedAt b") (simp_all add: selectable_def IsSelectable_def)
next
  case False
  then show ?thesis by (simp add: selectable_def IsSelectable_def)
qed

lemma selectable_IsSelectable [simp]:
  "selectable now (snd (IsSelectable now b)) = selectable now b"
  using IsSelectable_idem [of now b] by (metis fst_conv selectable_def)

lemma IsSelectable_no: "\<not> selectable now b \<Longrightarrow> IsSelectable now b = (False, b)"
  by (auto simp: selectable_def IsSelectable_def split: State.splits option.splits if_splits)

lemma be_inv_IsSelectable [inv_intros]: "be_inv b \<Longrightarrow> be_inv (snd (IsSelectable now b))"
  by (auto simp: be_inv_def IsSelectable_def split: State.splits option.splits)

lemma TryAcquire_eq:
  "be_inv b \<Longrightarrow> TryAcquire now b =
     (if selectable now b \<and> HasCapacity b
      then (True, (snd (IsSelectable now b))\<lparr>inflight := inflight b + 1\<rparr>)
      else (False, snd (IsSelectable now b)))"
  using i32_id [of "inflight b + 1"]
  by (cases "IsSelectable now b")
     (use IsSelectable_frame [of now b] in
       \<open>auto simp: TryAcquire_def selectable_def HasCapacity_def be_inv_def\<close>)

lemma TryAcquire_fst: "be_inv b \<Longrightarrow> fst (TryAcquire now b) \<longleftrightarrow> selectable now b \<and> HasCapacity b"
  by (simp add: TryAcquire_eq)

lemma be_inv_TryAcquire [inv_intros]: "be_inv b \<Longrightarrow> be_inv (snd (TryAcquire now b))"
  using be_inv_IsSelectable [of b now]
  by (auto simp: TryAcquire_eq) (auto simp: be_inv_def HasCapacity_def)

lemma be_inv_Release [inv_intros]: "be_inv b \<Longrightarrow> 0 < inflight b \<Longrightarrow> be_inv (Release b)"
  by (simp add: be_inv_def Release_def i32_id)

lemma Release_eq: "be_inv b \<Longrightarrow> 0 < inflight b \<Longrightarrow> Release b = b\<lparr>inflight := inflight b - 1\<rparr>"
  by (simp add: be_inv_def Release_def i32_id)

lemma be_inv_marks [inv_intros]:
  "be_inv b \<Longrightarrow> be_inv (MarkSuccess now b)"
  "be_inv b \<Longrightarrow> be_inv (markFailureLocked now r b)"
  "be_inv b \<Longrightarrow> be_inv (MarkFailure now r b)"
  "be_inv b \<Longrightarrow> be_inv (MarkProbeOK now i b)"
  "be_inv b \<Longrightarrow> be_inv (MarkProbeFail now r b)"
  "be_inv b \<Longrightarrow> be_inv (ForceState now st b)"
  "be_inv b \<Longrightarrow> be_inv (SetAdmit now p e b)"
  "be_inv b \<Longrightarrow> be_inv (snd (IncUniqueAttempt b))"
  by (auto simp: be_inv_def be_defs Let_def)

lemma be_inv_step: "be_inv b \<Longrightarrow> be_guard te b \<Longrightarrow> be_inv (be_tstep te b)"
  by (cases "(te, b)" rule: be_guard.cases) (auto intro: inv_intros)

text \<open>
  The special case of \<open>MarkProbeFail\<close> never applies: where the failures have reached the
  limit, \<open>markFailureLocked\<close> has opened the circuit already.
\<close>

lemma MarkProbeFail_eq [simp]: "MarkProbeFail now r b = MarkFailure now r b"
  by (simp add: MarkProbeFail_def MarkFailure_def markFailureLocked_def Let_def)

section \<open>The abstract breaker\<close>

text \<open>
  What a backend promises its pool, without counters and messages: it is admitted or not,
  and its breaker is \<open>Closed\<close> with the number of consecutive failures, \<open>Benched\<close> since an
  instant (marked unhealthy from outside), or \<open>Open\<close> since an instant.
\<close>

datatype mode = Closed int | Benched instant int | Open instant int

fun mode_fails :: "mode \<Rightarrow> int" where
  "mode_fails (Closed n) = n"
| "mode_fails (Benched t n) = n"
| "mode_fails (Open t n) = n"

record breaker =
  br_max_fails :: int
  br_rest :: duration
  br_cooldown :: duration
  br_phase :: AdmitPhase
  br_mode :: mode

fun br_poll :: "instant \<Rightarrow> breaker \<Rightarrow> mode \<Rightarrow> mode" where
  "br_poll now k (Benched t n) = (if now - t \<ge> br_rest k then Closed n else Benched t n)"
| "br_poll now k (Open t n) = (if now - t \<ge> br_cooldown k then Closed 0 else Open t n)"
| "br_poll now k (Closed n) = Closed n"

fun br_fail :: "instant \<Rightarrow> breaker \<Rightarrow> mode \<Rightarrow> mode" where
  "br_fail now k m =
     (if mode_fails m + 1 \<ge> br_max_fails k then Open now (mode_fails m + 1)
      else (case m of Closed n \<Rightarrow> Closed (n + 1) | Benched t n \<Rightarrow> Benched now (n + 1)
            | Open t n \<Rightarrow> Open t (n + 1)))"

fun br_force :: "instant \<Rightarrow> State \<Rightarrow> mode \<Rightarrow> mode" where
  "br_force now StateHealthy m = Closed 0"
| "br_force now StateUnhealthy m = Benched now (mode_fails m)"
| "br_force now StateCircuitOpen m = Open now (mode_fails m)"
| "br_force now _ m = Closed (mode_fails m)"

fun br_touch :: "instant \<Rightarrow> mode \<Rightarrow> mode" where
  "br_touch now (Benched t n) = Benched now n"
| "br_touch now m = m"

fun br_step :: "timed_event \<Rightarrow> breaker \<Rightarrow> breaker" where
  "br_step (now, EvIsSelectable) k =
     (if br_phase k = AdmitInPool then k\<lparr>br_mode := br_poll now k (br_mode k)\<rparr> else k)"
| "br_step (now, EvTryAcquire) k =
     (if br_phase k = AdmitInPool then k\<lparr>br_mode := br_poll now k (br_mode k)\<rparr> else k)"
| "br_step (now, EvRelease) k = k"
| "br_step (now, EvMarkSuccess) k = k\<lparr>br_mode := Closed 0\<rparr>"
| "br_step (now, EvMarkProbeOK i) k = k\<lparr>br_mode := Closed 0\<rparr>"
| "br_step (now, EvMarkFailure r) k = k\<lparr>br_mode := br_fail now k (br_mode k)\<rparr>"
| "br_step (now, EvMarkProbeFail r) k = k\<lparr>br_mode := br_fail now k (br_mode k)\<rparr>"
| "br_step (now, EvForceState st) k = k\<lparr>br_mode := br_force now st (br_mode k)\<rparr>"
| "br_step (now, EvSetAdmit p e) k = k\<lparr>br_phase := p, br_mode := br_touch now (br_mode k)\<rparr>"
| "br_step (now, EvIncUniqueAttempt) k = k"

definition be_mode :: "backend \<Rightarrow> mode" where
  "be_mode b = (case state b of
       StateCircuitOpen \<Rightarrow> Open (case openedAt b of Some t \<Rightarrow> t | None \<Rightarrow> 0) (fails b)
     | StateUnhealthy \<Rightarrow> Benched (lastChange b) (fails b)
     | _ \<Rightarrow> Closed (fails b))"

definition be_abs :: "backend \<Rightarrow> breaker" where
  "be_abs b = \<lparr>br_max_fails = MaxFails b, br_rest = FailTimeout b, br_cooldown = OpenAfter b,
               br_phase = admit b, br_mode = be_mode b\<rparr>"

lemma be_abs_IsSelectable:
  "be_inv b \<Longrightarrow> be_abs (snd (IsSelectable now b)) = br_step (now, EvIsSelectable) (be_abs b)"
  by (cases "state b") (auto simp: be_inv_def be_abs_def be_mode_def IsSelectable_def)

lemma be_abs_MarkFailure:
  "be_inv b \<Longrightarrow> be_abs (MarkFailure now r b) = br_step (now, EvMarkFailure r) (be_abs b)"
  by (cases "state b")
     (auto simp: be_inv_def be_abs_def be_mode_def MarkFailure_def markFailureLocked_def Let_def)

lemma be_abs_step: "be_inv b \<Longrightarrow> be_abs (be_tstep te b) = br_step te (be_abs b)"
proof (cases te)
  case (Pair now e)
  assume inv: "be_inv b"
  show ?thesis
  proof (cases e)
    case EvIsSelectable
    with Pair inv show ?thesis by (simp add: be_abs_IsSelectable)
  next
    case EvTryAcquire
    have "be_abs (c\<lparr>inflight := n\<rparr>) = be_abs c" for c n
      by (cases "state c") (simp_all add: be_abs_def be_mode_def)
    with EvTryAcquire Pair inv show ?thesis
      by (auto simp: TryAcquire_eq be_abs_IsSelectable)
  next
    case (EvForceState st)
    with Pair show ?thesis
      by (cases st) (auto simp: be_abs_def be_mode_def ForceState_def Let_def split: State.splits)
  next
    case (EvSetAdmit p x)
    with Pair show ?thesis
      by (cases "state b") (auto simp: be_abs_def be_mode_def SetAdmit_def Let_def)
  next
    case (EvMarkFailure r)
    with Pair inv show ?thesis by (simp add: be_abs_MarkFailure del: br_fail.simps)
  next
    case (EvMarkProbeFail r)
    with Pair inv show ?thesis by (simp add: be_abs_MarkFailure del: br_fail.simps)
  qed (use Pair in \<open>auto simp: be_abs_def be_mode_def Release_def
         MarkSuccess_def MarkProbeOK_def IncUniqueAttempt_def Let_def split: State.splits\<close>)
qed

interpretation be: refined_machine be_tstep be_guard be_inv br_step be_abs
  by unfold_locales (auto simp: be_inv_step be_abs_step)

section \<open>Lemmas about histories\<close>

text \<open>A run of consecutive failures, from any backend whose breaker is closed.\<close>

definition failures :: "(instant \<times> string) list \<Rightarrow> timed_event list" where
  "failures rs = map (\<lambda>(t, r). (t, EvMarkFailure r)) rs"

lemma failures_simps [simp]:
  "failures [] = []"
  "failures (rs @ [(t, r)]) = failures rs @ [(t, EvMarkFailure r)]"
  by (simp_all add: failures_def)

lemma exec_failures:
  assumes "state b \<in> {StateHealthy, StateUnknown, StateDegraded}" and "0 \<le> fails b" and "rs \<noteq> []"
  shows "let c = exec be_tstep (failures rs) b in
      fails c = fails b + int (length rs) \<and> MaxFails c = MaxFails b \<and>
      lastError c = snd (last rs) \<and>
      (if MaxFails b \<le> fails b + int (length rs)
       then state c = StateCircuitOpen \<and> openedAt c = Some (fst (last rs))
       else state c = StateDegraded)"
  using assms(3)
proof (induction rs rule: rev_induct)
  case Nil
  then show ?case by simp
next
  case (snoc x rs)
  obtain t r where x: "x = (t, r)" by (cases x)
  show ?case
  proof (cases "rs = []")
    case True
    with assms(1,2) x show ?thesis
      by (auto simp: failures_def Let_def MarkFailure_def markFailureLocked_def)
  next
    case False
    with snoc.IH x show ?thesis
      by (auto simp: Let_def MarkFailure_def markFailureLocked_def)
  qed
qed

text \<open>The slots a history takes, net of the ones it gives back.\<close>

fun be_slots :: "timed_event \<Rightarrow> backend \<Rightarrow> int" where
  "be_slots (now, EvTryAcquire) b = (if fst (TryAcquire now b) then 1 else 0)"
| "be_slots (now, EvRelease) b = - 1"
| "be_slots (now, e) b = 0"

lemma be_slots_step:
  "be_inv b \<Longrightarrow> be_guard te b \<Longrightarrow> inflight (be_tstep te b) = inflight b + be_slots te b"
  by (cases "(te, b)" rule: be_slots.cases)
     (auto simp: TryAcquire_eq Release_eq MarkFailure_def markFailureLocked_def MarkSuccess_def
        MarkProbeOK_def ForceState_def SetAdmit_def IncUniqueAttempt_def Let_def)

text \<open>Only \<open>SetAdmit\<close> decides admission.\<close>

lemma TryAcquire_admission:
  "admit (snd (TryAcquire now b)) = admit b" "egressIPv4 (snd (TryAcquire now b)) = egressIPv4 b"
  "admit b \<noteq> AdmitInPool \<Longrightarrow> \<not> fst (TryAcquire now b)"
  by (auto simp: TryAcquire_def IsSelectable_def Let_def split: prod.splits State.splits option.splits)

lemma be_step_admission [frame]:
  assumes "\<And>p x. snd te \<noteq> EvSetAdmit p x"
  shows "admit (be_tstep te b) = admit b \<and> egressIPv4 (be_tstep te b) = egressIPv4 b"
  using assms
  by (cases "(te, b)" rule: be_slots.cases)
     (auto simp: TryAcquire_admission Release_def MarkFailure_def markFailureLocked_def
        MarkSuccess_def MarkProbeOK_def ForceState_def IncUniqueAttempt_def Let_def)

text \<open>Events that neither report a failure nor change state or admission from outside.\<close>

fun quiet :: "be_event \<Rightarrow> bool" where
  "quiet (EvMarkFailure r) = False"
| "quiet (EvMarkProbeFail r) = False"
| "quiet (EvForceState s) = False"
| "quiet (EvSetAdmit p x) = False"
| "quiet e = True"

text \<open>The instant from which an admitted backend is selectable if nothing fails any more.\<close>

definition ready_at :: "backend \<Rightarrow> instant" where
  "ready_at b =
     (case openedAt b of
        None \<Rightarrow> lastChange b + FailTimeout b
      | Some t \<Rightarrow> max (lastChange b + FailTimeout b) (t + OpenAfter b))"

definition ready_from :: "instant \<Rightarrow> backend \<Rightarrow> bool" where
  "ready_from t0 b \<longleftrightarrow> be_inv b \<and> admit b = AdmitInPool \<and>
     (case be_mode b of Closed n \<Rightarrow> True | Benched t n \<Rightarrow> t + FailTimeout b \<le> t0
      | Open t n \<Rightarrow> t + OpenAfter b \<le> t0)"

lemma ready_from_ready_at:
  "be_inv b \<Longrightarrow> admit b = AdmitInPool \<Longrightarrow> ready_at b \<le> t0 \<Longrightarrow> ready_from t0 b"
  by (cases "state b"; cases "openedAt b") (auto simp: ready_from_def ready_at_def be_mode_def be_inv_def)

lemma ready_from_selectable: "ready_from t0 b \<Longrightarrow> t0 \<le> now \<Longrightarrow> selectable now b"
  by (cases "state b") (auto simp: ready_from_def be_mode_def selectable_iff be_inv_def)

lemma ready_from_IsSelectable: "ready_from t0 b \<Longrightarrow> ready_from t0 (snd (IsSelectable now b))"
  using be_inv_IsSelectable [of b now]
  by (cases "state b") (auto simp: ready_from_def be_mode_def IsSelectable_def split: option.splits)

lemma ready_from_inflight:
  "be_inv (b\<lparr>inflight := n\<rparr>) \<Longrightarrow> ready_from t0 b \<Longrightarrow> ready_from t0 (b\<lparr>inflight := n\<rparr>)"
  by (cases "state b") (auto simp: ready_from_def be_mode_def)

lemma ready_from_step:
  assumes "ready_from t0 b" and "be_guard te b" and "quiet (snd te)"
  shows "ready_from t0 (be_tstep te b)"
proof -
  obtain t e where te: "te = (t, e)" by (cases te)
  from assms(1) have inv: "be_inv b" by (simp add: ready_from_def)
  then have inv': "be_inv (be_tstep te b)" using assms(2) by (rule be_inv_step)
  show ?thesis
  proof (cases e)
    case EvTryAcquire
    with te inv inv' show ?thesis
      by (auto simp: TryAcquire_eq ready_from_IsSelectable assms(1) intro: ready_from_inflight)
  next
    case EvRelease
    with te assms inv inv' show ?thesis
      by (auto simp: Release_eq intro: ready_from_inflight)
  next
    case EvIncUniqueAttempt
    with te assms(1) inv' show ?thesis
      by (cases "state b") (auto simp: ready_from_def be_mode_def IncUniqueAttempt_def Let_def)
  qed (use te assms inv' ready_from_IsSelectable in
        \<open>auto simp: ready_from_def be_mode_def MarkSuccess_def MarkProbeOK_def Let_def\<close>)
qed

interpretation ready: event_machine be_tstep "\<lambda>te b. be_guard te b \<and> quiet (snd te)" "ready_from t0"
  for t0
  by unfold_locales (blast intro: ready_from_step)

lemma unhealthy_step:
  "state b \<noteq> StateUnhealthy \<Longrightarrow> snd te \<noteq> EvForceState StateUnhealthy \<Longrightarrow>
     state (be_tstep te b) \<noteq> StateUnhealthy"
  by (cases "(te, b)" rule: be_slots.cases)
     (auto simp: be_defs Let_def split: prod.splits State.splits option.splits if_splits)

interpretation never_unhealthy: event_machine be_tstep
    "\<lambda>te b. snd te \<noteq> EvForceState StateUnhealthy" "\<lambda>b. state b \<noteq> StateUnhealthy"
  by unfold_locales (rule unhealthy_step)

section \<open>Properties\<close>

text \<open>A backend as the default configuration creates it, for the concrete instances.\<close>

definition sample_backend :: backend where
  "sample_backend = NewBackend 0 0 ''127.0.0.1:40000'' 3 (15 * Second) (10 * Second) 512"

text \<open>C5 (refinement): over any history of operations whose releases are matched, a backend
  behaves as the abstract circuit breaker: closed with a count of consecutive failures,
  benched, or open, admitted or not, whatever the other fifteen fields hold.\<close>

theorem backend_refines_breaker:
  assumes "be_inv b" and "allowed be_tstep be_guard es b"
  shows "be_abs (exec be_tstep es b) = exec br_step es (be_abs b)"
  using assms by (rule be.abs_exec)

lemma backend_refines_breaker_witness:
  "br_mode (be_abs (exec be_tstep
      [(1, EvSetAdmit AdmitInPool ''1.2.3.4''), (2, EvTryAcquire), (3, EvMarkFailure ''x''),
       (4, EvRelease), (5, EvMarkFailure ''y''), (6, EvMarkProbeFail ''z'')] sample_backend))
   = Open 6 3"
proof -
  have 1: "be_inv sample_backend"
    by (simp add: sample_backend_def be_inv_NewBackend)
  have 2: "allowed be_tstep be_guard
      [(1, EvSetAdmit AdmitInPool ''1.2.3.4''), (2, EvTryAcquire), (3, EvMarkFailure ''x''),
       (4, EvRelease), (5, EvMarkFailure ''y''), (6, EvMarkProbeFail ''z'')] sample_backend"
    by (simp add: sample_backend_def NewBackend_def be_defs i32_id)
  show ?thesis
    unfolding backend_refines_breaker [OF 1 2]
    by (simp add: sample_backend_def NewBackend_def be_abs_def be_mode_def)
qed

text \<open>C21 (functional): from a backend with no recorded failure, \<open>k\<close> consecutive failures open
  the circuit exactly when \<open>k\<close> has reached \<open>MaxFails\<close>, at the instant of the last one; before
  that the backend is degraded and still serves.\<close>

theorem circuit_opens_after_MaxFails:
  assumes "be_inv b" and "state b \<in> {StateHealthy, StateUnknown, StateDegraded}"
    and "fails b = 0" and "rs \<noteq> []"
  shows "let c = exec be_tstep (failures rs) b in
      fails c = int (length rs) \<and>
      (state c = StateCircuitOpen \<longleftrightarrow> MaxFails b \<le> int (length rs)) \<and>
      (MaxFails b \<le> int (length rs) \<longrightarrow> openedAt c = Some (fst (last rs))) \<and>
      (int (length rs) < MaxFails b \<longrightarrow> state c = StateDegraded)"
  using exec_failures [OF assms(2) _ assms(4)] assms(3)
  by (auto simp: Let_def split: if_splits)

lemma circuit_opens_after_MaxFails_witness:
  "state (exec be_tstep (failures [(1, ''a''), (2, ''b'')]) sample_backend) = StateDegraded \<and>
   state (exec be_tstep (failures [(1, ''a''), (2, ''b''), (3, ''c'')]) sample_backend)
     = StateCircuitOpen"
proof -
  have 1: "be_inv sample_backend" "state sample_backend \<in> {StateHealthy, StateUnknown, StateDegraded}"
      "fails sample_backend = 0" "MaxFails sample_backend = 3"
    by (simp_all add: sample_backend_def be_inv_NewBackend) (simp_all add: NewBackend_def)
  then show ?thesis
    using circuit_opens_after_MaxFails [OF 1(1-3), of "[(1, ''a''), (2, ''b'')]"]
      circuit_opens_after_MaxFails [OF 1(1-3), of "[(1, ''a''), (2, ''b''), (3, ''c'')]"]
    by (simp add: Let_def)
qed

text \<open>An open circuit turns every acquisition away until \<open>OpenAfter\<close> has
  passed since it opened, leaving the backend as it is; the first attempt after that
  half-opens it: degraded, the failure count back at zero, and the slot is granted if the
  backend has capacity.\<close>

theorem open_circuit_half_opens:
  assumes "be_inv b" and "admit b = AdmitInPool"
    and "state b = StateCircuitOpen" and "openedAt b = Some t"
  shows "(now - t < OpenAfter b \<longrightarrow> TryAcquire now b = (False, b)) \<and>
    (OpenAfter b \<le> now - t \<longrightarrow>
       fst (TryAcquire now b) = HasCapacity b \<and>
       state (snd (TryAcquire now b)) = StateDegraded \<and> fails (snd (TryAcquire now b)) = 0 \<and>
       openedAt (snd (TryAcquire now b)) = None)"
  using assms by (auto simp: TryAcquire_eq selectable_iff IsSelectable_def)

lemma open_circuit_half_opens_witness:
  "let b = exec be_tstep [(1, EvSetAdmit AdmitInPool ''''), (5, EvForceState StateCircuitOpen)]
              sample_backend
   in TryAcquire 6 b = (False, b) \<and> fst (TryAcquire (10 * Second + 5) b)"
proof -
  let ?b = "exec be_tstep [(1, EvSetAdmit AdmitInPool ''''), (5, EvForceState StateCircuitOpen)]
              sample_backend"
  have "be_inv ?b"
    by (rule be.inv_exec) (simp_all add: sample_backend_def be_inv_NewBackend)
  moreover have "admit ?b = AdmitInPool" "state ?b = StateCircuitOpen" "openedAt ?b = Some 5"
      "OpenAfter ?b = 10 * Second" "HasCapacity ?b"
    by (simp_all add: sample_backend_def NewBackend_def be_defs)
  ultimately show ?thesis
    using open_circuit_half_opens [of ?b 5 6] open_circuit_half_opens [of ?b 5 "10 * Second + 5"]
    by (simp add: Let_def)
qed

text \<open>C9 (liveness): no admitted backend is lost for good. Whatever state it is in, once no
  failure is reported and nobody forces its state or admission, it is selectable at every
  instant from a fixed deadline on, whatever else happens in between.\<close>

theorem admitted_backend_recovers:
  assumes "be_inv b" and "admit b = AdmitInPool"
    and "allowed be_tstep (\<lambda>te b. be_guard te b \<and> quiet (snd te)) es b"
    and "ready_at b \<le> now"
  shows "fst (IsSelectable now (exec be_tstep es b))"
proof -
  from assms(1,2,4) have "ready_from now b" by (rule ready_from_ready_at)
  then have "ready_from now (exec be_tstep es b)" using assms(3) by (rule ready.inv_exec)
  then show ?thesis
    using ready_from_selectable [of now _ now] by (simp add: selectable_def)
qed

lemma admitted_backend_recovers_witness:
  "fst (IsSelectable (20 * Second) (exec be_tstep [(7, EvTryAcquire)]
     (exec be_tstep [(1, EvSetAdmit AdmitInPool ''''), (5, EvForceState StateUnhealthy)]
        sample_backend)))"
proof -
  let ?b = "exec be_tstep [(1, EvSetAdmit AdmitInPool ''''), (5, EvForceState StateUnhealthy)]
              sample_backend"
  have 1: "be_inv ?b"
    by (rule be.inv_exec) (simp_all add: sample_backend_def be_inv_NewBackend)
  have 2: "admit ?b = AdmitInPool" "ready_at ?b \<le> 20 * Second"
    by (simp_all add: sample_backend_def NewBackend_def be_defs ready_at_def)
  show ?thesis
    by (rule admitted_backend_recovers [OF 1 2(1) _ 2(2)]) simp
qed

text \<open>The in-flight counter is exact and bounded: after any history it is the
  number of slots granted minus the number released, and it never leaves the range from
  zero to \<open>MaxInflight\<close>.\<close>

theorem inflight_accounting:
  assumes "be_inv b" and "allowed be_tstep be_guard es b"
  shows "inflight (exec be_tstep es b) = inflight b + total be_tstep be_slots es b \<and>
         0 \<le> inflight (exec be_tstep es b) \<and>
         inflight (exec be_tstep es b) \<le> MaxInflight (exec be_tstep es b)"
proof -
  have "be_inv (exec be_tstep es b)" using assms by (rule be.inv_exec)
  moreover have "inflight (exec be_tstep es b) = inflight b + total be_tstep be_slots es b"
    using be_slots_step assms by (rule be.exec_total)
  ultimately show ?thesis by (simp add: be_inv_def)
qed

lemma inflight_accounting_witness:
  "inflight (exec be_tstep [(1, EvSetAdmit AdmitInPool ''''), (2, EvTryAcquire),
     (3, EvTryAcquire), (4, EvRelease)] sample_backend) = 1"
proof -
  have "be_inv sample_backend"
    by (simp add: sample_backend_def be_inv_NewBackend)
  then show ?thesis
    using inflight_accounting [of sample_backend "[(1, EvSetAdmit AdmitInPool ''''),
      (2, EvTryAcquire), (3, EvTryAcquire), (4, EvRelease)]"]
    by (simp add: sample_backend_def NewBackend_def be_defs i32_id)
qed

text \<open>Only \<open>SetAdmit\<close> puts a backend into the selector. As long as it is not
  called, a warming or parked backend stays warming or parked, keeps its egress tag, and
  every acquisition is refused, whatever its health does.\<close>

theorem not_admitted_never_acquired:
  assumes "admit b \<noteq> AdmitInPool" and "\<forall>te \<in> set es. \<forall>p x. snd te \<noteq> EvSetAdmit p x"
  shows "admit (exec be_tstep es b) = admit b \<and> egressIPv4 (exec be_tstep es b) = egressIPv4 b \<and>
         \<not> fst (TryAcquire now (exec be_tstep es b))"
proof -
  have "admit (exec be_tstep es b) = admit b \<and> egressIPv4 (exec be_tstep es b) = egressIPv4 b"
    using assms(2)
  proof (induction es arbitrary: b)
    case Nil
    then show ?case by simp
  next
    case (Cons te es)
    then show ?case using be_step_admission [of te b] by simp
  qed
  with assms(1) show ?thesis by (simp add: TryAcquire_admission(3))
qed

lemma not_admitted_never_acquired_witness:
  "\<not> fst (TryAcquire 3 (exec be_tstep [(1, EvMarkSuccess), (2, EvForceState StateHealthy)]
      sample_backend))"
proof -
  have "admit sample_backend \<noteq> AdmitInPool"
    by (simp add: sample_backend_def NewBackend_def)
  then show ?thesis
    using not_admitted_never_acquired
      [of sample_backend "[(1, EvMarkSuccess), (2, EvForceState StateHealthy)]" 3]
    by simp
qed

text \<open>The unhealthy state is never reached from within the backend. The branch of
  \<open>MarkProbeFail\<close> that sets it is dead, so only an outside \<open>ForceState(StateUnhealthy)\<close>
  (the health prober's) enters it.\<close>

theorem unhealthy_only_when_forced:
  assumes "state b \<noteq> StateUnhealthy"
    and "\<forall>te \<in> set es. snd te \<noteq> EvForceState StateUnhealthy"
  shows "state (exec be_tstep es b) \<noteq> StateUnhealthy"
proof -
  have "allowed be_tstep (\<lambda>te b. snd te \<noteq> EvForceState StateUnhealthy) es b"
    using assms(2) by (induction es arbitrary: b) auto
  with assms(1) show ?thesis by (rule never_unhealthy.inv_exec)
qed

lemma unhealthy_only_when_forced_witness:
  "state (exec be_tstep [(1, EvMarkProbeFail ''a''), (2, EvMarkProbeFail ''b''),
     (3, EvMarkProbeFail ''c'')] sample_backend) \<noteq> StateUnhealthy"
  by (rule unhealthy_only_when_forced) (simp_all add: sample_backend_def NewBackend_def)

end
