(* ===== verification/Go_Strings.thy ===== *)
theory Go_Strings
  imports Go_Prelude "HOL-Library.Char_ord"
begin

text \<open>
  The functions of Go's \<open>strings\<close> and \<open>strconv\<close> packages that the program calls. A Go
  string is a sequence of bytes; it is a \<^typ>\<open>string\<close> here, whose characters are exactly the
  256 byte values.
\<close>

section \<open>Searching and cutting\<close>

definition HasPrefix :: "string \<Rightarrow> string \<Rightarrow> bool" where
  "HasPrefix s p \<longleftrightarrow> take (length p) s = p"

definition TrimPrefix :: "string \<Rightarrow> string \<Rightarrow> string" where
  "TrimPrefix s p = (if HasPrefix s p then drop (length p) s else s)"

definition CutPrefix :: "string \<Rightarrow> string \<Rightarrow> string option" where
  "CutPrefix s p = (if HasPrefix s p then Some (drop (length p) s) else None)"

text \<open>\<open>strings.IndexByte\<close> and \<open>strings.LastIndexByte\<close>; \<open>None\<close> is the result \<open>-1\<close>.\<close>

fun IndexByte :: "string \<Rightarrow> char \<Rightarrow> nat option" where
  "IndexByte [] c = None"
| "IndexByte (x # s) c = (if x = c then Some 0 else map_option Suc (IndexByte s c))"

fun LastIndexByte :: "string \<Rightarrow> char \<Rightarrow> nat option" where
  "LastIndexByte [] c = None"
| "LastIndexByte (x # s) c =
     (case LastIndexByte s c of
        Some i \<Rightarrow> Some (Suc i)
      | None \<Rightarrow> if x = c then Some 0 else None)"

text \<open>\<open>strings.Index\<close> for a non-empty pattern.\<close>

fun Index :: "string \<Rightarrow> string \<Rightarrow> nat option" where
  "Index [] p = (if p = [] then Some 0 else None)"
| "Index (x # s) p = (if HasPrefix (x # s) p then Some 0 else map_option Suc (Index s p))"

definition Contains :: "string \<Rightarrow> string \<Rightarrow> bool" where
  "Contains s p \<longleftrightarrow> Index s p \<noteq> None"

text \<open>\<open>strings.Cut(s, sep)\<close> for a one-byte separator; \<open>None\<close> when it does not occur.\<close>

definition Cut :: "string \<Rightarrow> char \<Rightarrow> (string \<times> string) option" where
  "Cut s c = map_option (\<lambda>i. (take i s, drop (Suc i) s)) (IndexByte s c)"

text \<open>\<open>strings.Split(s, sep)\<close> for a one-byte separator.\<close>

fun Split :: "string \<Rightarrow> char \<Rightarrow> string list" where
  "Split [] c = [[]]"
| "Split (x # s) c =
     (if x = c then [] # Split s c
      else (case Split s c of f # fs \<Rightarrow> (x # f) # fs | [] \<Rightarrow> [[x]]))"

section \<open>Case and white space\<close>

text \<open>
  \<open>strings.ToLower\<close>. The program only compares its result with ASCII literals. Besides
  the ASCII capitals there are two code points whose lower case is ASCII, U+0130 (\<open>i\<close>) and
  U+212A (\<open>k\<close>); every other non-ASCII character stays non-ASCII, so leaving its bytes alone
  decides every such comparison as Go does.
\<close>

fun lower_byte :: "char \<Rightarrow> char" where
  "lower_byte c = (if CHR ''A'' \<le> c \<and> c \<le> CHR ''Z'' then char_of (of_char c + 32 :: nat) else c)"

fun ToLower :: "string \<Rightarrow> string" where
  "ToLower [] = []"
| "ToLower [c] = [lower_byte c]"
| "ToLower [c, d] =
     (if c = CHR 0xC4 \<and> d = CHR 0xB0 then ''i'' else [lower_byte c, lower_byte d])"
| "ToLower (c # d # e # s) =
     (if c = CHR 0xC4 \<and> d = CHR 0xB0 then CHR ''i'' # ToLower (e # s)
      else if c = CHR 0xE2 \<and> d = CHR 0x84 \<and> e = CHR 0xAA then CHR ''k'' # ToLower s
      else lower_byte c # ToLower (d # e # s))"

text \<open>
  \<open>unicode.IsSpace\<close> on UTF-8: the ASCII spaces, the two-byte U+0085 and U+00A0, and the
  three-byte U+1680, U+2000 to U+200A, U+2028, U+2029, U+202F, U+205F and U+3000.
\<close>

definition space1 :: "char \<Rightarrow> bool" where
  "space1 c \<longleftrightarrow> c \<in> {CHR 0x09, CHR 0x0A, CHR 0x0B, CHR 0x0C, CHR 0x0D, CHR '' ''}"

definition space2 :: "char \<Rightarrow> char \<Rightarrow> bool" where
  "space2 c d \<longleftrightarrow> c = CHR 0xC2 \<and> (d = CHR 0x85 \<or> d = CHR 0xA0)"

definition space3 :: "char \<Rightarrow> char \<Rightarrow> char \<Rightarrow> bool" where
  "space3 c d e \<longleftrightarrow>
     c = CHR 0xE1 \<and> d = CHR 0x9A \<and> e = CHR 0x80 \<or>
     c = CHR 0xE2 \<and> d = CHR 0x80 \<and>
       (CHR 0x80 \<le> e \<and> e \<le> CHR 0x8A \<or> e = CHR 0xA8 \<or> e = CHR 0xA9 \<or> e = CHR 0xAF) \<or>
     c = CHR 0xE2 \<and> d = CHR 0x81 \<and> e = CHR 0x9F \<or>
     c = CHR 0xE3 \<and> d = CHR 0x80 \<and> e = CHR 0x80"

fun TrimLeft :: "string \<Rightarrow> string" where
  "TrimLeft [] = []"
| "TrimLeft [c] = (if space1 c then [] else [c])"
| "TrimLeft [c, d] =
     (if space1 c then TrimLeft [d] else if space2 c d then [] else [c, d])"
| "TrimLeft (c # d # e # s) =
     (if space1 c then TrimLeft (d # e # s)
      else if space2 c d then TrimLeft (e # s)
      else if space3 c d e then TrimLeft s
      else c # d # e # s)"

text \<open>The same from the right end, on the reversed string.\<close>

fun TrimRight_rev :: "string \<Rightarrow> string" where
  "TrimRight_rev [] = []"
| "TrimRight_rev [c] = (if space1 c then [] else [c])"
| "TrimRight_rev [d, c] =
     (if space1 d then TrimRight_rev [c] else if space2 c d then [] else [d, c])"
| "TrimRight_rev (e # d # c # s) =
     (if space1 e then TrimRight_rev (d # c # s)
      else if space2 d e then TrimRight_rev (c # s)
      else if space3 c d e then TrimRight_rev s
      else e # d # c # s)"

definition TrimSpace :: "string \<Rightarrow> string" where
  "TrimSpace s = rev (TrimRight_rev (rev (TrimLeft s)))"

section \<open>Decimal numbers\<close>

definition is_digit :: "char \<Rightarrow> bool" where
  "is_digit c \<longleftrightarrow> CHR ''0'' \<le> c \<and> c \<le> CHR ''9''"

definition digit_val :: "char \<Rightarrow> nat" where
  "digit_val c = of_char c - 48"

definition digit_char :: "nat \<Rightarrow> char" where
  "digit_char n = char_of (48 + n)"

fun digits_val :: "nat \<Rightarrow> string \<Rightarrow> nat" where
  "digits_val acc [] = acc"
| "digits_val acc (c # s) = digits_val (10 * acc + digit_val c) s"

text \<open>An unsigned decimal numeral: at least one digit and nothing else.\<close>

definition parse_dec :: "string \<Rightarrow> nat option" where
  "parse_dec s = (if s \<noteq> [] \<and> list_all is_digit s then Some (digits_val 0 s) else None)"

text \<open>
  \<open>strconv.Atoi\<close> and \<open>strconv.ParseInt(s, 10, 64)\<close>: an optional sign, then digits;
  \<open>None\<close> stands for every error, out of range included.
\<close>

definition in_int64 :: "int \<Rightarrow> bool" where
  "in_int64 n \<longleftrightarrow> - (2 ^ 63) \<le> n \<and> n < 2 ^ 63"

fun signed_dec :: "string \<Rightarrow> int option" where
  "signed_dec [] = None"
| "signed_dec (c # s) =
     (if c = CHR ''-'' then map_option (\<lambda>n. - int n) (parse_dec s)
      else if c = CHR ''+'' then map_option int (parse_dec s)
      else map_option int (parse_dec (c # s)))"

definition Atoi :: "string \<Rightarrow> int option" where
  "Atoi s = (case signed_dec s of
       Some n \<Rightarrow> if in_int64 n then Some n else None
     | None \<Rightarrow> None)"

text \<open>Formatting with \<open>%d\<close>.\<close>

fun nat_dec :: "nat \<Rightarrow> string" where
  "nat_dec n = (if n < 10 then [digit_char n] else nat_dec (n div 10) @ [digit_char (n mod 10)])"

declare nat_dec.simps [simp del]

definition int_dec :: "int \<Rightarrow> string" where
  "int_dec n = (if n < 0 then CHR ''-'' # nat_dec (nat (- n)) else nat_dec (nat n))"

section \<open>Laws\<close>

lemma of_char_digit_char: "n < 10 \<Longrightarrow> of_char (digit_char n) = 48 + n"
  by (simp add: digit_char_def)

lemma digit_char_laws [simp]:
  assumes "n < 10"
  shows "is_digit (digit_char n)" and "digit_val (digit_char n) = n"
  using assms by (simp_all add: is_digit_def digit_val_def less_eq_char_def of_char_digit_char)

lemma digits_val_append: "digits_val acc (s @ t) = digits_val (digits_val acc s) t"
  by (induction s arbitrary: acc) auto

lemma nat_dec_digits: "nat_dec n \<noteq> [] \<and> list_all is_digit (nat_dec n)"
proof (induction n rule: nat_dec.induct)
  case (1 n)
  then show ?case by (auto simp: nat_dec.simps [of n])
qed

lemma nat_dec_nonempty [simp]: "nat_dec n \<noteq> []" "[] \<noteq> nat_dec n"
  using nat_dec_digits [of n] by auto

lemma digits_val_nat_dec [simp]: "digits_val 0 (nat_dec n) = n"
proof (induction n rule: nat_dec.induct)
  case (1 n)
  then show ?case by (subst nat_dec.simps) (auto simp: digits_val_append)
qed

lemma parse_dec_nat_dec [simp]: "parse_dec (nat_dec n) = Some n"
  using nat_dec_digits [of n] by (simp add: parse_dec_def)

lemma nat_dec_inj: "nat_dec m = nat_dec n \<longleftrightarrow> m = n"
  by (metis digits_val_nat_dec)

lemma nat_dec_set: "c \<in> set (nat_dec n) \<Longrightarrow> is_digit c"
  using nat_dec_digits [of n] by (simp add: list_all_iff)

lemma nat_dec_no_sep [simp]:
  "CHR '':'' \<notin> set (nat_dec n)" "CHR ''.'' \<notin> set (nat_dec n)" "CHR ''['' \<notin> set (nat_dec n)"
  "CHR '']'' \<notin> set (nat_dec n)" "CHR ''%'' \<notin> set (nat_dec n)" "CHR '','' \<notin> set (nat_dec n)"
  "CHR ''-'' \<notin> set (nat_dec n)" "CHR ''+'' \<notin> set (nat_dec n)"
  by (auto dest: nat_dec_set simp: is_digit_def less_eq_char_def)

lemma Atoi_int_dec: "in_int64 n \<Longrightarrow> Atoi (int_dec n) = Some n"
proof -
  assume n: "in_int64 n"
  show ?thesis
  proof (cases "n < 0")
    case True
    with n show ?thesis by (simp add: Atoi_def int_dec_def)
  next
    case False
    obtain c s where cs: "nat_dec (nat n) = c # s" by (cases "nat_dec (nat n)") auto
    then have "c \<noteq> CHR ''-''" "c \<noteq> CHR ''+''"
      using nat_dec_no_sep(7,8) [of "nat n"] by auto
    then have "signed_dec (nat_dec (nat n)) = map_option int (parse_dec (nat_dec (nat n)))"
      by (simp add: cs)
    with n False show ?thesis by (simp add: Atoi_def int_dec_def)
  qed
qed

lemma IndexByte_None [simp]: "IndexByte s c = None \<longleftrightarrow> c \<notin> set s"
  by (induction s) auto

lemma IndexByte_fresh: "c \<notin> set s \<Longrightarrow> IndexByte (s @ c # t) c = Some (length s)"
  by (induction s) auto

lemma LastIndexByte_None [simp]: "LastIndexByte s c = None \<longleftrightarrow> c \<notin> set s"
  by (induction s) (auto split: option.splits)

lemma LastIndexByte_fresh: "c \<notin> set t \<Longrightarrow> LastIndexByte (s @ c # t) c = Some (length s)"
  by (induction s) (auto split: option.splits)

lemma Cut_fresh: "c \<notin> set s \<Longrightarrow> Cut (s @ c # t) c = Some (s, t)"
  by (simp add: Cut_def IndexByte_fresh)

lemma Split_fresh: "c \<notin> set s \<Longrightarrow> Split (s @ c # t) c = s # Split t c"
  by (induction s) auto

lemma Split_single: "c \<notin> set s \<Longrightarrow> Split s c = [s]"
  by (induction s) auto

lemma HasPrefix_append [simp]: "HasPrefix (p @ s) p"
  by (simp add: HasPrefix_def)

lemma HasPrefix_iff: "HasPrefix s p \<longleftrightarrow> (\<exists>t. s = p @ t)"
  by (auto simp: HasPrefix_def) (metis append_take_drop_id)

end
