(* ===== verification/Go_Net.thy ===== *)
theory Go_Net
  imports Go_Strings
begin

text \<open>
  The parts of Go's \<open>net\<close> package that the program calls: \<open>SplitHostPort\<close>, \<open>ParseIP\<close>,
  \<open>IP.To4\<close> and \<open>IP.String\<close> (through \<open>net/netip\<close>), and the FNV-1a hash of \<open>hash/fnv\<close>.
  Errors whose text the program drops are \<open>None\<close>.
\<close>

section \<open>Host and port\<close>

definition SplitHostPort :: "string \<Rightarrow> (string \<times> string) option" where
  "SplitHostPort hp =
     (case LastIndexByte hp (CHR '':'') of
        None \<Rightarrow> None
      | Some i \<Rightarrow>
          if hp ! 0 = CHR ''['' then
            (case IndexByte hp (CHR '']'') of
               None \<Rightarrow> None
             | Some e \<Rightarrow>
                 if e + 1 \<noteq> i then None
                 else if CHR ''['' \<in> set (drop 1 hp) then None
                 else if CHR '']'' \<in> set (drop (e + 1) hp) then None
                 else Some (drop 1 (take e hp), drop (i + 1) hp))
          else if CHR '':'' \<in> set (take i hp) then None
          else if CHR ''['' \<in> set hp then None
          else if CHR '']'' \<in> set hp then None
          else Some (take i hp, drop (i + 1) hp))"

section \<open>IP addresses\<close>

type_synonym ip = "u8 list"

definition v4InV6Prefix :: ip where
  "v4InV6Prefix = [0, 0, 0, 0, 0, 0, 0, 0, 0, 0, 0xFF, 0xFF]"

definition To4 :: "ip \<Rightarrow> ip option" where
  "To4 a = (if length a = 4 then Some a
            else if length a = 16 \<and> take 12 a = v4InV6Prefix then Some (drop 12 a)
            else None)"

subsection \<open>Parsing\<close>

text \<open>One field of a dotted quad: decimal, no leading zero, at most 255.\<close>

definition parse_octet :: "string \<Rightarrow> u8 option" where
  "parse_octet s =
     (case parse_dec s of
        None \<Rightarrow> None
      | Some n \<Rightarrow>
          if 1 < length s \<and> hd s = CHR ''0'' then None
          else if 255 < n then None else Some (of_nat n))"

definition parseIPv4 :: "string \<Rightarrow> ip option" where
  "parseIPv4 s =
     (case map parse_octet (Split s (CHR ''.'')) of
        [Some a, Some b, Some c, Some d] \<Rightarrow> Some [a, b, c, d]
      | _ \<Rightarrow> None)"

fun hex_val :: "char \<Rightarrow> nat option" where
  "hex_val c =
     (if CHR ''0'' \<le> c \<and> c \<le> CHR ''9'' then Some (of_char c - 48)
      else if CHR ''a'' \<le> c \<and> c \<le> CHR ''f'' then Some (of_char c - 87)
      else if CHR ''A'' \<le> c \<and> c \<le> CHR ''F'' then Some (of_char c - 55)
      else None)"

text \<open>The hexadecimal digits at the front of a string, their value, and what follows.\<close>

fun hex_group :: "nat \<Rightarrow> string \<Rightarrow> nat \<times> nat \<times> string" where
  "hex_group acc [] = (0, acc, [])"
| "hex_group acc (c # s) =
     (case hex_val c of
        None \<Rightarrow> (0, acc, c # s)
      | Some v \<Rightarrow> (let (n, r, t) = hex_group (16 * acc + v) s in (Suc n, r, t)))"

text \<open>
  The loop of \<open>netip.parseIPv6\<close>: \<open>done\<close> holds the bytes read so far, \<open>ell\<close> the position of
  \<open>::\<close>. Each round adds two bytes (or the four of a trailing dotted quad), so eight rounds
  are all that can happen; the first argument counts them.
\<close>

fun v6_loop :: "nat \<Rightarrow> u8 list \<Rightarrow> nat option \<Rightarrow> string \<Rightarrow> (u8 list \<times> nat option \<times> string) option"
where
  "v6_loop 0 acc ell s = Some (acc, ell, s)"
| "v6_loop (Suc k) acc ell s =
     (let (n, v, t) = hex_group 0 s in
      if n = 0 \<or> 4 < n then None
      else if t \<noteq> [] \<and> hd t = CHR ''.'' then
        (if ell = None \<and> length acc \<noteq> 12 then None
         else if 16 < length acc + 4 then None
         else map_option (\<lambda>q. (acc @ q, ell, [])) (parseIPv4 s))
      else
        (let acc2 = acc @ [of_nat (v div 256), of_nat (v mod 256)] in
         case t of
           [] \<Rightarrow> Some (acc2, ell, [])
         | c # t1 \<Rightarrow>
             if c \<noteq> CHR '':'' then None
             else (case t1 of
                 [] \<Rightarrow> None
               | d # t2 \<Rightarrow>
                   if d = CHR '':'' then
                     (if ell \<noteq> None then None
                      else if t2 = [] then Some (acc2, Some (length acc2), [])
                      else v6_loop k acc2 (Some (length acc2)) t2)
                   else v6_loop k acc2 ell t1)))"

definition parseIPv6 :: "string \<Rightarrow> ip option" where
  "parseIPv6 s0 =
     (let lead = HasPrefix s0 ''::'';
          s = (if lead then drop 2 s0 else s0) in
      if lead \<and> s = [] then Some (replicate 16 0)
      else
        (case v6_loop 8 [] (if lead then Some 0 else None) s of
           None \<Rightarrow> None
         | Some (acc, ell, rest) \<Rightarrow>
             if rest \<noteq> [] then None
             else if length acc < 16 then
               (case ell of
                  None \<Rightarrow> None
                | Some e \<Rightarrow> Some (take e acc @ replicate (16 - length acc) 0 @ drop e acc))
             else if ell \<noteq> None then None
             else Some acc))"

text \<open>
  \<open>net.ParseIP\<close>: the first dot or colon decides the family; an address with a zone is
  refused. IPv4 addresses come back in their 16-byte form.
\<close>

definition ParseIP :: "string \<Rightarrow> ip option" where
  "ParseIP s =
     (case find (\<lambda>c. c = CHR ''.'' \<or> c = CHR '':'' \<or> c = CHR ''%'') s of
        Some c \<Rightarrow>
          if c = CHR ''.'' then map_option (\<lambda>q. v4InV6Prefix @ q) (parseIPv4 s)
          else if c = CHR '':'' then
            (if CHR ''%'' \<in> set s then None else parseIPv6 s)
          else None
      | None \<Rightarrow> None)"

subsection \<open>Printing\<close>

definition octet_dec :: "u8 \<Rightarrow> string" where
  "octet_dec b = nat_dec (unat b)"

fun v4_string :: "ip \<Rightarrow> string" where
  "v4_string [a, b, c, d] =
     octet_dec a @ ''.'' @ octet_dec b @ ''.'' @ octet_dec c @ ''.'' @ octet_dec d"
| "v4_string _ = ''''"

definition hex_char :: "nat \<Rightarrow> char" where
  "hex_char n = (if n < 10 then char_of (48 + n) else char_of (87 + n))"

text \<open>\<open>appendHex\<close>: no leading zeros.\<close>

definition hex16 :: "nat \<Rightarrow> string" where
  "hex16 v =
     (if v \<ge> 4096 then [hex_char (v div 4096)] else []) @
     (if v \<ge> 256 then [hex_char (v div 256 mod 16)] else []) @
     (if v \<ge> 16 then [hex_char (v div 16 mod 16)] else []) @
     [hex_char (v mod 16)]"

fun v6_groups :: "ip \<Rightarrow> nat list" where
  "v6_groups (a # b # r) = (256 * unat a + unat b) # v6_groups r"
| "v6_groups _ = []"

text \<open>The first longest run of at least two zero groups, as start and end.\<close>

fun zero_len :: "nat list \<Rightarrow> nat" where
  "zero_len (0 # gs) = Suc (zero_len gs)"
| "zero_len _ = 0"

fun zero_run :: "nat \<Rightarrow> nat list \<Rightarrow> (nat \<times> nat) option \<Rightarrow> (nat \<times> nat) option" where
  "zero_run i [] best = best"
| "zero_run i (g # gs) best =
     (let l = zero_len (g # gs);
          cur = (case best of None \<Rightarrow> 0 | Some (s, e) \<Rightarrow> e - s) in
      zero_run (Suc i) gs (if 2 \<le> l \<and> cur < l then Some (i, i + l) else best))"

fun join_colon :: "nat list \<Rightarrow> string" where
  "join_colon [] = ''''"
| "join_colon [g] = hex16 g"
| "join_colon (g # gs) = hex16 g @ '':'' @ join_colon gs"

definition v6_string :: "ip \<Rightarrow> string" where
  "v6_string a =
     (let gs = v6_groups a in
      case zero_run 0 gs None of
        None \<Rightarrow> join_colon gs
      | Some (s, e) \<Rightarrow> join_colon (take s gs) @ ''::'' @ join_colon (drop e gs))"

definition IP_String :: "ip \<Rightarrow> string" where
  "IP_String a =
     (if a = [] then ''<nil>''
      else if length a \<noteq> 4 \<and> length a \<noteq> 16
      then ''?'' @ concat (map (\<lambda>b. [hex_char (unat b div 16), hex_char (unat b mod 16)]) a)
      else (case To4 a of Some q \<Rightarrow> v4_string q | None \<Rightarrow> v6_string a))"

section \<open>FNV-1a, 64 bits\<close>

definition fnv_offset64 :: u64 where "fnv_offset64 = 14695981039346656037"
definition fnv_prime64 :: u64 where "fnv_prime64 = 1099511628211"

definition fnv64a :: "string \<Rightarrow> u64" where
  "fnv64a s = fold (\<lambda>c h. (xor h (of_char c)) * fnv_prime64) s fnv_offset64"

section \<open>Laws\<close>

lemma SplitHostPort_plain:
  assumes "set h \<inter> {CHR '':'', CHR ''['', CHR '']''} = {}"
    and "set p \<inter> {CHR '':'', CHR ''['', CHR '']''} = {}"
  shows "SplitHostPort (h @ CHR '':'' # p) = Some (h, p)"
proof -
  have "LastIndexByte (h @ CHR '':'' # p) (CHR '':'') = Some (length h)"
    using assms(2) by (intro LastIndexByte_fresh) auto
  moreover have "(h @ CHR '':'' # p) ! 0 \<noteq> CHR ''[''"
    using assms(1) by (cases h) auto
  ultimately show ?thesis
    using assms by (auto simp: SplitHostPort_def)
qed

lemma SplitHostPort_bracketed:
  assumes "set h \<inter> {CHR ''['', CHR '']''} = {}"
    and "set p \<inter> {CHR '':'', CHR ''['', CHR '']''} = {}"
  shows "SplitHostPort (CHR ''['' # h @ CHR '']'' # CHR '':'' # p) = Some (h, p)"
proof -
  let ?s = "(CHR ''['' # h @ [CHR '']'']) @ CHR '':'' # p"
  have last: "LastIndexByte ?s (CHR '':'') = Some (length h + 2)"
    using assms(2) by (subst LastIndexByte_fresh) auto
  have "IndexByte ((CHR ''['' # h) @ CHR '']'' # CHR '':'' # p) (CHR '']'') = Some (length h + 1)"
    using assms(1) by (subst IndexByte_fresh) auto
  then have close: "IndexByte ?s (CHR '']'') = Some (length h + 1)"
    by (simp del: IndexByte.simps)
  have "?s ! 0 = CHR ''[''" by simp
  with last close assms have "SplitHostPort ?s = Some (h, p)"
    unfolding SplitHostPort_def by (simp del: IndexByte.simps LastIndexByte.simps)
  then show ?thesis by simp
qed

lemma unat_le_255: "unat (b :: u8) \<le> 255"
  using unsigned_less [of b, where 'a = nat] by simp

lemma nat_dec_leading: "1 < length (nat_dec n) \<Longrightarrow> hd (nat_dec n) \<noteq> CHR ''0''"
proof (induction n rule: nat_dec.induct)
  case (1 n)
  show ?case
  proof (cases "n < 10")
    case True
    with 1(2) show ?thesis by (simp add: nat_dec.simps [of n])
  next
    case False
    let ?d = "nat_dec (n div 10)"
    have hd: "hd (nat_dec n) = hd ?d"
      using False by (simp add: nat_dec.simps [of n])
    show ?thesis
    proof (cases "1 < length ?d")
      case True
      with 1(1) False hd show ?thesis by simp
    next
      case single: False
      have "n div 10 < 10"
        using single by (rule contrapos_np) (simp add: nat_dec.simps [of "n div 10"] Suc_lessI)
      moreover from False have "n div 10 \<noteq> 0" by simp
      ultimately have "hd ?d = digit_char (n div 10)" "of_char (digit_char (n div 10)) \<noteq> (48 :: nat)"
        by (simp_all add: nat_dec.simps [of "n div 10"] of_char_digit_char)
      then show ?thesis using hd by auto
    qed
  qed
qed

lemma parse_octet_dec [simp]: "parse_octet (octet_dec b) = Some b"
  using unat_le_255 [of b] nat_dec_leading [of "unat b"]
  by (auto simp: parse_octet_def octet_dec_def)

lemma octet_dec_clean [simp]:
  "CHR ''.'' \<notin> set (octet_dec b)" "CHR '':'' \<notin> set (octet_dec b)" "CHR ''%'' \<notin> set (octet_dec b)"
  "CHR ''['' \<notin> set (octet_dec b)" "CHR '']'' \<notin> set (octet_dec b)" "octet_dec b \<noteq> []"
  by (simp_all add: octet_dec_def)

lemma parseIPv4_v4_string [simp]: "parseIPv4 (v4_string [a, b, c, d]) = Some [a, b, c, d]"
  by (simp add: parseIPv4_def Split_fresh Split_single)

lemma find_first_match: "(\<And>x. x \<in> set s \<Longrightarrow> \<not> P x) \<Longrightarrow> P c \<Longrightarrow> find P (s @ c # t) = Some c"
  by (induction s) auto

lemma ParseIP_v4_string:
  "ParseIP (v4_string [a, b, c, d]) = Some (v4InV6Prefix @ [a, b, c, d])"
proof -
  let ?P = "\<lambda>c. c = CHR ''.'' \<or> c = CHR '':'' \<or> c = CHR ''%''"
  have "find ?P (octet_dec a @ CHR ''.'' # t) = Some (CHR ''.'')" for t
    using octet_dec_clean [of a] by (intro find_first_match) metis+
  then have "find ?P (v4_string [a, b, c, d]) = Some (CHR ''.'')"
    by simp
  then show ?thesis
    by (simp add: ParseIP_def del: v4_string.simps)
qed

lemma IP_String_v4: "IP_String (v4InV6Prefix @ [a, b, c, d]) = v4_string [a, b, c, d]"
  by (simp add: IP_String_def To4_def v4InV6Prefix_def)

lemma v4_string_clean [simp]:
  "set (v4_string [a, b, c, d]) \<inter> {CHR '':'', CHR ''['', CHR '']''} = {}"
  by simp

lemma v4_string_inj:
  "v4_string [a, b, c, d] = v4_string [a', b', c', d'] \<longleftrightarrow> [a, b, c, d] = [a', b', c', d']"
  by (metis option.inject parseIPv4_v4_string)

lemma v4_string_nonempty: "v4_string [a, b, c, d] \<noteq> []"
  by simp

lemmas SplitHostPort_v4 = SplitHostPort_plain [OF v4_string_clean]

section \<open>Widths of parsed addresses\<close>

lemma parseIPv4_length: "parseIPv4 s = Some q \<Longrightarrow> length q = 4"
  by (auto simp: parseIPv4_def split: list.splits option.splits)

lemma v6_loop_length:
  "v6_loop k acc ell s = Some (a, e, r) \<Longrightarrow> length acc + 2 * k \<le> 16 \<Longrightarrow> length a \<le> 16"
proof (induction k arbitrary: acc ell s)
  case 0
  then show ?case by simp
next
  case (Suc k)
  obtain n v t where g: "hex_group 0 s = (n, v, t)" by (metis prod_cases3)
  let ?acc = "acc @ [of_nat (v div 256), of_nat (v mod 256)]"
  have acc: "length ?acc + 2 * k \<le> 16" using Suc.prems(2) by simp
  note run = Suc.prems(1) [unfolded v6_loop.simps g Let_def prod.case]
  show ?case
  proof (cases "t \<noteq> [] \<and> hd t = CHR ''.''")
    case True
    with run Suc.prems(2) show ?thesis by (auto split: if_splits dest: parseIPv4_length)
  next
    case False
    with run acc show ?thesis
      by (auto split: if_splits list.splits dest!: Suc.IH [where acc = ?acc])
  qed
qed

lemma ParseIP_length: "ParseIP s = Some ip \<Longrightarrow> length ip = 16"
proof -
  have v6: "length a = 16" if "parseIPv6 s = Some a" for s a
    using that by (auto simp: parseIPv6_def Let_def split: if_splits option.splits prod.splits
      dest!: v6_loop_length)
  show "ParseIP s = Some ip \<Longrightarrow> length ip = 16"
    by (auto simp: ParseIP_def v4InV6Prefix_def split: option.splits if_splits dest: parseIPv4_length v6)
qed

end
