(* ===== verification/Config.thy ===== *)
theory Config
  imports Go_Net
begin

text \<open>
  Model of \<open>internal/config/config.go\<close>: the configuration record, its defaults, the
  overrides from the environment, validation, and the derived lookups (backend list,
  per-instance directories, licence keys). What the process reads from outside is the
  record \<open>host\<close>: \<open>os.Getenv\<close> (\<open>''''\<close> when unset), \<open>os.ReadFile\<close>, \<open>os.Stat\<close>, \<open>runtime.GOOS\<close>,
  \<open>os.TempDir\<close>, whether \<open>net.ResolveTCPAddr\<close> accepts an address, and \<open>yaml.Unmarshal\<close>, which
  merges a document into a configuration.
\<close>

section \<open>The configuration\<close>

datatype RunMode = ModeManaged | ModeAttach | ModeOther string

type_synonym PoolStrategy = string

definition StrategyRoundRobin :: PoolStrategy where "StrategyRoundRobin = ''round_robin''"
definition StrategyLeastConn :: PoolStrategy where "StrategyLeastConn = ''least_conn''"
definition StrategySticky :: PoolStrategy where "StrategySticky = ''sticky''"

record cfg_Listen = ln_Socks5 :: string  ln_HTTP :: string  ln_Admin :: string

record cfg_Auth = au_Username :: string  au_Password :: string

record cfg_Pool =
  pc_Strategy :: PoolStrategy
  pc_MaxFails :: int
  pc_FailTimeout :: duration
  pc_OpenAfter :: duration
  pc_MaxInflightPerBE :: int
  pc_StickyTTL :: duration

record cfg_Limits =
  lm_MaxConnGlobal :: int
  lm_MaxConnPerIP :: int
  lm_MaxRPSPerIP :: int
  lm_DialTimeout :: duration
  lm_IOTimeout :: duration

record cfg_Streaming = st_IdleTimeout :: duration  st_MaxStreamDuration :: duration

record cfg_Control =
  ct_WarpConnTimeout :: duration
  ct_StartStagger :: duration
  ct_ReconnectFails :: int
  ct_HardRestartFails :: int
  ct_LicenseKeys :: "string list"
  ct_Org :: string
  ct_DrainTimeout :: duration
  ct_AuthClientID :: string
  ct_AuthClientSecret :: string
  ct_DataRoot :: string
  ct_RuntimeRoot :: string

record cfg_Uniqueness =
  un_Enabled :: bool
  un_MaxInstances :: int
  un_MaxAttempts :: int
  un_ProbeURL :: string
  un_Strict :: bool
  un_RetryBackoff :: duration
  un_MaxConcurrentReg :: int
  un_Stagger :: duration
  un_RecheckEvery :: duration
  un_RecheckMax :: int

record cfg_Backend = bk_ID :: int  bk_Addr :: string

record config =
  Listen :: cfg_Listen
  Auth :: cfg_Auth
  Mode :: RunMode
  Instances :: int
  BasePort :: int
  ConnTO :: duration
  ProbeEvery :: duration
  ProbeURL :: string
  RequireWarp :: bool
  Pool :: cfg_Pool
  Limits :: cfg_Limits
  Streaming :: cfg_Streaming
  HTTP2_Enabled :: bool
  Control :: cfg_Control
  Uniqueness :: cfg_Uniqueness
  Log_Level :: string
  Log_JSON :: bool
  Backends :: "cfg_Backend list"

record host =
  Getenv :: "string \<Rightarrow> string"
  ReadFile :: "string \<Rightarrow> string option"
  FileExists :: "string \<Rightarrow> bool"
  GOOS :: string
  TempDir :: string
  Resolvable :: "string \<Rightarrow> bool"
  Unmarshal :: "string \<Rightarrow> config \<Rightarrow> config option"

section \<open>Paths\<close>

text \<open>\<open>filepath.Clean\<close> and \<open>filepath.Join\<close> with the separator \<open>/\<close>.\<close>

fun clean_parts :: "bool \<Rightarrow> string list \<Rightarrow> string list \<Rightarrow> string list" where
  "clean_parts rooted stack [] = rev stack"
| "clean_parts rooted stack (p # ps) =
     (if p = '''' \<or> p = ''.'' then clean_parts rooted stack ps
      else if p = ''..'' then
        (case stack of
           q # rest \<Rightarrow>
             if q = ''..'' then clean_parts rooted (p # stack) ps
             else clean_parts rooted rest ps
         | [] \<Rightarrow> if rooted then clean_parts rooted [] ps else clean_parts rooted [p] ps)
      else clean_parts rooted (p # stack) ps)"

fun join_slash :: "string list \<Rightarrow> string" where
  "join_slash [] = ''''"
| "join_slash [p] = p"
| "join_slash (p # ps) = p @ ''/'' @ join_slash ps"

definition path_Clean :: "string \<Rightarrow> string" where
  "path_Clean s =
     (let rooted = HasPrefix s ''/'';
          body = join_slash (clean_parts rooted [] (Split s (CHR ''/'')))
      in if rooted then CHR ''/'' # body else if body = '''' then ''.'' else body)"

definition path_Join :: "string list \<Rightarrow> string" where
  "path_Join ps =
     (case filter (\<lambda>p. p \<noteq> '''') ps of [] \<Rightarrow> '''' | qs \<Rightarrow> path_Clean (join_slash qs))"

section \<open>Defaults\<close>

definition defaultDataRoot :: "host \<Rightarrow> string" where
  "defaultDataRoot h =
     (if GOOS h = ''windows''
      then path_Join [Getenv h ''LOCALAPPDATA'', ''go-multi-warp'', ''data'']
      else ''/var/lib/cloudflare-warp'')"

definition Default :: "host \<Rightarrow> config" where
  "Default h =
     \<lparr>Listen = \<lparr>ln_Socks5 = ''0.0.0.0:11080'', ln_HTTP = ''0.0.0.0:18080'',
                ln_Admin = ''0.0.0.0:9090''\<rparr>,
      Auth = \<lparr>au_Username = '''', au_Password = ''''\<rparr>,
      Mode = ModeAttach,
      Instances = 10,
      BasePort = 40000,
      ConnTO = 5 * Second,
      ProbeEvery = 5 * Second,
      ProbeURL = ''https://cloudflare.com/cdn-cgi/trace'',
      RequireWarp = True,
      Pool = \<lparr>pc_Strategy = StrategyRoundRobin, pc_MaxFails = 3,
              pc_FailTimeout = 15 * Second, pc_OpenAfter = 10 * Second,
              pc_MaxInflightPerBE = 512, pc_StickyTTL = 5 * Minute\<rparr>,
      Limits = \<lparr>lm_MaxConnGlobal = 20000, lm_MaxConnPerIP = 500, lm_MaxRPSPerIP = 0,
                lm_DialTimeout = 8 * Second, lm_IOTimeout = 2 * Minute\<rparr>,
      Streaming = \<lparr>st_IdleTimeout = 5 * Minute, st_MaxStreamDuration = 0\<rparr>,
      HTTP2_Enabled = True,
      Control = \<lparr>ct_WarpConnTimeout = 60 * Second, ct_StartStagger = 3 * Second,
                 ct_ReconnectFails = 2, ct_HardRestartFails = 6, ct_LicenseKeys = [],
                 ct_Org = '''', ct_DrainTimeout = 30 * Second, ct_AuthClientID = '''',
                 ct_AuthClientSecret = '''', ct_DataRoot = defaultDataRoot h,
                 ct_RuntimeRoot = path_Join [TempDir h, ''go-multi-warp'']\<rparr>,
      Uniqueness = \<lparr>un_Enabled = True, un_MaxInstances = 20, un_MaxAttempts = 8,
                    un_ProbeURL = ''https://api.ipify.org'', un_Strict = False,
                    un_RetryBackoff = 8 * Second, un_MaxConcurrentReg = 2,
                    un_Stagger = 3 * Second, un_RecheckEvery = 60 * Second,
                    un_RecheckMax = 3\<rparr>,
      Log_Level = ''info'', Log_JSON = False,
      Backends = []\<rparr>"

section \<open>Overrides from the environment\<close>

fun keep_trimmed :: "string list \<Rightarrow> string list" where
  "keep_trimmed [] = []"
| "keep_trimmed (p # ps) =
     (let q = TrimSpace p in if q \<noteq> '''' then q # keep_trimmed ps else keep_trimmed ps)"

definition splitCSV :: "string \<Rightarrow> string list" where
  "splitCSV s = keep_trimmed (Split s (CHR '',''))"

definition parseBool :: "string \<Rightarrow> bool \<Rightarrow> bool" where
  "parseBool s def =
     (let v = ToLower (TrimSpace s) in
      if v \<in> {''1'', ''true'', ''yes'', ''on''} then True
      else if v \<in> {''0'', ''false'', ''no'', ''off''} then False
      else def)"

text \<open>The backends of \<open>MULTI_WARP_BACKENDS\<close>: the position in the list is the ID.\<close>

fun env_backends :: "int \<Rightarrow> string list \<Rightarrow> cfg_Backend list" where
  "env_backends i [] = []"
| "env_backends i (p # ps) =
     (let part = TrimSpace p in
      if part = '''' then env_backends (i + 1) ps
      else \<lparr>bk_ID = i, bk_Addr = part\<rparr> # env_backends (i + 1) ps)"

text \<open>
  The three shapes of override in \<open>applyEnv\<close>: the raw string, an integer that parses and
  satisfies a condition, and a switch over the value. An unset or empty variable, or a value
  that does not qualify, leaves the configuration as it is.
\<close>

definition env_str :: "host \<Rightarrow> string \<Rightarrow> (string \<Rightarrow> config \<Rightarrow> config) \<Rightarrow> config \<Rightarrow> config" where
  "env_str h name set_to c = (let v = Getenv h name in if v \<noteq> '''' then set_to v c else c)"

definition env_int ::
  "host \<Rightarrow> string \<Rightarrow> (int \<Rightarrow> bool) \<Rightarrow> (int \<Rightarrow> config \<Rightarrow> config) \<Rightarrow> config \<Rightarrow> config" where
  "env_int h name ok set_to =
     env_str h name (\<lambda>v c. case Atoi v of Some n \<Rightarrow> if ok n then set_to n c else c | None \<Rightarrow> c)"

abbreviation ms :: "int \<Rightarrow> duration" where "ms n \<equiv> i64 (n * Millisecond)"

abbreviation upd_Auth where "upd_Auth f c \<equiv> c\<lparr>Auth := f (Auth c)\<rparr>"
abbreviation upd_Listen where "upd_Listen f c \<equiv> c\<lparr>Listen := f (Listen c)\<rparr>"
abbreviation upd_Control where "upd_Control f c \<equiv> c\<lparr>Control := f (Control c)\<rparr>"
abbreviation upd_Uniq where "upd_Uniq f c \<equiv> c\<lparr>Uniqueness := f (Uniqueness c)\<rparr>"

definition set_mode :: "string \<Rightarrow> config \<Rightarrow> config" where
  "set_mode v c =
     (if ToLower v = ''managed'' then c\<lparr>Mode := ModeManaged\<rparr>
      else if ToLower v = ''attach'' then c\<lparr>Mode := ModeAttach\<rparr>
      else c)"

definition set_strategy :: "string \<Rightarrow> config \<Rightarrow> config" where
  "set_strategy v c =
     (let s = ToLower (TrimSpace v) in
      if s = ''round_robin'' \<or> s = ''rr'' then c\<lparr>Pool := (Pool c)\<lparr>pc_Strategy := StrategyRoundRobin\<rparr>\<rparr>
      else if s = ''least_conn'' \<or> s = ''least-conn''
      then c\<lparr>Pool := (Pool c)\<lparr>pc_Strategy := StrategyLeastConn\<rparr>\<rparr>
      else if s = ''sticky'' then c\<lparr>Pool := (Pool c)\<lparr>pc_Strategy := StrategySticky\<rparr>\<rparr>
      else c)"

definition set_backends :: "string \<Rightarrow> config \<Rightarrow> config" where
  "set_backends v c =
     (let l = env_backends 0 (Split v (CHR '','')) in if l \<noteq> [] then c\<lparr>Backends := l\<rparr> else c)"

definition applyEnv :: "host \<Rightarrow> config \<Rightarrow> config" where
  "applyEnv h c0 =
     (let c = env_int h ''WARP_INSTANCES'' (\<lambda>_. True) (\<lambda>n c. c\<lparr>Instances := n\<rparr>) c0;
          c = env_int h ''MULTI_WARP_INSTANCES'' (\<lambda>_. True) (\<lambda>n c. c\<lparr>Instances := n\<rparr>) c;
          c = env_int h ''MULTI_WARP_BASE_PORT'' (\<lambda>_. True) (\<lambda>n c. c\<lparr>BasePort := n\<rparr>) c;
          c = env_str h ''MULTI_WARP_MODE'' set_mode c;
          c = env_str h ''PROXY_USER'' (\<lambda>v. upd_Auth (\<lambda>a. a\<lparr>au_Username := v\<rparr>)) c;
          c = env_str h ''PROXY_PASS'' (\<lambda>v. upd_Auth (\<lambda>a. a\<lparr>au_Password := v\<rparr>)) c;
          c = env_int h ''PROXY_MAX_CONN'' (\<lambda>_. True)
                (\<lambda>n c. c\<lparr>Limits := (Limits c)\<lparr>lm_MaxConnPerIP := n\<rparr>\<rparr>) c;
          c = env_str h ''MULTI_WARP_SOCKS'' (\<lambda>v. upd_Listen (\<lambda>l. l\<lparr>ln_Socks5 := v\<rparr>)) c;
          c = env_str h ''MULTI_WARP_HTTP'' (\<lambda>v. upd_Listen (\<lambda>l. l\<lparr>ln_HTTP := v\<rparr>)) c;
          c = env_str h ''MULTI_WARP_ADMIN'' (\<lambda>v. upd_Listen (\<lambda>l. l\<lparr>ln_Admin := v\<rparr>)) c;
          c = env_str h ''WARP_LICENSE_KEY''
                (\<lambda>v. upd_Control (\<lambda>k. k\<lparr>ct_LicenseKeys := splitCSV v\<rparr>)) c;
          c = env_str h ''WARP_LICENSE_KEYS''
                (\<lambda>v. upd_Control (\<lambda>k. k\<lparr>ct_LicenseKeys := splitCSV v\<rparr>)) c;
          c = env_str h ''WARP_ORG'' (\<lambda>v. upd_Control (\<lambda>k. k\<lparr>ct_Org := v\<rparr>)) c;
          c = env_str h ''WARP_AUTH_CLIENT_ID'' (\<lambda>v. upd_Control (\<lambda>k. k\<lparr>ct_AuthClientID := v\<rparr>)) c;
          c = env_str h ''WARP_AUTH_CLIENT_SECRET''
                (\<lambda>v. upd_Control (\<lambda>k. k\<lparr>ct_AuthClientSecret := v\<rparr>)) c;
          c = env_str h ''MULTI_WARP_STRATEGY'' set_strategy c;
          c = env_int h ''MULTI_WARP_STREAM_IDLE_TIMEOUT_MS'' (\<lambda>n. n > 0)
                (\<lambda>n c. c\<lparr>Streaming := (Streaming c)\<lparr>st_IdleTimeout := ms n\<rparr>\<rparr>) c;
          c = env_int h ''MULTI_WARP_STREAM_MAX_DURATION_MS'' (\<lambda>n. n \<ge> 0)
                (\<lambda>n c. c\<lparr>Streaming := (Streaming c)\<lparr>st_MaxStreamDuration := ms n\<rparr>\<rparr>) c;
          c = env_str h ''MULTI_WARP_HTTP2_ENABLED''
                (\<lambda>v c. c\<lparr>HTTP2_Enabled := parseBool v (HTTP2_Enabled c)\<rparr>) c;
          c = env_int h ''MULTI_WARP_DRAIN_TIMEOUT_MS'' (\<lambda>n. n > 0)
                (\<lambda>n. upd_Control (\<lambda>k. k\<lparr>ct_DrainTimeout := ms n\<rparr>)) c;
          c = env_str h ''MULTI_WARP_UNIQUE_IPV4''
                (\<lambda>v. upd_Uniq (\<lambda>u. u\<lparr>un_Enabled := parseBool v (un_Enabled u)\<rparr>)) c;
          c = env_int h ''MULTI_WARP_UNIQUE_IPV4_MAX'' (\<lambda>n. n > 0)
                (\<lambda>n. upd_Uniq (\<lambda>u. u\<lparr>un_MaxInstances := n\<rparr>)) c;
          c = env_int h ''MULTI_WARP_UNIQUE_ATTEMPTS'' (\<lambda>n. n > 0)
                (\<lambda>n. upd_Uniq (\<lambda>u. u\<lparr>un_MaxAttempts := n\<rparr>)) c;
          c = env_str h ''MULTI_WARP_UNIQUE_PROBE_URL''
                (\<lambda>v. upd_Uniq (\<lambda>u. u\<lparr>un_ProbeURL := v\<rparr>)) c;
          c = env_str h ''MULTI_WARP_UNIQUE_STRICT''
                (\<lambda>v. upd_Uniq (\<lambda>u. u\<lparr>un_Strict := parseBool v (un_Strict u)\<rparr>)) c;
          c = env_int h ''MULTI_WARP_UNIQUE_BACKOFF_MS'' (\<lambda>n. n > 0)
                (\<lambda>n. upd_Uniq (\<lambda>u. u\<lparr>un_RetryBackoff := ms n\<rparr>)) c;
          c = env_int h ''MULTI_WARP_UNIQUE_MAX_CONCURRENT_REG'' (\<lambda>n. n > 0)
                (\<lambda>n. upd_Uniq (\<lambda>u. u\<lparr>un_MaxConcurrentReg := n\<rparr>)) c;
          c = env_int h ''MULTI_WARP_UNIQUE_STAGGER_MS'' (\<lambda>n. n \<ge> 0)
                (\<lambda>n. upd_Uniq (\<lambda>u. u\<lparr>un_Stagger := ms n\<rparr>)) c;
          c = env_int h ''MULTI_WARP_UNIQUE_RECHECK_MS'' (\<lambda>n. n > 0)
                (\<lambda>n. upd_Uniq (\<lambda>u. u\<lparr>un_RecheckEvery := ms n\<rparr>)) c;
          c = env_int h ''MULTI_WARP_UNIQUE_RECHECK_MAX'' (\<lambda>n. n \<ge> 0)
                (\<lambda>n. upd_Uniq (\<lambda>u. u\<lparr>un_RecheckMax := n\<rparr>)) c;
          c = env_str h ''RUST_LOG'' (\<lambda>v c. c\<lparr>Log_Level := v\<rparr>) c;
          c = env_str h ''MULTI_WARP_BACKENDS'' set_backends c
      in c)"

section \<open>Derived values\<close>

definition UniqueEffortActive :: "config \<Rightarrow> bool" where
  "UniqueEffortActive c =
     (if \<not> un_Enabled (Uniqueness c) then False
      else
        (let m = un_MaxInstances (Uniqueness c);
             m = (if m \<le> 0 then 20 else m);
             n = Instances c;
             n = (if n \<le> 0 then int (length (Backends c)) else n)
         in n > 0 \<and> n \<le> m))"

definition BackendAddrs :: "config \<Rightarrow> cfg_Backend list" where
  "BackendAddrs c =
     (if Backends c \<noteq> [] then Backends c
      else map (\<lambda>i. \<lparr>bk_ID = int i, bk_Addr = ''127.0.0.1:'' @ int_dec (BasePort c + int i)\<rparr>)
             [0..<nat (Instances c)])"

definition AuthEnabled :: "config \<Rightarrow> bool" where
  "AuthEnabled c \<longleftrightarrow> au_Username (Auth c) \<noteq> '''' \<and> au_Password (Auth c) \<noteq> ''''"

definition DataDir :: "config \<Rightarrow> int \<Rightarrow> string" where
  "DataDir c i = path_Join [ct_DataRoot (Control c), ''instance-'' @ int_dec i]"

definition RuntimeDir :: "config \<Rightarrow> int \<Rightarrow> string" where
  "RuntimeDir c i = path_Join [ct_RuntimeRoot (Control c), ''warp-'' @ int_dec i]"

definition DBusDir :: "config \<Rightarrow> int \<Rightarrow> string" where
  "DBusDir c i = path_Join [ct_RuntimeRoot (Control c), ''dbus-'' @ int_dec i]"

definition LicenseKeyFor :: "config \<Rightarrow> int \<Rightarrow> string" where
  "LicenseKeyFor c i =
     (let keys = ct_LicenseKeys (Control c) in
      if keys = [] then ''''
      else (let j = (if i < 0 then 0 else i) in keys ! nat (j smod int (length keys))))"

definition ForceReregister :: "host \<Rightarrow> bool" where
  "ForceReregister h =
     (let v = ToLower (TrimSpace (Getenv h ''MULTI_WARP_FORCE_REREGISTER''))
      in v = ''1'' \<or> v = ''true'' \<or> v = ''yes'')"

section \<open>Validation and loading\<close>

datatype config_error =
    Err_Instances
  | Err_BasePort
  | Err_Managed_On_Windows
  | Err_Org_Credentials
  | Err_Org_And_Keys
  | Err_Listen string
  | Err_Read string
  | Err_Parse string

fun check_listen :: "host \<Rightarrow> (string \<times> string) list \<Rightarrow> config_error option" where
  "check_listen h [] = None"
| "check_listen h ((name, addr) # ls) =
     (if \<not> Resolvable h addr then Some (Err_Listen name) else check_listen h ls)"

text \<open>\<open>Validate\<close>: \<open>None\<close> is the nil error.\<close>

definition Validate :: "host \<Rightarrow> config \<Rightarrow> config_error option" where
  "Validate h c =
     (if Instances c \<le> 0 \<and> Backends c = [] then Some Err_Instances
      else if BasePort c = 0 then Some Err_BasePort
      else if Mode c = ModeManaged \<and> GOOS h = ''windows'' then Some Err_Managed_On_Windows
      else if ct_Org (Control c) \<noteq> '''' \<and>
              (ct_AuthClientID (Control c) = '''' \<or> ct_AuthClientSecret (Control c) = '''')
      then Some Err_Org_Credentials
      else if ct_Org (Control c) \<noteq> '''' \<and> ct_LicenseKeys (Control c) \<noteq> []
      then Some Err_Org_And_Keys
      else check_listen h
             [(''listen.socks5'', ln_Socks5 (Listen c)), (''listen.http'', ln_HTTP (Listen c)),
              (''listen.admin'', ln_Admin (Listen c))])"

definition loadFile :: "host \<Rightarrow> string \<Rightarrow> config \<Rightarrow> config_error + config" where
  "loadFile h path c =
     (case ReadFile h path of
        None \<Rightarrow> Inl (Err_Read path)
      | Some raw \<Rightarrow>
          (case Unmarshal h raw c of None \<Rightarrow> Inl (Err_Parse path) | Some c2 \<Rightarrow> Inr c2))"

definition config_path :: "host \<Rightarrow> string \<Rightarrow> string" where
  "config_path h path0 =
     (let path = (if path0 = '''' then Getenv h ''MULTI_WARP_CONFIG'' else path0) in
      if path \<noteq> '''' then path
      else if FileExists h ''config.yaml'' then ''config.yaml''
      else if FileExists h ''/etc/multi-warp/config.yaml'' then ''/etc/multi-warp/config.yaml''
      else '''')"

definition Load :: "host \<Rightarrow> string \<Rightarrow> config_error + config" where
  "Load h path0 =
     (let path = config_path h path0 in
      case (if path \<noteq> '''' then loadFile h path (Default h) else Inr (Default h)) of
        Inl e \<Rightarrow> Inl e
      | Inr c \<Rightarrow>
          (let c2 = applyEnv h c in
           case Validate h c2 of Some e \<Rightarrow> Inl e | None \<Rightarrow> Inr c2))"

section \<open>Lemmas\<close>

lemma check_listen_None: "check_listen h ls = None \<longleftrightarrow> (\<forall>(n, a) \<in> set ls. Resolvable h a)"
  by (induction h ls rule: check_listen.induct) auto

lemma int_dec_clean:
  "CHR '':'' \<notin> set (int_dec n)" "CHR ''['' \<notin> set (int_dec n)" "CHR '']'' \<notin> set (int_dec n)"
  by (simp_all add: int_dec_def)

lemma SplitHostPort_local:
  "SplitHostPort (''127.0.0.1:'' @ int_dec n) = Some (''127.0.0.1'', int_dec n)"
  using SplitHostPort_plain [of "''127.0.0.1''" "int_dec n"] int_dec_clean [of n] by simp

text \<open>An override that does not write a field leaves it alone.\<close>

lemma env_str_keeps [frame]:
  "(\<And>v c. f (g v c) = f c) \<Longrightarrow> f (env_str h n g c) = f c"
  by (simp add: env_str_def Let_def)

lemma env_int_keeps [frame]:
  "(\<And>v c. f (g v c) = f c) \<Longrightarrow> f (env_int h n ok g c) = f c"
  unfolding env_int_def by (rule env_str_keeps) (simp split: option.split)

text \<open>The number an environment variable supplies, if it supplies one.\<close>

definition env_num :: "host \<Rightarrow> string \<Rightarrow> (int \<Rightarrow> bool) \<Rightarrow> int option" where
  "env_num h name ok =
     (if Getenv h name = '''' then None
      else (case Atoi (Getenv h name) of Some n \<Rightarrow> if ok n then Some n else None | None \<Rightarrow> None))"

lemma env_int_num:
  "env_int h name ok g c = (case env_num h name ok of Some n \<Rightarrow> g n c | None \<Rightarrow> c)"
  by (simp add: env_int_def env_str_def env_num_def Let_def split: option.split)

lemma Instances_setters [simp]:
  "Instances (set_mode v c) = Instances c"
  "Instances (set_strategy v c) = Instances c"
  "Instances (set_backends v c) = Instances c"
  by (simp_all add: set_mode_def set_strategy_def set_backends_def Let_def)

lemma Instances_applyEnv:
  "Instances (applyEnv h c) = Instances (env_int h ''MULTI_WARP_INSTANCES'' (\<lambda>_. True)
     (\<lambda>n c. c\<lparr>Instances := n\<rparr>)
     (env_int h ''WARP_INSTANCES'' (\<lambda>_. True) (\<lambda>n c. c\<lparr>Instances := n\<rparr>) c))"
  unfolding applyEnv_def Let_def
  by (simp add: env_str_keeps [where f = Instances] env_int_keeps [where f = Instances]
      cong: if_cong)

lemma MaxAttempts_setters [simp]:
  "Uniqueness (set_mode v c) = Uniqueness c"
  "Uniqueness (set_strategy v c) = Uniqueness c"
  "Uniqueness (set_backends v c) = Uniqueness c"
  by (simp_all add: set_mode_def set_strategy_def set_backends_def Let_def)

lemma env_backends_ids:
  "map bk_ID (env_backends i ps) = filter (\<lambda>j. TrimSpace (ps ! nat (j - i)) \<noteq> '''')
     [i..i + int (length ps) - 1]"
proof (induction ps arbitrary: i)
  case Nil
  then show ?case by simp
next
  case (Cons p ps)
  have shift: "filter (\<lambda>j. TrimSpace ((p # ps) ! nat (j - i)) \<noteq> '''') [i + 1..i + int (length ps)]
      = filter (\<lambda>j. TrimSpace (ps ! nat (j - (i + 1))) \<noteq> '''') [i + 1..i + int (length ps)]"
  proof (rule filter_cong)
    fix j assume "j \<in> set [i + 1..i + int (length ps)]"
    then have "nat (j - i) = Suc (nat (j - (i + 1)))" by auto
    then show "(TrimSpace ((p # ps) ! nat (j - i)) \<noteq> '''') \<longleftrightarrow>
        (TrimSpace (ps ! nat (j - (i + 1))) \<noteq> '''')" by simp
  qed simp
  have "[i..i + int (length (p # ps)) - 1] = i # [i + 1..i + int (length ps)]"
    by (simp add: upto_rec1)
  then show ?case
    using Cons.IH [of "i + 1"] shift by (auto simp: Let_def add.commute add.left_commute)
qed

section \<open>Properties\<close>

text \<open>A configuration that \<open>Load\<close> returns can be run: it yields at least one
  backend, has a base port, is managed only off Windows, has complete organisation
  credentials and never both an organisation and licence keys, and all three listen
  addresses resolve.\<close>

theorem Load_valid:
  assumes "Load h path = Inr c"
  shows "BackendAddrs c \<noteq> [] \<and> BasePort c \<noteq> 0 \<and>
    (Mode c = ModeManaged \<longrightarrow> GOOS h \<noteq> ''windows'') \<and>
    (ct_Org (Control c) \<noteq> '''' \<longrightarrow> ct_AuthClientID (Control c) \<noteq> '''' \<and>
       ct_AuthClientSecret (Control c) \<noteq> '''' \<and> ct_LicenseKeys (Control c) = []) \<and>
    Resolvable h (ln_Socks5 (Listen c)) \<and> Resolvable h (ln_HTTP (Listen c)) \<and>
    Resolvable h (ln_Admin (Listen c))"
proof -
  from assms have "Validate h c = None"
    by (auto simp: Load_def Let_def split: sum.splits option.splits if_splits)
  then show ?thesis
    by (auto simp: Validate_def BackendAddrs_def check_listen_None split: if_splits)
qed

definition sample_host :: host where
  "sample_host = \<lparr>Getenv = (\<lambda>n. if n = ''WARP_INSTANCES'' then ''4''
                      else if n = ''MULTI_WARP_INSTANCES'' then ''6'' else ''''),
     ReadFile = (\<lambda>_. None), FileExists = (\<lambda>_. False), GOOS = ''linux'', TempDir = ''/tmp'',
     Resolvable = (\<lambda>_. True), Unmarshal = (\<lambda>_ _. None)\<rparr>"

lemma sample_host_simps [simp]:
  "Getenv sample_host n = (if n = ''WARP_INSTANCES'' then ''4''
     else if n = ''MULTI_WARP_INSTANCES'' then ''6'' else '''')"
  "Resolvable sample_host a" "GOOS sample_host = ''linux''" "FileExists sample_host f = False"
  by (simp_all add: sample_host_def)

lemma Load_sample:
  "Load sample_host '''' = Inr ((Default sample_host)\<lparr>Instances := 6\<rparr>)"
  by (simp add: Load_def config_path_def Let_def applyEnv_def env_str_def env_int_def
      Atoi_def parse_dec_def is_digit_def less_eq_char_def digit_val_def in_int64_def
      Validate_def Default_def)

lemma Load_valid_witness:
  "BackendAddrs ((Default sample_host)\<lparr>Instances := 6\<rparr>) \<noteq> []"
  using Load_valid [OF Load_sample] by blast

text \<open>The number of instances is taken from \<open>MULTI_WARP_INSTANCES\<close> if that is an
  integer, else from \<open>WARP_INSTANCES\<close> if that is one, else from the file or the defaults; no
  other variable touches it.\<close>

theorem instances_precedence:
  "Instances (applyEnv h c) =
     (case env_num h ''MULTI_WARP_INSTANCES'' (\<lambda>_. True) of
        Some n \<Rightarrow> n
      | None \<Rightarrow> (case env_num h ''WARP_INSTANCES'' (\<lambda>_. True) of Some n \<Rightarrow> n | None \<Rightarrow> Instances c))"
  by (simp add: Instances_applyEnv env_int_num split: option.split)

text \<open>Without an explicit list the backends are \<open>Instances\<close> many, numbered from
  zero, and the \<open>i\<close>-th one is 127.0.0.1 with port \<open>BasePort + i\<close>, an address that splits
  into exactly that host and port; so they are pairwise distinct.\<close>

theorem default_backends:
  assumes "Backends c = []"
  shows "map bk_ID (BackendAddrs c) = map int [0..<nat (Instances c)] \<and>
    (\<forall>i < nat (Instances c). SplitHostPort (bk_Addr (BackendAddrs c ! i)) =
        Some (''127.0.0.1'', int_dec (BasePort c + int i))) \<and>
    distinct (BackendAddrs c)"
proof -
  have "distinct (map bk_ID (BackendAddrs c))"
    using assms by (simp add: BackendAddrs_def distinct_map comp_def)
  then have "distinct (BackendAddrs c)" by (simp add: distinct_map)
  then show ?thesis
    using assms SplitHostPort_local by (simp add: BackendAddrs_def comp_def)
qed

lemma default_backends_witness:
  "SplitHostPort (bk_Addr (BackendAddrs (Default sample_host) ! 3)) =
     Some (''127.0.0.1'', int_dec 40003)"
proof -
  have "Backends (Default sample_host) = []" "3 < nat (Instances (Default sample_host))"
      "BasePort (Default sample_host) = 40000"
    by (simp_all add: Default_def)
  then show ?thesis using default_backends [of "Default sample_host"] by force
qed

text \<open>With \<open>N\<close> licence keys, instance \<open>i\<close> is bound to key \<open>i mod N\<close>; distinct
  keys are shared by two instances exactly when their numbers agree modulo \<open>N\<close>, so up to \<open>N\<close>
  instances the binding is one to one.\<close>

theorem license_binding:
  assumes "ct_LicenseKeys (Control c) \<noteq> []" and "distinct (ct_LicenseKeys (Control c))"
    and "0 \<le> i" and "0 \<le> j"
  shows "let N = int (length (ct_LicenseKeys (Control c))) in
    LicenseKeyFor c i = ct_LicenseKeys (Control c) ! nat (i mod N) \<and>
    (LicenseKeyFor c i = LicenseKeyFor c j \<longleftrightarrow> i mod N = j mod N)"
proof -
  let ?ks = "ct_LicenseKeys (Control c)"
  define N where "N = int (length ?ks)"
  have N: "0 < N" using assms(1) by (simp add: N_def)
  then have key: "LicenseKeyFor c k = ?ks ! nat (k mod N)" if "0 \<le> k" for k
    using assms(1) that by (simp add: LicenseKeyFor_def Let_def N_def)
  have bound: "nat (k mod N) < length ?ks" for k
    using N by (simp add: N_def nat_less_iff)
  show ?thesis
    using assms(2-4) N bound unfolding N_def [symmetric] Let_def
    by (auto simp: key nth_eq_iff_index_eq dest: eq_nat_nat_iff [THEN iffD1, rotated 2])
qed

lemma license_binding_witness:
  "let c = (Default sample_host)\<lparr>Control := (Control (Default sample_host))
             \<lparr>ct_LicenseKeys := [''k1'', ''k2'', ''k3'']\<rparr>\<rparr>
   in LicenseKeyFor c 4 = ''k2'' \<and> LicenseKeyFor c 4 \<noteq> LicenseKeyFor c 2"
proof -
  let ?c = "(Default sample_host)\<lparr>Control := (Control (Default sample_host))
             \<lparr>ct_LicenseKeys := [''k1'', ''k2'', ''k3'']\<rparr>\<rparr>"
  have keys: "ct_LicenseKeys (Control ?c) = [''k1'', ''k2'', ''k3'']" by simp
  show ?thesis
    using license_binding [of ?c 4 2] unfolding keys by (auto simp: Let_def)
qed

end
