(* ===== verification/Pool.thy ===== *)
theory Pool
  imports Backend Config "HOL-Library.Multiset"
begin

text \<open>
  Model of the \<open>Pool\<close> half of \<open>internal/pool/pool.go\<close>: the list of backends shared by the
  data plane, the health prober and the control plane, the index by ID, and backend
  selection by strategy. A \<open>*Backend\<close> is its position in the list: two list entries with
  one ID are two backends, of which the index knows the later one, as in the code. A
  \<open>*Lease\<close> is the pointer it holds, so it is a position too.

  \<open>Select\<close> is taken at one instant and without interference; the theory \<open>Interleaving\<close>
  treats the slots under contention.
\<close>

section \<open>State\<close>

datatype pool_error =
  ErrNoHealthyBackend | ErrGlobalConnLimit | ErrPerIPConnLimit | ErrPerIPRPSLimit

record Metrics =
  Selects :: u64
  SelectFail :: u64
  Success :: u64
  Failure :: u64

record stickyEntry =
  se_id :: int
  se_updated :: instant

record pool =
  backends :: "backend list"
  index :: "int \<rightharpoonup> nat"
  strategy :: PoolStrategy
  stickyTTL :: duration
  sticky :: "u64 \<rightharpoonup> stickyEntry"
  rr :: u64
  metrics :: Metrics

definition put :: "nat \<Rightarrow> backend \<Rightarrow> pool \<Rightarrow> pool" where
  "put i b p = p\<lparr>backends := (backends p)[i := b]\<rparr>"

section \<open>Construction\<close>

definition add_backend :: "instant \<Rightarrow> cfg_Pool \<Rightarrow> cfg_Backend \<Rightarrow> pool \<Rightarrow> pool" where
  "add_backend now pc bk p =
     (case SplitHostPort (bk_Addr bk) of
        None \<Rightarrow> p
      | Some _ \<Rightarrow>
          p\<lparr>backends := backends p @ [NewBackend now (bk_ID bk) (bk_Addr bk) (pc_MaxFails pc)
                (pc_FailTimeout pc) (pc_OpenAfter pc) (i32 (pc_MaxInflightPerBE pc))],
            index := (index p)(bk_ID bk \<mapsto> length (backends p))\<rparr>)"

definition New :: "instant \<Rightarrow> config \<Rightarrow> pool" where
  "New now c = fold (add_backend now (config.Pool c)) (BackendAddrs c)
     \<lparr>backends = [], index = Map.empty, strategy = pc_Strategy (config.Pool c),
      stickyTTL = pc_StickyTTL (config.Pool c), sticky = Map.empty, rr = 0,
      metrics = \<lparr>Selects = 0, SelectFail = 0, Success = 0, Failure = 0\<rparr>\<rparr>"

section \<open>Lookups and marks by ID\<close>

definition Get :: "int \<Rightarrow> pool \<Rightarrow> nat option" where
  "Get i p = index p i"

text \<open>Run an operation on the backend with this ID, if there is one.\<close>

definition at_id :: "int \<Rightarrow> (backend \<Rightarrow> backend) \<Rightarrow> pool \<Rightarrow> pool" where
  "at_id i f p = (case Get i p of None \<Rightarrow> p | Some k \<Rightarrow> put k (f (backends p ! k)) p)"

definition pool_MarkProbeOK :: "instant \<Rightarrow> int \<Rightarrow> ProbeInfo \<Rightarrow> pool \<Rightarrow> pool" where
  "pool_MarkProbeOK now i info p =
     (case Get i p of
        None \<Rightarrow> p
      | Some k \<Rightarrow> (put k (MarkProbeOK now info (backends p ! k)) p)
                    \<lparr>metrics := (metrics p)\<lparr>Success := Success (metrics p) + 1\<rparr>\<rparr>)"

definition pool_MarkProbeFail :: "instant \<Rightarrow> int \<Rightarrow> string \<Rightarrow> pool \<Rightarrow> pool" where
  "pool_MarkProbeFail now i reason p =
     (case Get i p of
        None \<Rightarrow> p
      | Some k \<Rightarrow> (put k (MarkProbeFail now reason (backends p ! k)) p)
                    \<lparr>metrics := (metrics p)\<lparr>Failure := Failure (metrics p) + 1\<rparr>\<rparr>)"

definition pool_ForceState :: "instant \<Rightarrow> int \<Rightarrow> State \<Rightarrow> pool \<Rightarrow> pool" where
  "pool_ForceState now i st = at_id i (ForceState now st)"

definition has_id :: "int \<Rightarrow> pool \<Rightarrow> bool" where
  "has_id i p \<longleftrightarrow> Get i p \<noteq> None"

definition Admit :: "instant \<Rightarrow> int \<Rightarrow> string \<Rightarrow> pool \<Rightarrow> bool \<times> pool" where
  "Admit now i egress p = (has_id i p, at_id i (SetAdmit now AdmitInPool egress) p)"

definition Park :: "instant \<Rightarrow> int \<Rightarrow> string \<Rightarrow> pool \<Rightarrow> bool \<times> pool" where
  "Park now i egress p = (has_id i p, at_id i (SetAdmit now AdmitParked egress) p)"

definition SetWarming :: "instant \<Rightarrow> int \<Rightarrow> pool \<Rightarrow> bool \<times> pool" where
  "SetWarming now i p = (has_id i p, at_id i (SetAdmit now AdmitWarming '''') p)"

section \<open>Leases\<close>

definition Lease_MarkSuccess :: "instant \<Rightarrow> nat \<Rightarrow> pool \<Rightarrow> pool" where
  "Lease_MarkSuccess now k p = put k (MarkSuccess now (backends p ! k)) p"

definition Lease_MarkFailure :: "instant \<Rightarrow> nat \<Rightarrow> string \<Rightarrow> pool \<Rightarrow> pool" where
  "Lease_MarkFailure now k reason p = put k (MarkFailure now reason (backends p ! k)) p"

definition Lease_Release :: "nat \<Rightarrow> pool \<Rightarrow> pool" where
  "Lease_Release k p = put k (Release (backends p ! k)) p"

section \<open>Selection\<close>

text \<open>\<open>Healthy\<close> polls every backend in order and keeps the selectable ones.\<close>

definition Healthy :: "instant \<Rightarrow> pool \<Rightarrow> nat list \<times> pool" where
  "Healthy now p =
     (filter (\<lambda>k. fst (IsSelectable now (backends p ! k))) [0..<length (backends p)],
      p\<lparr>backends := map (\<lambda>b. snd (IsSelectable now b)) (backends p)\<rparr>)"

text \<open>A \<open>for\<close> loop that returns the first backend on which the acquisition succeeds.\<close>

fun try_each :: "('b \<Rightarrow> bool \<times> 'b) \<Rightarrow> nat list \<Rightarrow> 'b list \<Rightarrow> nat option \<times> 'b list" where
  "try_each acq [] bs = (None, bs)"
| "try_each acq (k # ks) bs =
     (let (ok, b) = acq (bs ! k); bs1 = bs[k := b] in
      if ok then (Some k, bs1) else try_each acq ks bs1)"

text \<open>
  The loop of \<open>pickRR\<close> over \<open>i = 0, 1, \<dots>\<close>: the index \<open>(start + i) % len(healthy)\<close> is a
  truncating remainder, and an index outside the slice panics.
\<close>

fun rr_loop ::
  "instant \<Rightarrow> nat list \<Rightarrow> int \<Rightarrow> int list \<Rightarrow> backend list \<Rightarrow> panic + (nat option \<times> backend list)"
where
  "rr_loop now healthy start [] bs = Inr (None, bs)"
| "rr_loop now healthy start (i # is) bs =
     (case go_index healthy ((start + i) smod int (length healthy)) of
        Inl e \<Rightarrow> Inl e
      | Inr k \<Rightarrow>
          (let (ok, b) = TryAcquire now (bs ! k); bs1 = bs[k := b] in
           if ok then Inr (Some k, bs1) else rr_loop now healthy start is bs1))"

definition pickRR :: "instant \<Rightarrow> pool \<Rightarrow> panic + (nat option \<times> pool)" where
  "pickRR now p0 =
     (let (healthy, p) = Healthy now p0 in
      if healthy = [] then Inr (None, p)
      else
        (let start = sint (rr p) smod int (length healthy);
             p1 = p\<lparr>rr := rr p + 1\<rparr> in
         case rr_loop now healthy start (map int [0..<length healthy]) (backends p1) of
           Inl e \<Rightarrow> Inl e
         | Inr (r, bs) \<Rightarrow> Inr (r, p1\<lparr>backends := bs\<rparr>)))"

fun lc_scan :: "backend list \<Rightarrow> nat list \<Rightarrow> nat option \<Rightarrow> int \<Rightarrow> nat option" where
  "lc_scan bs [] best bestLoad = best"
| "lc_scan bs (k # ks) best bestLoad =
     (let load = inflight (bs ! k) in
      if (load < bestLoad \<or> bestLoad < 0) \<and> HasCapacity (bs ! k)
      then lc_scan bs ks (Some k) load
      else lc_scan bs ks best bestLoad)"

definition pickLeastConn :: "instant \<Rightarrow> pool \<Rightarrow> nat option \<times> pool" where
  "pickLeastConn now p0 =
     (let (healthy, p) = Healthy now p0;
          (got, p1) =
            (case lc_scan (backends p) healthy None (- 1) of
               None \<Rightarrow> (None, p)
             | Some k \<Rightarrow> (let (ok, b) = TryAcquire now (backends p ! k)
                         in (if ok then Some k else None, put k b p)))
      in case got of
           Some k \<Rightarrow> (Some k, p1)
         | None \<Rightarrow>
             (let (healthy2, p2) = Healthy now p1;
                  (r, bs) = try_each (TryAcquire now) healthy2 (backends p2)
              in (r, p2\<lparr>backends := bs\<rparr>)))"

definition pickSticky :: "instant \<Rightarrow> u64 \<Rightarrow> pool \<Rightarrow> panic + (nat option \<times> pool)" where
  "pickSticky now key p0 =
     (let (healthy, p) = Healthy now p0 in
      if healthy = [] then Inr (None, p)
      else
        (case go_index healthy (sint key smod int (length healthy)) of
           Inl e \<Rightarrow> Inl e
         | Inr k \<Rightarrow> (let (ok, b) = TryAcquire now (backends p ! k)
                    in Inr (if ok then Some k else None, put k b p))))"

text \<open>The fast path of the sticky strategy: a live entry whose backend can be acquired.\<close>

definition sticky_hit :: "instant \<Rightarrow> u64 \<Rightarrow> pool \<Rightarrow> nat option \<times> pool" where
  "sticky_hit now key p =
     (case sticky p key of
        None \<Rightarrow> (None, p)
      | Some e \<Rightarrow>
          if now - se_updated e < stickyTTL p then
            (case Get (se_id e) p of
               None \<Rightarrow> (None, p)
             | Some k \<Rightarrow> (let (ok, b) = TryAcquire now (backends p ! k)
                         in (if ok then Some k else None, put k b p)))
          else (None, p))"

definition pick :: "instant \<Rightarrow> u64 \<Rightarrow> pool \<Rightarrow> panic + (nat option \<times> pool)" where
  "pick now key p =
     (if strategy p = StrategyRoundRobin then pickRR now p
      else if strategy p = StrategyLeastConn then Inr (pickLeastConn now p)
      else if strategy p = StrategySticky then
        (case pickSticky now key p of
           Inl e \<Rightarrow> Inl e
         | Inr (Some k, p1) \<Rightarrow> Inr (Some k, p1)
         | Inr (None, p1) \<Rightarrow> Inr (pickLeastConn now p1))
      else Inr (pickLeastConn now p))"

definition Select :: "instant \<Rightarrow> u64 \<Rightarrow> pool \<Rightarrow> panic + ((pool_error + nat) \<times> pool)" where
  "Select now key p0 =
     (let p = p0\<lparr>metrics := (metrics p0)\<lparr>Selects := Selects (metrics p0) + 1\<rparr>\<rparr>;
          (hit, p1) = (if strategy p = StrategySticky then sticky_hit now key p else (None, p))
      in case hit of
           Some k \<Rightarrow> Inr (Inr k, p1)
         | None \<Rightarrow>
             (case pick now key p1 of
                Inl e \<Rightarrow> Inl e
              | Inr (None, p2) \<Rightarrow>
                  Inr (Inl ErrNoHealthyBackend,
                       p2\<lparr>metrics := (metrics p2)\<lparr>SelectFail := SelectFail (metrics p2) + 1\<rparr>\<rparr>)
              | Inr (Some k, p2) \<Rightarrow>
                  Inr (Inr k,
                       if strategy p2 = StrategySticky
                       then p2\<lparr>sticky := (sticky p2)(key \<mapsto>
                              \<lparr>se_id = ID (backends p2 ! k), se_updated = now\<rparr>)\<rparr>
                       else p2)))"

section \<open>Statistics\<close>

definition HealthyCount :: "instant \<Rightarrow> pool \<Rightarrow> nat \<times> pool" where
  "HealthyCount now p =
     (length (filter (\<lambda>b. fst (IsSelectable now b)) (backends p)),
      p\<lparr>backends := map (\<lambda>b. snd (IsSelectable now b)) (backends p)\<rparr>)"

definition Snapshots :: "instant \<Rightarrow> pool \<Rightarrow> Snapshot list" where
  "Snapshots now p = map (Snapshot_of now) (backends p)"

definition ip_owner :: "backend \<Rightarrow> (string \<rightharpoonup> int) \<Rightarrow> (string \<rightharpoonup> int)" where
  "ip_owner b out =
     (if admit b \<noteq> AdmitInPool then out
      else if egressIPv4 b = '''' then out
      else out(egressIPv4 b \<mapsto> ID b))"

definition InPoolIPv4Set :: "pool \<Rightarrow> (string \<rightharpoonup> int)" where
  "InPoolIPv4Set p = fold ip_owner (backends p) Map.empty"

text \<open>\<open>AdmitStats\<close>: members in the pool, warming, parked, and the distinct egress addresses.\<close>

record admit_stats =
  as_inPool :: nat
  as_warming :: nat
  as_parked :: nat
  as_ips :: "string list"

definition count_admit :: "backend \<Rightarrow> admit_stats \<Rightarrow> admit_stats" where
  "count_admit b s =
     (case admit b of
        AdmitInPool \<Rightarrow>
          (let s1 = s\<lparr>as_inPool := as_inPool s + 1\<rparr> in
           if egressIPv4 b \<noteq> '''' then s1\<lparr>as_ips := List.insert (egressIPv4 b) (as_ips s1)\<rparr>
           else s1)
      | AdmitParked \<Rightarrow> s\<lparr>as_parked := as_parked s + 1\<rparr>
      | AdmitWarming \<Rightarrow> s\<lparr>as_warming := as_warming s + 1\<rparr>)"

definition AdmitStats :: "pool \<Rightarrow> nat \<times> nat \<times> nat \<times> nat" where
  "AdmitStats p =
     (let s = fold count_admit (backends p)
            \<lparr>as_inPool = 0, as_warming = 0, as_parked = 0, as_ips = []\<rparr>
      in (as_inPool s, as_warming s, as_parked s, length (as_ips s)))"

section \<open>The slots interface\<close>

text \<open>
  What selection relies on of a backend: acquisition either succeeds, exactly on the
  available ones, and takes one slot, or fails and changes nothing. \<open>ok\<close> says that a slot is
  available and \<open>grab\<close> takes it.
\<close>

locale slots =
  fixes acq :: "'b \<Rightarrow> bool \<times> 'b"
    and ok :: "'b \<Rightarrow> bool"
    and grab :: "'b \<Rightarrow> 'b"
    and ready :: "'b \<Rightarrow> bool"
  assumes acq_eq: "ready b \<Longrightarrow> acq b = (if ok b then (True, grab b) else (False, b))"
begin

text \<open>A loop over candidates takes a slot of the first available one and touches no other.\<close>

lemma try_each_find:
  assumes "\<And>k. k \<in> set ks \<Longrightarrow> ready (bs ! k)"
  shows "try_each acq ks bs =
    (case find (\<lambda>k. ok (bs ! k)) ks of
       None \<Rightarrow> (None, bs)
     | Some k \<Rightarrow> (Some k, bs[k := grab (bs ! k)]))"
  using assms
proof (induction ks)
  case Nil
  then show ?case by simp
next
  case (Cons k ks)
  then have "acq (bs ! k) = (if ok (bs ! k) then (True, grab (bs ! k)) else (False, bs ! k))"
    by (intro acq_eq) simp
  with Cons show ?case by simp
qed

lemma try_each_None:
  assumes "\<And>k. k \<in> set ks \<Longrightarrow> ready (bs ! k)"
  shows "fst (try_each acq ks bs) = None \<longleftrightarrow> (\<forall>k \<in> set ks. \<not> ok (bs ! k))"
proof -
  have "fst (try_each acq ks bs) = find (\<lambda>k. ok (bs ! k)) ks"
    using assms by (simp add: try_each_find split: option.split)
  then show ?thesis by (auto simp: find_None_iff)
qed

end

abbreviation poll :: "instant \<Rightarrow> backend \<Rightarrow> backend" where
  "poll now b \<equiv> snd (IsSelectable now b)"

definition avail :: "instant \<Rightarrow> backend \<Rightarrow> bool" where
  "avail now b \<longleftrightarrow> selectable now b \<and> HasCapacity b"

definition take_slot :: "backend \<Rightarrow> backend" where
  "take_slot b = b\<lparr>inflight := inflight b + 1\<rparr>"

definition settled :: "instant \<Rightarrow> backend \<Rightarrow> bool" where
  "settled now b \<longleftrightarrow> be_inv b \<and> poll now b = b"

lemma HasCapacity_poll [simp]: "HasCapacity (poll now b) = HasCapacity b"
  by (simp add: HasCapacity_def)

lemma avail_poll [simp]: "avail now (poll now b) = avail now b"
  by (simp add: avail_def)

lemma settled_poll: "be_inv b \<Longrightarrow> settled now (poll now b)"
  by (simp add: settled_def be_inv_IsSelectable)

lemma TryAcquire_settled:
  "settled now b \<Longrightarrow> TryAcquire now b = (if avail now b then (True, take_slot b) else (False, b))"
  by (simp add: settled_def TryAcquire_eq avail_def take_slot_def)

interpretation backend_slots: slots "TryAcquire now" "avail now" take_slot "settled now" for now
  by unfold_locales (rule TryAcquire_settled)

lemma be_inv_take_slot: "be_inv b \<Longrightarrow> HasCapacity b \<Longrightarrow> be_inv (take_slot b)"
  by (auto simp: be_inv_def take_slot_def HasCapacity_def)

section \<open>Well-formed pools\<close>

definition pool_inv :: "pool \<Rightarrow> bool" where
  "pool_inv p \<longleftrightarrow> (\<forall>b \<in> set (backends p). be_inv b) \<and>
     (\<forall>i k. index p i = Some k \<longrightarrow> k < length (backends p) \<and> ID (backends p ! k) = i)"

lemma pool_inv_nth: "pool_inv p \<Longrightarrow> k < length (backends p) \<Longrightarrow> be_inv (backends p ! k)"
  by (simp add: pool_inv_def)

lemma pool_inv_Get: "pool_inv p \<Longrightarrow> Get i p = Some k \<Longrightarrow> k < length (backends p) \<and> ID (backends p ! k) = i"
  by (simp add: pool_inv_def Get_def)

lemma pool_inv_add_backend: "pool_inv p \<Longrightarrow> pool_inv (add_backend now pc bk p)"
  using i32_range(2)
  by (auto simp: pool_inv_def add_backend_def nth_append NewBackend_def be_inv_def
      split: option.split if_splits) force+

lemma pool_inv_fold_add: "pool_inv p \<Longrightarrow> pool_inv (fold (add_backend now pc) bks p)"
  by (induction bks arbitrary: p) (auto intro: pool_inv_add_backend)

lemma pool_inv_New [inv_intros]: "pool_inv (New now c)"
  unfolding New_def by (rule pool_inv_fold_add) (simp add: pool_inv_def)

text \<open>Replacing one backend by a well-formed one with the same ID.\<close>

lemma pool_inv_put [inv_intros]:
  assumes "pool_inv p" and "be_inv b" and "k < length (backends p) \<Longrightarrow> ID b = ID (backends p ! k)"
  shows "pool_inv (put k b p)"
proof -
  have "be_inv x" if "x \<in> set ((backends p)[k := b])" for x
    using that assms(1,2) set_update_subset_insert [of "backends p" k b]
    by (auto simp: pool_inv_def)
  moreover have "ID ((backends p)[k := b] ! j) = ID (backends p ! j)"
    if "j < length (backends p)" for j
    using that assms(3) by (cases "j = k") simp_all
  ultimately show ?thesis
    using assms(1) by (simp add: pool_inv_def put_def)
qed

lemma put_frame [simp]:
  "length (backends (put k b p)) = length (backends p)" "index (put k b p) = index p"
  "strategy (put k b p) = strategy p" "stickyTTL (put k b p) = stickyTTL p"
  "sticky (put k b p) = sticky p" "rr (put k b p) = rr p" "metrics (put k b p) = metrics p"
  "backends (put k b p) = (backends p)[k := b]"
  by (simp_all add: put_def)

text \<open>The pool after every backend has been polled.\<close>

definition polled :: "instant \<Rightarrow> pool \<Rightarrow> pool" where
  "polled now p = p\<lparr>backends := map (poll now) (backends p)\<rparr>"

lemma polled_frame [simp]:
  "backends (polled now p) = map (poll now) (backends p)"
  "index (polled now p) = index p" "strategy (polled now p) = strategy p"
  "stickyTTL (polled now p) = stickyTTL p" "sticky (polled now p) = sticky p"
  "rr (polled now p) = rr p" "metrics (polled now p) = metrics p"
  by (simp_all add: polled_def)

lemma polled_polled [simp]: "polled now (polled now p) = polled now p"
  by (simp add: polled_def comp_def)

definition healthy_ix :: "instant \<Rightarrow> pool \<Rightarrow> nat list" where
  "healthy_ix now p = filter (\<lambda>k. selectable now (backends p ! k)) [0..<length (backends p)]"

lemma healthy_ix_polled [simp]: "healthy_ix now (polled now p) = healthy_ix now p"
  unfolding healthy_ix_def by (rule filter_cong) auto

lemma Healthy_eq: "Healthy now p = (healthy_ix now p, polled now p)"
  by (simp add: Healthy_def healthy_ix_def selectable_def polled_def)

lemma set_healthy_ix:
  "set (healthy_ix now p) = {k. k < length (backends p) \<and> selectable now (backends p ! k)}"
  by (auto simp: healthy_ix_def)

lemma healthy_ix_nth:
  "i < length (healthy_ix now p) \<Longrightarrow>
     healthy_ix now p ! i < length (backends p) \<and> selectable now (backends p ! (healthy_ix now p ! i))"
  using nth_mem [of i "healthy_ix now p"] by (simp add: set_healthy_ix)

lemma pool_inv_polled [inv_intros]: "pool_inv p \<Longrightarrow> pool_inv (polled now p)"
  by (auto simp: pool_inv_def intro: be_inv_IsSelectable)

lemma settled_nth_polled:
  "pool_inv p \<Longrightarrow> k < length (backends p) \<Longrightarrow> settled now (backends (polled now p) ! k)"
  by (simp add: settled_poll pool_inv_nth)

section \<open>What the pick functions do\<close>

text \<open>
  The outcome of a complete pick: every backend has been polled, and either one available
  backend has given a slot, or none was available.
\<close>

definition picked :: "instant \<Rightarrow> pool \<Rightarrow> nat \<Rightarrow> pool \<Rightarrow> bool" where
  "picked now p k p' \<longleftrightarrow> k < length (backends p) \<and> avail now (backends p ! k) \<and>
     backends p' = (map (poll now) (backends p))[k := take_slot (poll now (backends p ! k))]"

definition exhausted :: "instant \<Rightarrow> pool \<Rightarrow> pool \<Rightarrow> bool" where
  "exhausted now p p' \<longleftrightarrow> (\<forall>b \<in> set (backends p). \<not> avail now b) \<and>
     backends p' = map (poll now) (backends p)"

definition outcome :: "instant \<Rightarrow> pool \<Rightarrow> nat option \<Rightarrow> pool \<Rightarrow> bool" where
  "outcome now p r p' \<longleftrightarrow> (case r of None \<Rightarrow> exhausted now p p' | Some k \<Rightarrow> picked now p k p')"

definition same_books :: "pool \<Rightarrow> pool \<Rightarrow> bool" where
  "same_books p p' \<longleftrightarrow> index p' = index p \<and> strategy p' = strategy p \<and>
     stickyTTL p' = stickyTTL p \<and> sticky p' = sticky p \<and> metrics p' = metrics p"

lemma outcome_polled [simp]: "outcome now (polled now p) r p' = outcome now p r p'"
  by (auto simp: outcome_def picked_def exhausted_def comp_def split: option.split)

lemma same_books_polled [simp]: "same_books (polled now p) p' = same_books p p'"
  by (simp add: same_books_def)

text \<open>A scan over all healthy backends, in whatever order, is a complete pick.\<close>

lemma try_each_outcome:
  assumes "pool_inv p" and "set ks = set (healthy_ix now p)"
    and "try_each (TryAcquire now) ks (backends (polled now p)) = (r, bs)"
    and "backends p' = bs"
  shows "outcome now p r p' \<and> r = find (\<lambda>k. avail now (backends p ! k)) ks"
proof -
  have ks: "k < length (backends p)" if "k \<in> set ks" for k
    using that assms(2) by (simp add: set_healthy_ix)
  have "find (\<lambda>k. avail now (backends (polled now p) ! k)) ks
      = find (\<lambda>k. avail now (backends p ! k)) ks"
    using ks by (intro find_cong) auto
  then have eq: "try_each (TryAcquire now) ks (backends (polled now p)) =
      (case find (\<lambda>k. avail now (backends p ! k)) ks of
         None \<Rightarrow> (None, backends (polled now p))
       | Some k \<Rightarrow> (Some k, (backends (polled now p))[k := take_slot (backends (polled now p) ! k)]))"
    using backend_slots.try_each_find [of ks now "backends (polled now p)"] assms(1) ks
    by (simp add: settled_nth_polled del: polled_frame)
  show ?thesis
  proof (cases "find (\<lambda>k. avail now (backends p ! k)) ks")
    case None
    then have "\<not> avail now b" if "b \<in> set (backends p)" for b
      using that assms(2)
      by (auto simp: find_None_iff set_healthy_ix in_set_conv_nth avail_def)
    with None eq assms(3,4) show ?thesis by (simp add: outcome_def exhausted_def)
  next
    case (Some k)
    then have k: "k \<in> set ks" "avail now (backends p ! k)"
      by (auto simp: find_Some_iff)
    have "r = Some k" "bs = (map (poll now) (backends p))[k := take_slot (poll now (backends p ! k))]"
      using eq assms(3) ks [OF k(1)] unfolding Some by simp_all
    with Some assms(4) k ks show ?thesis by (simp add: outcome_def picked_def)
  qed
qed

text \<open>While the start index is not negative, the round-robin loop scans the rotation.\<close>

definition rotation :: "nat \<Rightarrow> nat list \<Rightarrow> nat list" where
  "rotation s h = map (\<lambda>i. h ! ((s + i) mod length h)) [0..<length h]"

lemma rr_loop_try_each:
  assumes "0 \<le> start" and "h \<noteq> []"
  shows "rr_loop now h start (map int is) bs =
    Inr (try_each (TryAcquire now) (map (\<lambda>i. h ! ((nat start + i) mod length h)) is) bs)"
proof (induction "is" arbitrary: bs)
  case Nil
  then show ?case by simp
next
  case (Cons i "is")
  have "(start + int i) smod int (length h) = int ((nat start + i) mod length h)"
    using assms by (simp add: zmod_int)
  then have "go_index h ((start + int i) smod int (length h)) = Inr (h ! ((nat start + i) mod length h))"
    using assms(2) by (simp only: go_index_of_nat) simp
  with Cons show ?case by (simp add: Let_def split: prod.split)
qed

lemma rotation_rotate: "rotation s h = rotate s h"
  by (rule nth_equalityI) (simp_all add: rotation_def nth_rotate)

lemma set_rotation: "set (rotation s h) = set h"
  by (simp add: rotation_rotate)

lemma pickRR_nonneg:
  assumes "pool_inv p" and "0 \<le> sint (rr p)"
  shows "\<exists>r p'. pickRR now p = Inr (r, p') \<and> outcome now p r p' \<and> same_books p p' \<and>
    r = (if healthy_ix now p = [] then None
         else find (\<lambda>k. avail now (backends p ! k))
                (rotation (nat (sint (rr p)) mod length (healthy_ix now p)) (healthy_ix now p))) \<and>
    rr p' = (if healthy_ix now p = [] then rr p else rr p + 1)"
proof (cases "healthy_ix now p = []")
  case True
  then have "\<not> avail now b" if "b \<in> set (backends p)" for b
    using that by (auto simp: healthy_ix_def filter_empty_conv in_set_conv_nth avail_def)
  with True show ?thesis
    by (simp add: pickRR_def Healthy_eq outcome_def exhausted_def same_books_def)
next
  case False
  let ?h = "healthy_ix now p"
  let ?start = "sint (rr p) smod int (length ?h)"
  have start: "0 \<le> ?start" "nat ?start = nat (sint (rr p)) mod length ?h"
    using False assms(2) by (simp_all add: nat_mod_distrib)
  obtain r bs where t: "try_each (TryAcquire now) (rotation (nat ?start) ?h)
      (backends (polled now p)) = (r, bs)"
    by (cases "try_each (TryAcquire now) (rotation (nat ?start) ?h) (backends (polled now p))")
  let ?p' = "(polled now p)\<lparr>rr := rr p + 1, backends := bs\<rparr>"
  have run: "pickRR now p = Inr (r, ?p')"
    using False t rr_loop_try_each [OF start(1) False, of now "[0..<length ?h]"
      "backends (polled now p)"]
    by (simp add: pickRR_def Healthy_eq Let_def rotation_def)
  have "outcome now p r ?p' \<and>
      r = find (\<lambda>k. avail now (backends p ! k)) (rotation (nat ?start) ?h)"
    by (rule try_each_outcome [OF assms(1) set_rotation t]) simp
  then have out: "outcome now p r ?p'"
      and r: "r = find (\<lambda>k. avail now (backends p ! k)) (rotation (nat ?start) ?h)"
    by blast+
  show ?thesis
    by (rule exI [of _ r], rule exI [of _ ?p'])
       (use run out r False start(2) in \<open>simp add: same_books_def\<close>)
qed

text \<open>The least-connections scan finds a candidate with capacity and the least load.\<close>

lemma lc_scan_spec:
  assumes "\<And>k. k \<in> set ks \<Longrightarrow> 0 \<le> inflight (bs ! k)"
    and "case best of None \<Rightarrow> load = - 1 | Some b \<Rightarrow> load = inflight (bs ! b) \<and> 0 \<le> load"
  shows "case lc_scan bs ks best load of
      None \<Rightarrow> best = None \<and> (\<forall>k \<in> set ks. \<not> HasCapacity (bs ! k))
    | Some k \<Rightarrow> (best = Some k \<or> k \<in> set ks \<and> HasCapacity (bs ! k)) \<and>
        (\<forall>j \<in> set ks. HasCapacity (bs ! j) \<longrightarrow> inflight (bs ! k) \<le> inflight (bs ! j)) \<and>
        (best \<noteq> None \<longrightarrow> inflight (bs ! k) \<le> load)"
  using assms
proof (induction ks arbitrary: best load)
  case Nil
  then show ?case by (cases best) auto
next
  case (Cons k ks)
  show ?case
  proof (cases "(inflight (bs ! k) < load \<or> load < 0) \<and> HasCapacity (bs ! k)")
    case True
    with Cons.IH [where best = "Some k" and load = "inflight (bs ! k)"] Cons.prems show ?thesis
      by (auto simp: Let_def split: option.splits)
  next
    case False
    with Cons.prems have "HasCapacity (bs ! k) \<Longrightarrow> best \<noteq> None \<and> load \<le> inflight (bs ! k)"
      by (auto split: option.splits)
    with False Cons.IH [where best = best and load = load] Cons.prems show ?thesis
      by (force simp: Let_def split: option.splits)
  qed
qed

lemma pickLeastConn_spec:
  assumes "pool_inv p"
  shows "\<exists>r p'. pickLeastConn now p = (r, p') \<and> outcome now p r p' \<and> same_books p p' \<and>
    (\<forall>k. r = Some k \<longrightarrow> (\<forall>b \<in> set (backends p). avail now b \<longrightarrow>
       inflight (backends p ! k) \<le> inflight b))"
proof -
  let ?h = "healthy_ix now p" and ?bs = "map (poll now) (backends p)"
  have h: "k < length (backends p)" "selectable now (backends p ! k)" if "k \<in> set ?h" for k
    using that by (simp_all add: set_healthy_ix)
  have "0 \<le> inflight (?bs ! k)" if "k \<in> set ?h" for k
    using h(1) [OF that] pool_inv_nth [OF assms] by (simp add: be_inv_def)
  then have scan: "case lc_scan ?bs ?h None (- 1) of
      None \<Rightarrow> \<forall>k \<in> set ?h. \<not> HasCapacity (?bs ! k)
    | Some k \<Rightarrow> k \<in> set ?h \<and> HasCapacity (?bs ! k) \<and>
        (\<forall>j \<in> set ?h. HasCapacity (?bs ! j) \<longrightarrow> inflight (?bs ! k) \<le> inflight (?bs ! j))"
    using lc_scan_spec [of ?h ?bs, where best = None and load = "- 1"] by (auto split: option.splits)
  show ?thesis
  proof (cases "lc_scan ?bs ?h None (- 1)")
    case None
    with scan have cap: "\<forall>k \<in> set ?h. \<not> HasCapacity (?bs ! k)" by simp
    have none: "\<not> avail now (backends p ! k)" if "k < length (backends p)" for k
      using cap that by (auto simp: avail_def set_healthy_ix)
    obtain r bs where t: "try_each (TryAcquire now) ?h (backends (polled now p)) = (r, bs)"
      by (cases "try_each (TryAcquire now) ?h (backends (polled now p))")
    let ?p' = "(polled now p)\<lparr>backends := bs\<rparr>"
    have "outcome now p r ?p' \<and> r = find (\<lambda>k. avail now (backends p ! k)) ?h"
      by (rule try_each_outcome [OF assms refl t]) simp
    then have out: "outcome now p r ?p'" and "r = find (\<lambda>k. avail now (backends p ! k)) ?h"
      by blast+
    with none h(1) have "r = None"
      by (auto simp: find_None_iff)
    moreover from None t have "pickLeastConn now p = (r, ?p')"
      by (simp add: pickLeastConn_def Healthy_eq comp_def)
    ultimately show ?thesis
      using out by (simp add: same_books_def)
  next
    case (Some k)
    with scan have k: "k \<in> set ?h" "HasCapacity (?bs ! k)"
        "\<forall>j \<in> set ?h. HasCapacity (?bs ! j) \<longrightarrow> inflight (?bs ! k) \<le> inflight (?bs ! j)"
      by simp_all
    from h [OF k(1)] k(2) have av: "avail now (backends p ! k)"
      by (simp add: avail_def)
    let ?p' = "put k (take_slot (?bs ! k)) (polled now p)"
    have "TryAcquire now (?bs ! k) = (True, take_slot (?bs ! k))"
      using TryAcquire_settled [OF settled_nth_polled [OF assms h(1) [OF k(1)]]] av h(1) [OF k(1)]
      by simp
    with Some have "pickLeastConn now p = (Some k, ?p')"
      by (simp add: pickLeastConn_def Healthy_eq)
    moreover have "outcome now p (Some k) ?p'"
      using h(1) [OF k(1)] av by (simp add: outcome_def picked_def)
    moreover have "inflight (backends p ! k) \<le> inflight b"
      if b: "b \<in> set (backends p)" "avail now b" for b
    proof -
      from b obtain j where j: "j < length (backends p)" "b = backends p ! j"
        by (auto simp: in_set_conv_nth)
      with b(2) have "j \<in> set ?h" "HasCapacity (?bs ! j)"
        by (simp_all add: avail_def set_healthy_ix)
      then have "inflight (?bs ! k) \<le> inflight (?bs ! j)"
        using k(3) by blast
      with j h(1) [OF k(1)] show ?thesis by simp
    qed
    ultimately show ?thesis by (simp add: same_books_def)
  qed
qed

lemma poll_take_slot [simp]: "poll now (take_slot (poll now b)) = take_slot (poll now b)"
proof (cases "admit b = AdmitInPool")
  case True
  then show ?thesis
    by (cases "state b"; cases "openedAt b") (simp_all add: IsSelectable_def take_slot_def)
next
  case False
  then show ?thesis by (simp add: IsSelectable_def take_slot_def)
qed

text \<open>
  The result of \<open>Select\<close>, up to polling: a selection that hits the sticky entry polls one
  backend only, a complete pick polls them all.
\<close>

definition granted :: "instant \<Rightarrow> pool \<Rightarrow> nat \<Rightarrow> pool \<Rightarrow> bool" where
  "granted now p k p' \<longleftrightarrow> k < length (backends p) \<and> avail now (backends p ! k) \<and>
     map (poll now) (backends p') =
       (map (poll now) (backends p))[k := take_slot (poll now (backends p ! k))]"

definition refused :: "instant \<Rightarrow> pool \<Rightarrow> pool \<Rightarrow> bool" where
  "refused now p p' \<longleftrightarrow> (\<forall>b \<in> set (backends p). \<not> avail now b) \<and>
     map (poll now) (backends p') = map (poll now) (backends p)"

lemma map_poll_poll [simp]: "map (poll now \<circ> poll now) bs = map (poll now) bs"
  by simp

lemma picked_granted: "picked now p k p' \<Longrightarrow> granted now p k p'"
  by (simp add: picked_def granted_def map_update)

lemma exhausted_refused: "exhausted now p p' \<Longrightarrow> refused now p p'"
  by (simp add: exhausted_def refused_def)

lemma map_eq_avail:
  assumes "map (poll now) bs' = map (poll now) bs"
  shows "length bs' = length bs" and "k < length bs \<Longrightarrow> avail now (bs' ! k) = avail now (bs ! k)"
    and "map inflight bs' = map inflight bs"
proof -
  show len: "length bs' = length bs" using assms by (rule map_eq_imp_length_eq)
  have nth: "poll now (bs' ! k) = poll now (bs ! k)" if "k < length bs" for k
    using that len arg_cong [OF assms, of "\<lambda>xs. xs ! k"] by simp
  show "avail now (bs' ! k) = avail now (bs ! k)" if "k < length bs"
    using nth [OF that] by (metis avail_poll)
  have "inflight (bs' ! k) = inflight (bs ! k)" if "k < length bs" for k
    using nth [OF that] by (metis IsSelectable_frame(7))
  then show "map inflight bs' = map inflight bs" using len by (simp add: list_eq_iff_nth_eq)
qed

text \<open>A pick on a pool whose backends differ by polling only.\<close>

lemma granted_cong:
  assumes "map (poll now) (backends q) = map (poll now) (backends p)" and "granted now q k p'"
  shows "granted now p k p'"
proof -
  note eq = map_eq_avail [OF assms(1)]
  have "k < length (backends p)" using assms(2) eq(1) by (simp add: granted_def)
  moreover from this have "poll now (backends q ! k) = poll now (backends p ! k)"
    using eq(1) arg_cong [OF assms(1), of "\<lambda>xs. xs ! k"] by simp
  ultimately show ?thesis using assms eq(2) by (simp add: granted_def)
qed

lemma refused_cong:
  assumes "map (poll now) (backends q) = map (poll now) (backends p)" and "refused now q p'"
  shows "refused now p p'"
  using assms map_eq_avail [OF assms(1)] by (auto simp: refused_def all_set_conv_all_nth)

lemma granted_inflight:
  assumes "granted now p k p'"
  shows "map inflight (backends p') = (map inflight (backends p))[k := inflight (backends p ! k) + 1]"
proof -
  have "map (inflight \<circ> poll now) (backends p') =
      map inflight ((map (poll now) (backends p))[k := take_slot (poll now (backends p ! k))])"
    using assms by (simp add: granted_def map_map [symmetric] del: map_map)
  then show ?thesis by (simp add: comp_def map_update take_slot_def)
qed

lemma refused_inflight: "refused now p p' \<Longrightarrow> map inflight (backends p') = map inflight (backends p)"
  unfolding refused_def by (rule map_eq_avail(3)) (rule conjunct2)

lemma TryAcquire_at:
  assumes "pool_inv p" and "k < length (backends p)"
  shows "TryAcquire now (backends p ! k) =
    (avail now (backends p ! k),
     if avail now (backends p ! k) then take_slot (poll now (backends p ! k))
     else poll now (backends p ! k))"
  using pool_inv_nth [OF assms] by (simp add: TryAcquire_eq avail_def take_slot_def)

lemma sticky_hit_spec:
  assumes "pool_inv p"
  shows "\<exists>r p'. sticky_hit now key p = (r, p') \<and> same_books p p' \<and> rr p' = rr p \<and>
    (case r of
       Some k \<Rightarrow> granted now p k p'
     | None \<Rightarrow> pool_inv p' \<and> map (poll now) (backends p') = map (poll now) (backends p))"
proof (cases "sticky_hit now key p = (None, p)")
  case True
  with assms show ?thesis by (simp add: same_books_def)
next
  case False
  then obtain e k where k: "sticky p key = Some e" "now - se_updated e < stickyTTL p"
      "Get (se_id e) p = Some k"
    by (auto simp: sticky_hit_def split: option.splits if_splits)
  then have len: "k < length (backends p)" using pool_inv_Get [OF assms] by blast
  let ?b = "backends p ! k"
  have inv: "be_inv ?b" using assms len by (rule pool_inv_nth)
  have "sticky_hit now key p =
      (if avail now ?b then (Some k, put k (take_slot (poll now ?b)) p)
       else (None, put k (poll now ?b) p))"
    using k TryAcquire_at [OF assms len] by (simp add: sticky_hit_def)
  moreover have "pool_inv (put k (poll now ?b) p)"
    using assms inv by (intro pool_inv_put be_inv_IsSelectable) simp_all
  moreover have "map (poll now) ((backends p)[k := poll now ?b]) = map (poll now) (backends p)"
    using len by (simp add: map_update list_update_same_conv)
  moreover have "map (poll now) ((backends p)[k := take_slot (poll now ?b)]) =
      (map (poll now) (backends p))[k := take_slot (poll now ?b)]"
    by (simp add: map_update)
  ultimately show ?thesis
    using len by (cases "avail now ?b") (simp_all add: same_books_def granted_def)
qed

lemma pickSticky_spec:
  assumes "pool_inv p" and "0 \<le> sint key"
  shows "\<exists>r p'. pickSticky now key p = Inr (r, p') \<and> same_books p p' \<and> rr p' = rr p \<and>
    (case r of Some k \<Rightarrow> picked now p k p' | None \<Rightarrow> p' = polled now p)"
proof (cases "healthy_ix now p = []")
  case True
  then show ?thesis by (simp add: pickSticky_def Healthy_eq same_books_def)
next
  case False
  let ?i = "nat (sint key mod int (length (healthy_ix now p)))"
  let ?k = "healthy_ix now p ! ?i"
  have i: "?i < length (healthy_ix now p)" using False by (simp add: nat_less_iff)
  then have k: "?k < length (backends p)" using healthy_ix_nth by blast
  have "go_index (healthy_ix now p) (sint key smod int (length (healthy_ix now p))) = Inr ?k"
    using False assms(2) by (simp add: go_index_def)
  moreover have "TryAcquire now (backends (polled now p) ! ?k) =
      (avail now (backends p ! ?k),
       if avail now (backends p ! ?k) then take_slot (poll now (backends p ! ?k))
       else poll now (backends p ! ?k))"
    using TryAcquire_settled [OF settled_nth_polled [OF assms(1) k]] k by simp
  ultimately show ?thesis
    using False k
    by (auto simp: pickSticky_def Healthy_eq same_books_def picked_def put_def polled_def
        list_update_same_conv)
qed

section \<open>What \<open>Select\<close> does\<close>

lemma pool_inv_cong:
  "pool_inv q \<Longrightarrow> backends p = backends q \<Longrightarrow> index p = index q \<Longrightarrow> pool_inv p"
  by (simp add: pool_inv_def)

lemma pool_inv_outcome:
  assumes "pool_inv p" and "outcome now p r p'" and "same_books p p'"
  shows "pool_inv p'"
proof (cases r)
  case None
  with assms(2) have "backends p' = backends (polled now p)"
    by (simp add: outcome_def exhausted_def)
  with pool_inv_polled [OF assms(1), of now] show ?thesis
    by (rule pool_inv_cong) (use assms(3) in \<open>simp add: same_books_def\<close>)
next
  case (Some k)
  let ?b = "take_slot (poll now (backends p ! k))"
  from Some assms(2) have k: "k < length (backends p)" "avail now (backends p ! k)"
      "backends p' = (backends (polled now p))[k := ?b]"
    by (simp_all add: outcome_def picked_def)
  have "be_inv (poll now (backends p ! k))"
    using pool_inv_nth [OF assms(1) k(1)] by (rule be_inv_IsSelectable)
  then have "be_inv ?b"
    using k(2) by (intro be_inv_take_slot) (simp_all add: avail_def)
  then have "pool_inv (put k ?b (polled now p))"
    using k(1) by (intro pool_inv_put pool_inv_polled assms(1)) (simp_all add: take_slot_def)
  then show ?thesis
    by (rule pool_inv_cong) (use k(3) assms(3) in \<open>simp_all add: same_books_def\<close>)
qed

lemma outcome_cong:
  assumes "map (poll now) (backends q) = map (poll now) (backends p)" and "outcome now q r p'"
  shows "case r of None \<Rightarrow> refused now p p' | Some k \<Rightarrow> granted now p k p'"
  using assms
  by (auto simp: outcome_def split: option.splits
      intro: granted_cong refused_cong picked_granted exhausted_refused)

lemma pool_inv_granted_put:
  assumes "pool_inv p" and "k < length (backends p)" and "avail now (backends p ! k)"
  shows "pool_inv (put k (take_slot (poll now (backends p ! k))) p)"
proof -
  have "be_inv (poll now (backends p ! k))"
    using pool_inv_nth [OF assms(1,2)] by (rule be_inv_IsSelectable)
  then show ?thesis
    using assms by (intro pool_inv_put be_inv_take_slot) (simp_all add: avail_def take_slot_def)
qed

text \<open>
  The calls on which no index goes negative: the round-robin counter and the sticky key,
  read as a signed \<open>int\<close>, are not negative.
\<close>

definition in_range :: "u64 \<Rightarrow> pool \<Rightarrow> bool" where
  "in_range key p \<longleftrightarrow> (strategy p = StrategyRoundRobin \<longrightarrow> 0 \<le> sint (rr p)) \<and>
     (strategy p = StrategySticky \<longrightarrow> 0 \<le> sint key)"

lemma strategies_distinct [simp]:
  "StrategyRoundRobin \<noteq> StrategyLeastConn" "StrategyLeastConn \<noteq> StrategyRoundRobin"
  "StrategyRoundRobin \<noteq> StrategySticky" "StrategySticky \<noteq> StrategyRoundRobin"
  "StrategyLeastConn \<noteq> StrategySticky" "StrategySticky \<noteq> StrategyLeastConn"
  by (simp_all add: StrategyRoundRobin_def StrategyLeastConn_def StrategySticky_def)

lemma pick_spec:
  assumes "pool_inv p" and "in_range key p"
  shows "\<exists>r p'. pick now key p = Inr (r, p') \<and> outcome now p r p' \<and> same_books p p'"
proof (cases "strategy p = StrategyRoundRobin")
  case True
  with assms pickRR_nonneg [OF assms(1), of now] show ?thesis
    by (auto simp: pick_def in_range_def)
next
  case False
  show ?thesis
  proof (cases "strategy p = StrategySticky")
    case True
    with assms(2) have "0 \<le> sint key" by (simp add: in_range_def)
    with pickSticky_spec [OF assms(1)] obtain r p1 where
      s: "pickSticky now key p = Inr (r, p1)" "same_books p p1"
        "case r of Some k \<Rightarrow> picked now p k p1 | None \<Rightarrow> p1 = polled now p"
      by blast
    show ?thesis
    proof (cases r)
      case None
      with s(3) have p1: "p1 = polled now p" by simp
      from pickLeastConn_spec [OF pool_inv_polled [OF assms(1), of now], where now = now]
      obtain r2 p2 where "pickLeastConn now p1 = (r2, p2)" "outcome now p r2 p2" "same_books p p2"
        unfolding p1 by auto
      with None s(1) True show ?thesis by (simp add: pick_def)
    next
      case (Some k)
      with s True show ?thesis by (simp add: pick_def outcome_def)
    qed
  next
    case False
    with \<open>strategy p \<noteq> StrategyRoundRobin\<close> pickLeastConn_spec [OF assms(1), of now] show ?thesis
      by (auto simp: pick_def)
  qed
qed

text \<open>The counters of one selection.\<close>

definition counted :: "pool \<Rightarrow> bool \<Rightarrow> pool \<Rightarrow> bool" where
  "counted p failed p' \<longleftrightarrow> metrics p' = (metrics p)
     \<lparr>Selects := Selects (metrics p) + 1,
      SelectFail := SelectFail (metrics p) + (if failed then 1 else 0)\<rparr>"

definition selection :: "instant \<Rightarrow> pool \<Rightarrow> pool_error + nat \<Rightarrow> pool \<Rightarrow> bool" where
  "selection now p r p' \<longleftrightarrow>
     (case r of
        Inl e \<Rightarrow> e = ErrNoHealthyBackend \<and> refused now p p' \<and> counted p True p'
      | Inr k \<Rightarrow> granted now p k p' \<and> counted p False p')"

lemma pool_inv_metrics [simp]: "pool_inv (p\<lparr>metrics := m\<rparr>) = pool_inv p"
  by (simp add: pool_inv_def)

lemma pool_inv_sticky [simp]: "pool_inv (p\<lparr>sticky := s\<rparr>) = pool_inv p"
  by (simp add: pool_inv_def)

lemma granted_frame:
  "granted now (p\<lparr>metrics := m\<rparr>) k p' = granted now p k p'"
  "granted now p k (p'\<lparr>metrics := m\<rparr>) = granted now p k p'"
  "granted now p k (p'\<lparr>sticky := s\<rparr>) = granted now p k p'"
  "refused now (p\<lparr>metrics := m\<rparr>) p' = refused now p p'"
  "refused now p (p'\<lparr>metrics := m\<rparr>) = refused now p p'"
  by (simp_all add: granted_def refused_def)

lemma pool_inv_sticky_hit:
  assumes "pool_inv p" and "sticky_hit now key p = (r, p')"
  shows "pool_inv p'"
proof (cases "sticky_hit now key p = (None, p)")
  case True
  with assms show ?thesis by simp
next
  case False
  then obtain e k where k: "sticky p key = Some e" "now - se_updated e < stickyTTL p"
      "Get (se_id e) p = Some k"
    by (auto simp: sticky_hit_def split: option.splits if_splits)
  then have len: "k < length (backends p)" using pool_inv_Get [OF assms(1)] by blast
  let ?b = "backends p ! k"
  have "sticky_hit now key p =
      (if avail now ?b then (Some k, put k (take_slot (poll now ?b)) p)
       else (None, put k (poll now ?b) p))"
    using k TryAcquire_at [OF assms(1) len] by (simp add: sticky_hit_def)
  moreover have "pool_inv (put k (poll now ?b) p)"
    using assms(1) pool_inv_nth [OF assms(1) len]
    by (intro pool_inv_put be_inv_IsSelectable) simp_all
  ultimately show ?thesis
    using assms len pool_inv_granted_put by (auto split: if_splits)
qed

text \<open>The pool between the sticky fast path and the pick.\<close>

definition entered :: "pool \<Rightarrow> pool" where
  "entered p = p\<lparr>metrics := (metrics p)\<lparr>Selects := Selects (metrics p) + 1\<rparr>\<rparr>"

definition fast_path :: "instant \<Rightarrow> u64 \<Rightarrow> pool \<Rightarrow> nat option \<times> pool" where
  "fast_path now key p =
     (if strategy p = StrategySticky then sticky_hit now key (entered p) else (None, entered p))"

lemma entered_frame [simp]:
  "backends (entered p) = backends p" "index (entered p) = index p"
  "strategy (entered p) = strategy p" "stickyTTL (entered p) = stickyTTL p"
  "sticky (entered p) = sticky p" "rr (entered p) = rr p"
  "pool_inv (entered p) = pool_inv p" "granted now (entered p) k p' = granted now p k p'"
  by (simp_all add: entered_def granted_frame)

lemma counted_entered:
  "metrics q = metrics (entered p) \<Longrightarrow> counted p False q"
  "metrics q = metrics (entered p) \<Longrightarrow>
     counted p True (q\<lparr>metrics := (metrics q)\<lparr>SelectFail := SelectFail (metrics q) + 1\<rparr>\<rparr>)"
  by (simp_all add: counted_def entered_def)

lemma fast_path_spec:
  assumes "pool_inv p"
  shows "\<exists>r q. fast_path now key p = (r, q) \<and> pool_inv q \<and> same_books (entered p) q \<and>
    rr q = rr p \<and> (case r of
       Some k \<Rightarrow> granted now p k q
     | None \<Rightarrow> map (poll now) (backends q) = map (poll now) (backends p))"
proof (cases "strategy p = StrategySticky")
  case True
  have "pool_inv (entered p)" using assms by simp
  from sticky_hit_spec [OF this, of now key] obtain r q where
    "sticky_hit now key (entered p) = (r, q)" "same_books (entered p) q" "rr q = rr p"
    "case r of Some k \<Rightarrow> granted now p k q
     | None \<Rightarrow> pool_inv q \<and> map (poll now) (backends q) = map (poll now) (backends p)"
    unfolding entered_frame by blast
  with True pool_inv_sticky_hit [of "entered p" now key r q] assms show ?thesis
    by (auto simp: fast_path_def split: option.splits)
next
  case False
  with assms show ?thesis by (simp add: fast_path_def same_books_def)
qed

lemma Select_eq:
  "Select now key p =
     (case fast_path now key p of
        (Some k, q) \<Rightarrow> Inr (Inr k, q)
      | (None, q) \<Rightarrow>
          (case pick now key q of
             Inl e \<Rightarrow> Inl e
           | Inr (None, p2) \<Rightarrow>
               Inr (Inl ErrNoHealthyBackend,
                    p2\<lparr>metrics := (metrics p2)\<lparr>SelectFail := SelectFail (metrics p2) + 1\<rparr>\<rparr>)
           | Inr (Some k, p2) \<Rightarrow>
               Inr (Inr k,
                    if strategy p2 = StrategySticky
                    then p2\<lparr>sticky := (sticky p2)(key \<mapsto>
                           \<lparr>se_id = ID (backends p2 ! k), se_updated = now\<rparr>)\<rparr>
                    else p2)))"
  by (simp add: Select_def fast_path_def entered_def Let_def split: option.split)

lemma Select_spec:
  assumes "pool_inv p" and "in_range key p"
  shows "\<exists>r p'. Select now key p = Inr (r, p') \<and> pool_inv p' \<and> selection now p r p' \<and>
    index p' = index p \<and> strategy p' = strategy p \<and> stickyTTL p' = stickyTTL p \<and>
    (strategy p \<noteq> StrategySticky \<longrightarrow> sticky p' = sticky p)"
proof -
  from fast_path_spec [OF assms(1)] obtain r1 q where q: "fast_path now key p = (r1, q)"
      "pool_inv q" "same_books (entered p) q" "rr q = rr p"
      "case r1 of Some k \<Rightarrow> granted now p k q
       | None \<Rightarrow> map (poll now) (backends q) = map (poll now) (backends p)"
    by blast
  show ?thesis
  proof (cases r1)
    case (Some k)
    with q show ?thesis
      by (simp add: Select_eq selection_def same_books_def counted_entered)
  next
    case None
    with q(5) have cong: "map (poll now) (backends q) = map (poll now) (backends p)" by simp
    have "in_range key q" using assms(2) q(3,4) by (simp add: in_range_def same_books_def)
    from pick_spec [OF q(2) this] obtain r p2 where
      p2: "pick now key q = Inr (r, p2)" "outcome now q r p2" "same_books q p2"
      by blast
    have inv: "pool_inv p2" by (rule pool_inv_outcome [OF q(2) p2(2,3)])
    have books: "metrics p2 = metrics (entered p)" "strategy p2 = strategy p"
        "index p2 = index p" "stickyTTL p2 = stickyTTL p" "sticky p2 = sticky p"
      using q(3) p2(3) by (simp_all add: same_books_def)
    have sel: "case r of None \<Rightarrow> refused now p p2 | Some k \<Rightarrow> granted now p k p2"
      by (rule outcome_cong [OF cong p2(2)])
    show ?thesis
    proof (cases r)
      case None
      with sel counted_entered(2) [OF books(1)] show ?thesis
        by (simp add: Select_eq q(1) \<open>r1 = None\<close> p2(1) inv books(2-) selection_def granted_frame)
    next
      case (Some k)
      with sel counted_entered(1) [OF books(1)] show ?thesis
        by (simp add: Select_eq q(1) \<open>r1 = None\<close> p2(1) inv books(2-) selection_def granted_frame
            counted_def)
    qed
  qed
qed

section \<open>Selections that return\<close>

text \<open>
  Whatever the key and the counter are, a \<open>Select\<close> that returns has selected as it should: a negative index would
  have been a panic.
\<close>

lemma smod_smod:
  fixes a n :: int
  assumes "0 < n"
  shows "(a smod n) smod n = a smod n"
proof (cases "a < 0")
  case True
  have "0 \<le> (- a) mod n" using assms by simp
  with True assms show ?thesis
    by (cases "(- a) mod n = 0") (simp_all add: smod_neg)
qed (use assms in simp)

lemma pickRR_returns:
  assumes "pool_inv p" and "pickRR now p = Inr (r, p')"
  shows "outcome now p r p' \<and> same_books p p'"
proof (cases "healthy_ix now p = []")
  case True
  then have "\<not> avail now b" if "b \<in> set (backends p)" for b
    using that by (auto simp: healthy_ix_def filter_empty_conv in_set_conv_nth avail_def)
  with True assms(2) show ?thesis
    by (auto simp: pickRR_def Healthy_eq outcome_def exhausted_def same_books_def)
next
  case False
  let ?h = "healthy_ix now p"
  let ?start = "sint (rr p) smod int (length ?h)"
  obtain js where upt: "[0..<length ?h] = 0 # js" using False by (cases ?h) (auto simp: upt_rec)
  have start: "0 \<le> ?start"
  proof (rule ccontr)
    assume "\<not> 0 \<le> ?start"
    moreover have "?start smod int (length ?h) = ?start"
      using False by (intro smod_smod) simp
    ultimately have "\<exists>e. pickRR now p = Inl e"
      using False by (auto simp: pickRR_def Healthy_eq Let_def upt go_index_def)
    with assms(2) show False by simp
  qed
  obtain q bs where t: "try_each (TryAcquire now) (rotation (nat ?start) ?h)
      (backends (polled now p)) = (q, bs)"
    by fastforce
  have run: "pickRR now p = Inr (q, (polled now p)\<lparr>rr := rr p + 1, backends := bs\<rparr>)"
    using False t rr_loop_try_each [OF start(1) False, of now "[0..<length ?h]"
      "backends (polled now p)"]
    by (simp add: pickRR_def Healthy_eq Let_def rotation_def)
  then have r: "r = q" "p' = (polled now p)\<lparr>rr := rr p + 1, backends := bs\<rparr>" using assms(2) by simp_all
  have "outcome now p q p' \<and> q = find (\<lambda>k. avail now (backends p ! k)) (rotation (nat ?start) ?h)"
    by (rule try_each_outcome [OF assms(1) set_rotation t]) (simp add: r)
  then have "outcome now p r p'" unfolding r(1) by blast
  with r(2) show ?thesis by (simp add: same_books_def)
qed

lemma pickSticky_returns:
  assumes "pool_inv p" and "pickSticky now key p = Inr (r, p')"
  shows "same_books p p' \<and> (case r of Some k \<Rightarrow> picked now p k p' | None \<Rightarrow> p' = polled now p)"
proof (cases "healthy_ix now p = []")
  case True
  with assms(2) show ?thesis by (auto simp: pickSticky_def Healthy_eq same_books_def)
next
  case False
  let ?i = "sint key smod int (length (healthy_ix now p))"
  let ?k = "healthy_ix now p ! nat ?i"
  obtain k0 where g: "go_index (healthy_ix now p) ?i = Inr k0"
    using assms(2) False by (auto simp: pickSticky_def Healthy_eq split: sum.splits)
  then have i: "nat ?i < length (healthy_ix now p)" "k0 = ?k"
    by (auto simp: go_index_def split: if_splits)
  then have k: "?k < length (backends p)" using healthy_ix_nth by blast
  have "TryAcquire now (backends (polled now p) ! ?k) =
      (avail now (backends p ! ?k),
       if avail now (backends p ! ?k) then take_slot (poll now (backends p ! ?k))
       else poll now (backends p ! ?k))"
    using TryAcquire_settled [OF settled_nth_polled [OF assms(1) k]] k by simp
  then show ?thesis
    using False k assms(2) g i
    by (auto simp: pickSticky_def Healthy_eq same_books_def picked_def put_def polled_def
        list_update_same_conv split: if_splits)
qed

lemma pick_returns:
  assumes "pool_inv p" and "pick now key p = Inr (r, p')"
  shows "outcome now p r p' \<and> same_books p p'"
proof (cases "strategy p = StrategySticky")
  case True
  then obtain r1 p1 where s: "pickSticky now key p = Inr (r1, p1)"
    using assms(2) by (auto simp: pick_def split: sum.splits)
  note sr = pickSticky_returns [OF assms(1) s]
  show ?thesis
  proof (cases r1)
    case (Some k)
    with s True assms(2) have "r = Some k" "p' = p1" by (simp_all add: pick_def)
    with sr Some show ?thesis by (simp add: outcome_def)
  next
    case None
    with sr have p1: "p1 = polled now p" by simp
    with pickLeastConn_spec [OF pool_inv_polled [OF assms(1), of now], where now = now] s None True assms(2)
    show ?thesis by (auto simp: pick_def same_books_def)
  qed
next
  case False
  with assms pickRR_returns [OF assms(1)] pickLeastConn_spec [OF assms(1), of now] show ?thesis
    by (auto simp: pick_def split: if_splits)
qed

lemma sticky_only:
  "p' = p2\<lparr>sticky := st\<rparr> \<Longrightarrow> pool_inv p2 \<Longrightarrow> granted now p k p2 \<Longrightarrow> counted p False p2 \<Longrightarrow>
   index p2 = index p \<Longrightarrow> strategy p2 = strategy p \<Longrightarrow> r = Inr k \<Longrightarrow>
   pool_inv p' \<and> selection now p r p' \<and> index p' = index p \<and> strategy p' = strategy p"
  by (simp add: selection_def granted_frame counted_def)

lemma Select_returns:
  assumes "pool_inv p" and "Select now key p = Inr (r, p')"
  shows "pool_inv p' \<and> selection now p r p' \<and> index p' = index p \<and> strategy p' = strategy p"
proof -
  from fast_path_spec [OF assms(1)] obtain r1 q where q: "fast_path now key p = (r1, q)"
      "pool_inv q" "same_books (entered p) q" "rr q = rr p"
      "case r1 of Some k \<Rightarrow> granted now p k q
       | None \<Rightarrow> map (poll now) (backends q) = map (poll now) (backends p)"
    by blast
  show ?thesis
  proof (cases r1)
    case (Some k)
    with q assms(2) show ?thesis by (auto simp: Select_eq selection_def same_books_def counted_entered)
  next
    case None
    then obtain r2 p2 where p2: "pick now key q = Inr (r2, p2)"
      using assms(2) q(1) by (auto simp: Select_eq split: sum.splits)
    note pr = pick_returns [OF q(2) p2]
    have inv: "pool_inv p2" using pool_inv_outcome [OF q(2)] pr by blast
    have books: "metrics p2 = metrics (entered p)" "strategy p2 = strategy p" "index p2 = index p"
      using q(3) pr by (simp_all add: same_books_def)
    have sel: "case r2 of None \<Rightarrow> refused now p p2 | Some k \<Rightarrow> granted now p k p2"
    proof -
      have "map (poll now) (backends q) = map (poll now) (backends p)" using q(5) None by simp
      moreover have "outcome now q r2 p2" using pr by blast
      ultimately show ?thesis by (rule outcome_cong)
    qed
    show ?thesis
    proof (cases r2)
      case None
      then have "r = Inl ErrNoHealthyBackend"
          "p' = p2\<lparr>metrics := (metrics p2)\<lparr>SelectFail := SelectFail (metrics p2) + 1\<rparr>\<rparr>"
        using assms(2) by (simp_all add: Select_eq q(1) \<open>r1 = None\<close> p2)
      with sel None counted_entered(2) [OF books(1)] inv books(2,3) show ?thesis
        by (simp add: selection_def granted_frame)
    next
      case (Some k)
      have "r = Inr k \<and> (p' = p2 \<or> p' = p2\<lparr>sticky := (sticky p2)(key \<mapsto>
          \<lparr>se_id = ID (backends p2 ! k), se_updated = now\<rparr>)\<rparr>)"
        using assms(2) by (auto simp: Select_eq q(1) \<open>r1 = None\<close> p2 Some)
      then have "r = Inr k" "p' = p2\<lparr>sticky := sticky p'\<rparr>" by auto
      moreover have "granted now p k p2" using sel Some by simp
      ultimately show ?thesis
        by (intro sticky_only [where ?p2.0 = p2 and st = "sticky p'" and k = k] counted_entered(1) books inv)
    qed
  qed
qed

section \<open>Leases held\<close>

text \<open>
  The pool together with the leases its clients hold. The events are the operations of the
  pool and of its leases; a client uses a lease it holds, and releases it once, which is the
  discipline of every caller in \<open>internal/proxy\<close> (one deferred \<open>Release\<close>).
\<close>

datatype pool_event =
    PSelect instant u64
  | PRelease nat
  | PLeaseSuccess instant nat
  | PLeaseFailure instant nat string
  | PProbeOK instant int ProbeInfo
  | PProbeFail instant int string
  | PForceState instant int State
  | PAdmit instant int string
  | PPark instant int string
  | PSetWarming instant int
  | PHealthyCount instant

type_synonym held = "pool \<times> nat multiset"

fun pool_step :: "pool_event \<Rightarrow> held \<Rightarrow> held" where
  "pool_step (PSelect now key) (p, L) =
     (case Select now key p of
        Inl e \<Rightarrow> (p, L)
      | Inr (Inl e, p') \<Rightarrow> (p', L)
      | Inr (Inr k, p') \<Rightarrow> (p', add_mset k L))"
| "pool_step (PRelease k) (p, L) = (Lease_Release k p, L - {#k#})"
| "pool_step (PLeaseSuccess now k) (p, L) = (Lease_MarkSuccess now k p, L)"
| "pool_step (PLeaseFailure now k r) (p, L) = (Lease_MarkFailure now k r p, L)"
| "pool_step (PProbeOK now i info) (p, L) = (pool_MarkProbeOK now i info p, L)"
| "pool_step (PProbeFail now i r) (p, L) = (pool_MarkProbeFail now i r p, L)"
| "pool_step (PForceState now i st) (p, L) = (pool_ForceState now i st p, L)"
| "pool_step (PAdmit now i ip) (p, L) = (snd (Admit now i ip p), L)"
| "pool_step (PPark now i ip) (p, L) = (snd (Park now i ip p), L)"
| "pool_step (PSetWarming now i) (p, L) = (snd (SetWarming now i p), L)"
| "pool_step (PHealthyCount now) (p, L) = (snd (HealthyCount now p), L)"

fun pool_guard :: "pool_event \<Rightarrow> held \<Rightarrow> bool" where
  "pool_guard (PSelect now key) (p, L) \<longleftrightarrow> in_range key p"
| "pool_guard (PRelease k) (p, L) \<longleftrightarrow> k \<in># L"
| "pool_guard (PLeaseSuccess now k) (p, L) \<longleftrightarrow> k \<in># L"
| "pool_guard (PLeaseFailure now k r) (p, L) \<longleftrightarrow> k \<in># L"
| "pool_guard _ _ \<longleftrightarrow> True"

definition held_inv :: "held \<Rightarrow> bool" where
  "held_inv = (\<lambda>(p, L). pool_inv p \<and> set_mset L \<subseteq> {..<length (backends p)} \<and>
     map inflight (backends p) = map (\<lambda>k. int (count L k)) [0..<length (backends p)])"

lemma held_inv_nth:
  "held_inv (p, L) \<Longrightarrow> k < length (backends p) \<Longrightarrow> inflight (backends p ! k) = int (count L k)"
  unfolding held_inv_def by (auto dest: arg_cong [where f = "\<lambda>xs. xs ! k"])

text \<open>An operation on one backend that leaves its slots alone.\<close>

lemma held_inv_put:
  assumes "held_inv (p, L)" and "k < length (backends p)" and "be_inv b"
    and "ID b = ID (backends p ! k)" and "inflight b = inflight (backends p ! k)"
  shows "held_inv (put k b p, L)"
proof -
  have "map inflight ((backends p)[k := b]) = map inflight (backends p)"
    using assms(2,5) by (simp add: map_update list_update_same_conv)
  moreover have "pool_inv (put k b p)"
    using assms by (intro pool_inv_put) (simp_all add: held_inv_def)
  ultimately show ?thesis using assms(1) by (simp add: held_inv_def)
qed

lemma held_inv_metrics [simp]: "held_inv (p\<lparr>metrics := m\<rparr>, L) = held_inv (p, L)"
  by (simp add: held_inv_def)

lemma mark_frame [simp]:
  "ID (MarkSuccess now b) = ID b" "inflight (MarkSuccess now b) = inflight b"
  "ID (MarkFailure now r b) = ID b" "inflight (MarkFailure now r b) = inflight b"
  "ID (MarkProbeOK now i b) = ID b" "inflight (MarkProbeOK now i b) = inflight b"
  "ID (ForceState now st b) = ID b" "inflight (ForceState now st b) = inflight b"
  "ID (SetAdmit now ph ip b) = ID b" "inflight (SetAdmit now ph ip b) = inflight b"
  by (simp_all add: be_defs Let_def)

lemma held_inv_at:
  assumes "held_inv (p, L)" and "Get i p = Some k"
    and "\<And>b. be_inv b \<Longrightarrow> be_inv (f b)" and "\<And>b. ID (f b) = ID b \<and> inflight (f b) = inflight b"
  shows "held_inv (put k (f (backends p ! k)) p, L)"
proof -
  have inv: "pool_inv p" using assms(1) by (simp add: held_inv_def)
  with assms(2) have k: "k < length (backends p)" using pool_inv_Get by blast
  with inv have "be_inv (backends p ! k)" by (rule pool_inv_nth)
  with assms k show ?thesis by (intro held_inv_put) simp_all
qed

lemma held_inv_at_id:
  assumes "held_inv (p, L)" and "\<And>b. be_inv b \<Longrightarrow> be_inv (f b)"
    and "\<And>b. ID (f b) = ID b \<and> inflight (f b) = inflight b"
  shows "held_inv (at_id i f p, L)"
  using assms held_inv_at [OF assms(1)] by (auto simp: at_id_def split: option.split)

lemma held_inv_lease:
  assumes "held_inv (p, L)" and "k \<in># L"
    and "\<And>b. be_inv b \<Longrightarrow> be_inv (f b)" and "\<And>b. ID (f b) = ID b \<and> inflight (f b) = inflight b"
  shows "held_inv (put k (f (backends p ! k)) p, L)"
proof -
  have "k < length (backends p)" "pool_inv p" using assms(1,2) by (auto simp: held_inv_def)
  then have "be_inv (backends p ! k)" by (simp add: pool_inv_nth)
  with assms \<open>k < length (backends p)\<close> show ?thesis by (intro held_inv_put) simp_all
qed

lemma held_inv_release:
  assumes "held_inv (p, L)" and "k \<in># L"
  shows "held_inv (Lease_Release k p, L - {#k#})"
proof -
  let ?b = "backends p ! k"
  have k: "k < length (backends p)" and inv: "pool_inv p" and sub: "set_mset L \<subseteq> {..<length (backends p)}"
    using assms by (auto simp: held_inv_def)
  have b: "be_inv ?b" using inv k by (rule pool_inv_nth)
  have n: "inflight ?b = int (count L k)" using assms(1) k by (rule held_inv_nth)
  with assms(2) have pos: "0 < inflight ?b" by simp
  have eq: "Release ?b = ?b\<lparr>inflight := inflight ?b - 1\<rparr>" using b pos by (rule Release_eq)
  have "pool_inv (put k (Release ?b) p)"
    using inv be_inv_Release [OF b pos] by (rule pool_inv_put) (simp add: eq)
  moreover have "map inflight ((backends p)[k := Release ?b]) =
      map (\<lambda>j. int (count (L - {#k#}) j)) [0..<length (backends p)]"
  proof (rule nth_equalityI)
    fix j
    assume "j < length (map inflight ((backends p)[k := Release ?b]))"
    then have "j < length (backends p)" by simp
    then show "map inflight ((backends p)[k := Release ?b]) ! j =
        map (\<lambda>j. int (count (L - {#k#}) j)) [0..<length (backends p)] ! j"
      using n pos held_inv_nth [OF assms(1), of j] by (cases "j = k") (simp_all add: eq)
  qed simp
  ultimately show ?thesis
    using sub by (auto simp: held_inv_def Lease_Release_def dest: in_diffD)
qed

lemma held_inv_selection:
  assumes "held_inv (p, L)" and "pool_inv p'" and "selection now p r p'"
  shows "held_inv (p', case r of Inl e \<Rightarrow> L | Inr k \<Rightarrow> add_mset k L)"
proof (cases r)
  case (Inl e)
  with assms(3) have "map inflight (backends p') = map inflight (backends p)"
    by (auto simp: selection_def dest: refused_inflight)
  moreover from this have "length (backends p') = length (backends p)"
    by (rule map_eq_imp_length_eq)
  ultimately show ?thesis using assms Inl by (simp add: held_inv_def)
next
  case (Inr k)
  with assms(3) have g: "granted now p k p'" by (simp add: selection_def)
  then have k: "k < length (backends p)" by (simp add: granted_def)
  note fl = granted_inflight [OF g]
  then have len: "length (backends p') = length (backends p)"
    using map_eq_imp_length_eq [of inflight "backends p'"] by (metis length_list_update length_map)
  have "map inflight (backends p') = map (\<lambda>j. int (count (add_mset k L) j)) [0..<length (backends p)]"
    unfolding fl
    by (rule nth_equalityI) (use k held_inv_nth [OF assms(1)] in \<open>auto simp: nth_list_update\<close>)
  with assms Inr len k show ?thesis by (auto simp: held_inv_def)
qed

lemma held_inv_select:
  assumes "held_inv (p, L)" and "in_range key p"
  shows "held_inv (pool_step (PSelect now key) (p, L))"
proof -
  have "pool_inv p" using assms(1) by (simp add: held_inv_def)
  from Select_spec [OF this assms(2)] obtain r p' where
    s: "Select now key p = Inr (r, p')" "pool_inv p'" "selection now p r p'" by blast
  with held_inv_selection [OF assms(1) s(2,3)] show ?thesis by (cases r) simp_all
qed
lemma held_inv_probe:
  assumes "held_inv (p, L)"
  shows "held_inv (pool_MarkProbeOK now i info p, L)" "held_inv (pool_MarkProbeFail now i r p, L)"
  using assms
  by (auto simp: pool_MarkProbeOK_def pool_MarkProbeFail_def
      intro!: held_inv_at be_inv_marks split: option.split)

lemma held_inv_step: "held_inv s \<Longrightarrow> pool_guard e s \<Longrightarrow> held_inv (pool_step e s)"
proof (cases "(e, s)" rule: pool_step.cases)
  case (2 k p L)
  assume "held_inv s" "pool_guard e s"
  with 2 show ?thesis by (simp add: held_inv_release)
next
  case (1 now key p L)
  assume "held_inv s" "pool_guard e s"
  with 1 show ?thesis using held_inv_select by (simp del: pool_step.simps)
next
  case (11 now p L)
  assume "held_inv s"
  with 11 pool_inv_polled [of p now] show ?thesis
    by (simp add: HealthyCount_def held_inv_def polled_def [symmetric] comp_def)
qed (auto simp: Lease_MarkSuccess_def Lease_MarkFailure_def pool_ForceState_def Admit_def
      Park_def SetWarming_def intro!: held_inv_at_id held_inv_lease held_inv_probe be_inv_marks)

interpretation leases: event_machine pool_step pool_guard held_inv
  by unfold_locales (rule held_inv_step)

section \<open>Lemmas on successive selections\<close>

text \<open>Selections one after the other, each at its own instant, with nothing in between.\<close>

fun selects :: "(instant \<times> u64) list \<Rightarrow> pool \<Rightarrow> panic + ((pool_error + nat) list \<times> pool)" where
  "selects [] p = Inr ([], p)"
| "selects ((now, key) # ts) p =
     (case Select now key p of
        Inl e \<Rightarrow> Inl e
      | Inr (r, p1) \<Rightarrow>
          (case selects ts p1 of Inl e \<Rightarrow> Inl e | Inr (rs, p2) \<Rightarrow> Inr (r # rs, p2)))"

text \<open>A backend that stays selectable, with \<open>n\<close> free slots.\<close>

definition roomy :: "nat \<Rightarrow> backend \<Rightarrow> bool" where
  "roomy n b \<longleftrightarrow> admit b = AdmitInPool \<and> state b = StateHealthy \<and> inflight b + int n \<le> MaxInflight b"

lemma roomy_poll: "roomy n b \<Longrightarrow> IsSelectable now b = (True, b)"
  by (simp add: roomy_def IsSelectable_def)

lemma roomy_avail: "roomy (Suc n) b \<Longrightarrow> avail now b"
  by (simp add: avail_def selectable_def roomy_poll) (simp add: roomy_def HasCapacity_def)

lemma roomy_mono: "roomy (Suc n) b \<Longrightarrow> roomy n b"
  by (simp add: roomy_def)

lemma roomy_take_slot: "roomy (Suc n) b \<Longrightarrow> roomy n (take_slot b)"
  by (simp add: roomy_def take_slot_def)

lemma healthy_ix_all:
  "\<forall>b \<in> set (backends p). roomy n b \<Longrightarrow> healthy_ix now p = [0..<length (backends p)]"
  unfolding healthy_ix_def selectable_def
  by (rule filter_True) (metis atLeastLessThan_iff fst_conv nth_mem roomy_poll set_upt)

lemma find_hd: "xs \<noteq> [] \<Longrightarrow> P (hd xs) \<Longrightarrow> find P xs = Some (hd xs)"
  by (cases xs) auto

lemma hd_rotation: "h \<noteq> [] \<Longrightarrow> hd (rotation s h) = h ! (s mod length h)"
  by (simp add: rotation_def hd_map)

lemma rotation_Nil_iff [simp]: "rotation s h = [] \<longleftrightarrow> h = []"
  by (simp add: rotation_def)

lemma sint_Suc: "0 \<le> sint (w::u64) \<Longrightarrow> sint w + 1 < 2 ^ 63 \<Longrightarrow> sint (w + 1) = sint w + 1"
  using signed_take_bit_int_eq_self [of 63 "sint w + 1"]
  by (simp add: sint_word_ariths)

lemma Select_rr_roomy:
  assumes "pool_inv p" and "strategy p = StrategyRoundRobin" and "backends p \<noteq> []"
    and "\<forall>b \<in> set (backends p). roomy (Suc n) b" and "0 \<le> sint (rr p)"
  shows "\<exists>p'. Select now key p = Inr (Inr (nat (sint (rr p)) mod length (backends p)), p') \<and>
    pool_inv p' \<and> strategy p' = StrategyRoundRobin \<and> length (backends p') = length (backends p) \<and>
    (\<forall>b \<in> set (backends p'). roomy n b) \<and> rr p' = rr p + 1"
proof -
  let ?n = "length (backends p)" and ?k = "nat (sint (rr p)) mod length (backends p)"
  have h: "healthy_ix now q = [0..<?n]" if "backends q = backends p" for q
    using that assms(4) healthy_ix_all [of q "Suc n" now] by simp
  have k: "?k < ?n" using assms(3) by simp
  have pollid: "map (poll now) (backends p) = backends p"
    by (rule map_idI) (use assms(4) in \<open>simp add: roomy_poll [where n = "Suc n"]\<close>)
  have room: "roomy (Suc n) (backends p ! ?k)" using assms(4) k by (meson nth_mem)
  then have av: "avail now (backends p ! ?k)" by (rule roomy_avail)
  have q: "pool_inv (entered p)" "0 \<le> sint (rr (entered p))" using assms(1,5) by simp_all
  have "find (\<lambda>j. avail now (backends p ! j)) (rotation ?k [0..<?n]) = Some ?k"
    using assms(3) k av by (subst find_hd) (simp_all add: hd_rotation del: upt_Suc)
  with pickRR_nonneg [OF q, of now] obtain p2 where
    p2: "pickRR now (entered p) = Inr (Some ?k, p2)" "outcome now (entered p) (Some ?k) p2"
      "same_books (entered p) p2" "rr p2 = rr p + 1"
    using assms(3) h [of "entered p"] by auto
  have bs: "backends p2 = (backends p)[?k := take_slot (backends p ! ?k)]"
    using p2(2) pollid roomy_poll [OF room] by (simp add: outcome_def picked_def)
  have "\<forall>b \<in> set (backends p2). roomy n b"
    unfolding bs using assms(4) room roomy_mono roomy_take_slot nth_mem_upd [OF k] by blast
  moreover have "pool_inv p2" using q(1) p2(2,3) by (rule pool_inv_outcome)
  moreover have "Select now key p = Inr (Inr ?k, p2)"
    using assms(2) p2(1,3)
    by (simp add: Select_eq fast_path_def pick_def same_books_def)
  ultimately show ?thesis
    using assms(2) p2(3,4) bs by (simp add: same_books_def)
qed

lemma selects_rr:
  assumes "pool_inv p" and "strategy p = StrategyRoundRobin" and "backends p \<noteq> []"
    and "\<forall>b \<in> set (backends p). roomy (length ts) b"
    and "0 \<le> sint (rr p)" and "sint (rr p) + int (length ts) < 2 ^ 63"
  shows "\<exists>p'. selects ts p = Inr (map (\<lambda>i. Inr ((nat (sint (rr p)) + i) mod length (backends p)))
    [0..<length ts], p')"
  using assms
proof (induction ts arbitrary: p)
  case Nil
  then show ?case by simp
next
  case (Cons t ts)
  obtain now key where t: "t = (now, key)" by (cases t)
  from Cons.prems Select_rr_roomy [of p "length ts" now key] obtain p1 where
    p1: "Select now key p = Inr (Inr (nat (sint (rr p)) mod length (backends p)), p1)"
      "pool_inv p1" "strategy p1 = StrategyRoundRobin" "length (backends p1) = length (backends p)"
      "\<forall>b \<in> set (backends p1). roomy (length ts) b" "rr p1 = rr p + 1"
    by auto
  have s: "sint (rr p1) = sint (rr p) + 1"
    using Cons.prems(5,6) p1(6) by (simp add: sint_Suc)
  have "\<exists>p'. selects ts p1 = Inr (map (\<lambda>i. Inr ((nat (sint (rr p1)) + i) mod length (backends p1)))
      [0..<length ts], p')"
    using p1 s Cons.prems by (intro Cons.IH) auto
  moreover have "nat (sint (rr p1)) + i = nat (sint (rr p)) + Suc i" for i
    using s Cons.prems(5) by (simp add: nat_add_distrib)
  ultimately show ?case
    using p1(1,4) t
    by (auto simp: upt_conv_Cons map_Suc_upt [symmetric] comp_def simp del: upt_Suc)
qed

text \<open>What a granted backend looks like afterwards: its breaker is closed.\<close>

lemma poll_closed:
  "selectable now b \<Longrightarrow> admit (poll now b) = AdmitInPool \<and>
     state (poll now b) \<in> {StateHealthy, StateDegraded, StateUnknown}"
  by (cases "state b"; cases "openedAt b") (auto simp: selectable_iff IsSelectable_def)

lemma closed_selectable:
  "admit b = AdmitInPool \<Longrightarrow> state b \<in> {StateHealthy, StateDegraded, StateUnknown} \<Longrightarrow>
     selectable now b"
  by (simp add: selectable_iff)

section \<open>Properties\<close>

text \<open>Three admitted backends with five slots each, for the concrete instances.\<close>

definition sample_pool :: "PoolStrategy \<Rightarrow> pool" where
  "sample_pool s =
     \<lparr>backends = map (\<lambda>i. (NewBackend 0 i ''127.0.0.1:40000'' 3 (15 * Second) (10 * Second) 5)
                  \<lparr>admit := AdmitInPool, state := StateHealthy\<rparr>) [0, 1, 2],
      index = [0 \<mapsto> 0, 1 \<mapsto> 1, 2 \<mapsto> 2], strategy = s, stickyTTL = 60 * Second,
      sticky = Map.empty, rr = 0,
      metrics = \<lparr>Selects = 0, SelectFail = 0, Success = 0, Failure = 0\<rparr>\<rparr>"

lemma pool_inv_sample: "pool_inv (sample_pool s)"
  by (auto simp: pool_inv_def sample_pool_def NewBackend_def be_inv_def split: if_splits)

lemma sample_pool_sel [simp]:
  "strategy (sample_pool s) = s" "rr (sample_pool s) = 0" "sticky (sample_pool s) = Map.empty"
  "stickyTTL (sample_pool s) = 60 * Second" "length (backends (sample_pool s)) = 3"
  by (simp_all add: sample_pool_def)

lemma roomy_sample: "n \<le> 5 \<Longrightarrow> \<forall>b \<in> set (backends (sample_pool s)). roomy n b"
  by (simp add: sample_pool_def roomy_def NewBackend_def)

lemma avail_sample: "\<forall>b \<in> set (backends (sample_pool s)). avail now b"
  using roomy_sample [of 1 s] roomy_avail [of 0] by simp

lemma fold_add_unused:
  assumes "\<forall>b \<in> set (backends q). inflight b = 0"
  shows "\<forall>b \<in> set (backends (fold (add_backend t pc) bks q)). inflight b = 0"
  using assms
proof (induction bks arbitrary: q)
  case Nil
  then show ?case by simp
next
  case (Cons bk bks)
  then have "\<forall>b \<in> set (backends (add_backend t pc bk q)). inflight b = 0"
    by (auto simp: add_backend_def NewBackend_def split: option.split)
  with Cons.IH show ?case by simp
qed

lemma New_unused: "\<forall>b \<in> set (backends (New t c)). inflight b = 0"
  unfolding New_def by (rule fold_add_unused) simp

lemma held_inv_New: "held_inv (New t c, {#})"
proof -
  have "map inflight (backends (New t c)) = map (\<lambda>k. 0) [0..<length (backends (New t c))]"
    using New_unused [of t c] by (intro nth_equalityI) (simp_all add: all_set_conv_all_nth)
  then show ?thesis by (simp add: held_inv_def pool_inv_New)
qed



text \<open>The slots are the leases. From a fresh pool, after any history of
  selections, releases, health marks, forced states and admissions in which a client releases
  only a lease it holds, the in-flight counter of every backend is the number of its leases
  outstanding, and no backend has more leases out than \<open>MaxInflight\<close>.\<close>

theorem leases_accounted:
  assumes "allowed pool_step pool_guard es (New t0 c, {#})"
    and "exec pool_step es (New t0 c, {#}) = (p, L)" and "k < length (backends p)"
  shows "inflight (backends p ! k) = int (count L k) \<and> int (count L k) \<le> MaxInflight (backends p ! k)"
proof -
  have "held_inv (New t0 c, {#})" by (rule held_inv_New)
  then have "held_inv (p, L)" unfolding assms(2) [symmetric] using assms(1) by (rule leases.inv_exec)
  then have "inflight (backends p ! k) = int (count L k)" "pool_inv p"
    using assms(3) held_inv_nth by (blast, simp add: held_inv_def)
  with pool_inv_nth [OF _ assms(3)] show ?thesis by (simp add: be_inv_def)
qed

definition sample_config :: config where
  "sample_config = (Default sample_host)
     \<lparr>Backends := [\<lparr>bk_ID = 7, bk_Addr = ''127.0.0.1:40000''\<rparr>]\<rparr>"

definition sample_history :: "pool_event list" where
  "sample_history = [PAdmit 1 7 '''', PSelect 2 0, PSelect 3 0, PRelease 0]"

lemma leases_accounted_witness:
  "inflight (backends (fst (exec pool_step sample_history (New 0 sample_config, {#}))) ! 0) = 1"
proof -
  have "case exec pool_step sample_history (New 0 sample_config, {#}) of (p, L) \<Rightarrow>
      length (backends p) = 1 \<and> count L 0 = 1"
    by code_simp
  then obtain p L where e: "exec pool_step sample_history (New 0 sample_config, {#}) = (p, L)"
      and p: "length (backends p) = 1" "count L 0 = 1"
    by (auto split: prod.splits)
  have "allowed pool_step pool_guard sample_history (New 0 sample_config, {#})"
    by code_simp
  from leases_accounted [OF this e, of 0] p show ?thesis by (simp add: e)
qed

text \<open>C18 (functional): under \<open>least_conn\<close> the backend selected carries the least load among
  the available ones.\<close>

theorem least_conn_selects_least_loaded:
  assumes "pool_inv p" and "strategy p = StrategyLeastConn"
    and "Select now key p = Inr (Inr k, p')"
    and "b \<in> set (backends p)" and "fst (IsSelectable now b)" and "HasCapacity b"
  shows "inflight (backends p ! k) \<le> inflight b"
proof -
  have "pool_inv (entered p)" using assms(1) by simp
  from pickLeastConn_spec [OF this, of now] obtain r p2 where
    r: "pickLeastConn now (entered p) = (r, p2)"
      "\<forall>k. r = Some k \<longrightarrow> (\<forall>b \<in> set (backends p). avail now b \<longrightarrow> inflight (backends p ! k) \<le> inflight b)"
    by auto
  have "r = Some k"
    using assms(2,3) r(1)
    by (simp add: Select_eq fast_path_def pick_def split: option.splits)
  with r(2) assms(4-6) show ?thesis by (simp add: avail_def selectable_def)
qed

lemma least_conn_selects_least_loaded_witness:
  "let p = put 0 (take_slot (backends (sample_pool StrategyLeastConn) ! 0)) (sample_pool StrategyLeastConn) in
   \<exists>k p'. Select 3 0 p = Inr (Inr k, p') \<and> inflight (backends p ! k) = 0"
proof -
  let ?p = "put 0 (take_slot (backends (sample_pool StrategyLeastConn) ! 0)) (sample_pool StrategyLeastConn)"
  let ?b = "backends ?p ! 1"
  have bs: "backends ?p ! 1 = (NewBackend 0 1 ''127.0.0.1:40000'' 3 (15 * Second) (10 * Second) 5)
      \<lparr>admit := AdmitInPool, state := StateHealthy\<rparr>"
    by (simp add: sample_pool_def)
  have inv: "pool_inv ?p"
    by (rule pool_inv_put [OF pool_inv_sample])
      (simp_all add: sample_pool_def NewBackend_def be_inv_def take_slot_def)
  have b: "?b \<in> set (backends ?p)" "fst (IsSelectable 3 ?b)" "HasCapacity ?b" "inflight ?b = 0"
  proof -
    show "?b \<in> set (backends ?p)" by (rule nth_mem) simp
  qed (simp_all only: bs, simp_all add: IsSelectable_def HasCapacity_def NewBackend_def)
  have "case Select 3 0 ?p of Inl e \<Rightarrow> False | Inr (r, p') \<Rightarrow> (case r of Inl e \<Rightarrow> False | Inr k \<Rightarrow> k < 3)"
    by code_simp
  then obtain k p' where s: "Select 3 0 ?p = Inr (Inr k, p')" "k < 3"
    by (auto split: sum.splits)
  have "inflight (backends ?p ! k) \<le> inflight ?b"
    by (rule least_conn_selects_least_loaded [OF inv _ s(1) b(1-3)]) simp
  moreover have "0 \<le> inflight (backends ?p ! k)"
    using pool_inv_nth [OF inv, of k] s(2) by (simp add: be_inv_def)
  ultimately show ?thesis using s(1) b(4) by (auto simp: Let_def)
qed

text \<open>C11 (functional): round robin is fair. Over healthy admitted backends with room for the
  requests, consecutive selections walk through the backends in order, wrapping around, from
  the position of the counter, as long as the 64-bit counter stays in the range of \<open>int\<close>.\<close>

theorem round_robin_rotates:
  assumes "pool_inv p" and "strategy p = StrategyRoundRobin" and "backends p \<noteq> []"
    and "\<forall>b \<in> set (backends p). admit b = AdmitInPool \<and> state b = StateHealthy \<and>
           inflight b + int (length ts) \<le> MaxInflight b"
    and "0 \<le> sint (rr p)" and "sint (rr p) + int (length ts) < 2 ^ 63"
  shows "\<exists>p'. selects ts p =
    Inr (map (\<lambda>i. Inr ((nat (sint (rr p)) + i) mod length (backends p))) [0..<length ts], p')"
  by (rule selects_rr) (use assms in \<open>simp_all add: roomy_def\<close>)

lemma round_robin_rotates_witness:
  "\<exists>p'. selects [(1, 0), (2, 0), (3, 0), (4, 0), (9, 0)] (sample_pool StrategyRoundRobin) =
     Inr ([Inr 0, Inr 1, Inr 2, Inr 0, Inr 1], p')"
proof -
  have "\<forall>b \<in> set (backends (sample_pool StrategyRoundRobin)). roomy 5 b"
    by (rule roomy_sample) simp
  then have room: "\<forall>b \<in> set (backends (sample_pool StrategyRoundRobin)). admit b = AdmitInPool \<and>
      state b = StateHealthy \<and>
      inflight b + int (length [(1::int, 0::u64), (2, 0), (3, 0), (4, 0), (9, 0)]) \<le> MaxInflight b"
    by (simp add: roomy_def)
  have ne: "backends (sample_pool StrategyRoundRobin) \<noteq> []" by (simp add: sample_pool_def)
  from round_robin_rotates [OF pool_inv_sample _ ne room] show ?thesis
    by (simp add: upt_conv_Cons numeral_2_eq_2)
qed

text \<open>C10 (functional): a client sticks. When a selection under \<open>sticky\<close> made a fresh choice
  for a key, the next selection for that key within \<open>stickyTTL\<close> gets the same backend, if it
  still has capacity and the index leads back to it.\<close>

theorem sticky_affinity:
  assumes "pool_inv p" and "strategy p = StrategySticky" and "0 \<le> sint key" and "sticky p key = None"
    and "Select now key p = Inr (Inr k, p1)" and "Get (ID (backends p ! k)) p = Some k"
    and "HasCapacity (backends p1 ! k)" and "later - now < stickyTTL p"
  shows "\<exists>p2. Select later key p1 = Inr (Inr k, p2)"
proof -
  have rng: "in_range key (entered p)" using assms(2,3) by (simp add: in_range_def)
  have "pool_inv (entered p)" using assms(1) by simp
  from pick_spec [OF this rng, of now] obtain r q where
    q: "pick now key (entered p) = Inr (r, q)" "outcome now (entered p) r q" "same_books (entered p) q"
    by blast
  have fp: "fast_path now key p = (None, entered p)"
    using assms(2,4) by (simp add: fast_path_def sticky_hit_def)
  have r: "r = Some k" and p1: "p1 = q\<lparr>sticky := (sticky q)(key \<mapsto>
      \<lparr>se_id = ID (backends q ! k), se_updated = now\<rparr>)\<rparr>"
    using assms(2,5) q by (auto simp: Select_eq fp same_books_def split: option.splits)
  from q(2) r have k: "k < length (backends p)" "avail now (backends p ! k)"
      "backends q ! k = take_slot (poll now (backends p ! k))"
    by (simp_all add: outcome_def picked_def)
  have "pool_inv q" using \<open>pool_inv (entered p)\<close> q(2,3) by (rule pool_inv_outcome)
  then have inv: "pool_inv (entered p1)" by (simp add: p1)
  have "selectable later (backends p1 ! k)"
    using poll_closed [of now "backends p ! k"] k
    by (intro closed_selectable) (simp_all add: p1 avail_def take_slot_def)
  then have av: "avail later (backends p1 ! k)" using assms(7) by (simp add: avail_def)
  have len: "k < length (backends p1)"
    using q(2) r k(1) by (simp add: p1 outcome_def picked_def)
  have "sticky_hit later key (entered p1) =
      (Some k, put k (take_slot (poll later (backends p1 ! k))) (entered p1))"
    using TryAcquire_at [OF inv, of k later] len av assms(6,8) q(3) k(1,3)
    by (simp add: sticky_hit_def p1 same_books_def Get_def take_slot_def)
  then show ?thesis
    using assms(2) q(3) by (simp add: Select_eq fast_path_def p1 same_books_def)
qed

lemma sticky_affinity_witness:
  "\<exists>k p1 p2. Select 5 7 (sample_pool StrategySticky) = Inr (Inr k, p1) \<and>
     Select (40 * Second) 7 p1 = Inr (Inr k, p2)"
proof -
  have "case Select 5 7 (sample_pool StrategySticky) of Inl e \<Rightarrow> False
      | Inr (r, p1) \<Rightarrow> r = Inr 1 \<and> HasCapacity (backends p1 ! 1)"
    by code_simp
  then obtain p1 where s: "Select 5 7 (sample_pool StrategySticky) = Inr (Inr 1, p1)"
      "HasCapacity (backends p1 ! 1)"
    by (auto split: sum.splits)
  have "Get (ID (backends (sample_pool StrategySticky) ! 1)) (sample_pool StrategySticky) = Some 1"
    by (simp add: sample_pool_def Get_def NewBackend_def)
  from sticky_affinity [OF pool_inv_sample _ _ _ s(1) this s(2), of "40 * Second"] s(1)
  show ?thesis by auto
qed

text \<open>C36 (error): the sticky strategy crashes on half of the hash values. A key whose top bit
  is set is negative as \<open>int\<close>, Go's remainder keeps the sign, and \<open>healthy[idx]\<close> is out of
  range, unless the number of selectable backends divides it: a selection for such a key
  without a live entry panics.\<close>

theorem sticky_key_panics:
  assumes "strategy p = StrategySticky" and "sticky p key = None"
    and "sint key < 0" and "healthy_ix now p \<noteq> []"
    and "\<not> int (length (healthy_ix now p)) dvd sint key"
  shows "Select now key p =
    Inl (Index_Out_Of_Range (sint key smod int (length (healthy_ix now p))))"
proof -
  let ?n = "int (length (healthy_ix now p))"
  have "(- sint key) mod ?n \<noteq> 0" using assms(5) by (simp add: mod_eq_0_iff_dvd)
  moreover have "0 \<le> (- sint key) mod ?n" using assms(4) by simp
  ultimately have "0 < (- sint key) mod ?n" by linarith
  with smod_neg [of "sint key" ?n] assms(3,4) have "sint key smod ?n < 0" by simp
  then have "go_index (healthy_ix now p) (sint key smod ?n) = Inl (Index_Out_Of_Range (sint key smod ?n))"
    by (simp add: go_index_def)
  moreover have "healthy_ix now (entered p) = healthy_ix now p" by (simp add: healthy_ix_def)
  ultimately have "pickSticky now key (entered p) = Inl (Index_Out_Of_Range (sint key smod ?n))"
    using assms(4) by (simp add: pickSticky_def Healthy_eq)
  with assms(1,2) show ?thesis
    by (simp add: Select_eq fast_path_def sticky_hit_def pick_def)
qed

lemma sticky_key_panics_witness:
  "\<exists>i. Select 5 (fnv64a ''10.0.0.1'') (sample_pool StrategySticky) = Inl (Index_Out_Of_Range i)"
proof -
  have "sint (fnv64a ''10.0.0.1'') < 0 \<and> \<not> 3 dvd sint (fnv64a ''10.0.0.1'')"
    by code_simp
  moreover have "healthy_ix 5 (sample_pool StrategySticky) = [0, 1, 2]"
    using healthy_ix_all [OF roomy_sample [of 1 StrategySticky]]
    by (simp add: upt_conv_Cons)
  ultimately show ?thesis
    using sticky_key_panics [of "sample_pool StrategySticky" "fnv64a ''10.0.0.1''" 5] by simp
qed

definition egress_ips :: "backend list \<Rightarrow> string set" where
  "egress_ips bs = egressIPv4 ` {b \<in> set bs. admit b = AdmitInPool \<and> egressIPv4 b \<noteq> ''''}"

lemma egress_ips_simps [simp]:
  "egress_ips [] = {}"
  "egress_ips (b # bs) = (if admit b = AdmitInPool \<and> egressIPv4 b \<noteq> '''' then {egressIPv4 b} else {})
     \<union> egress_ips bs"
  by (auto simp: egress_ips_def)

lemma fold_count_admit:
  "as_inPool (fold count_admit bs s) = as_inPool s + length (filter (\<lambda>b. admit b = AdmitInPool) bs)"
  "as_warming (fold count_admit bs s) = as_warming s + length (filter (\<lambda>b. admit b = AdmitWarming) bs)"
  "as_parked (fold count_admit bs s) = as_parked s + length (filter (\<lambda>b. admit b = AdmitParked) bs)"
  "set (as_ips (fold count_admit bs s)) = set (as_ips s) \<union> egress_ips bs"
  "distinct (as_ips s) \<Longrightarrow> distinct (as_ips (fold count_admit bs s))"
proof -
  show "as_inPool (fold count_admit bs s) = as_inPool s + length (filter (\<lambda>b. admit b = AdmitInPool) bs)"
    by (induction bs arbitrary: s) (auto simp: count_admit_def Let_def split: AdmitPhase.split)
  show "as_warming (fold count_admit bs s) = as_warming s + length (filter (\<lambda>b. admit b = AdmitWarming) bs)"
    by (induction bs arbitrary: s) (auto simp: count_admit_def Let_def split: AdmitPhase.split)
  show "as_parked (fold count_admit bs s) = as_parked s + length (filter (\<lambda>b. admit b = AdmitParked) bs)"
    by (induction bs arbitrary: s) (auto simp: count_admit_def Let_def split: AdmitPhase.split)
  show "set (as_ips (fold count_admit bs s)) = set (as_ips s) \<union> egress_ips bs"
    by (induction bs arbitrary: s) (auto simp: count_admit_def Let_def split: AdmitPhase.split)
  show "distinct (as_ips s) \<Longrightarrow> distinct (as_ips (fold count_admit bs s))"
    by (induction bs arbitrary: s) (auto simp: count_admit_def Let_def split: AdmitPhase.split)
qed

lemma fold_ip_owner_dom: "dom (fold ip_owner bs m) = dom m \<union> egress_ips bs"
  by (induction bs arbitrary: m) (auto simp: ip_owner_def)

lemma fold_ip_owner_ran:
  "fold ip_owner bs m ip = Some i \<Longrightarrow> m ip = Some i \<or>
     (\<exists>b \<in> set bs. ID b = i \<and> admit b = AdmitInPool \<and> egressIPv4 b = ip \<and> ip \<noteq> '''')"
  by (induction bs arbitrary: m) (fastforce simp: ip_owner_def split: if_splits)+

lemma partition_admit:
  "length bs = length (filter (\<lambda>b. admit b = AdmitInPool) bs) +
     length (filter (\<lambda>b. admit b = AdmitWarming) bs) + length (filter (\<lambda>b. admit b = AdmitParked) bs)"
proof (induction bs)
  case Nil
  then show ?case by simp
next
  case (Cons b bs)
  then show ?case by (cases "admit b") simp_all
qed

text \<open>The membership counters partition the backends, and the uniqueness
  counter is exact: it is the number of addresses in \<open>InPoolIPv4Set\<close>, which lists the
  non-empty egress addresses of the backends in the pool, each with a member that has it.\<close>

theorem membership_statistics:
  "\<exists>n w k u. AdmitStats p = (n, w, k, u) \<and> n + w + k = length (backends p) \<and>
     n = length (filter (\<lambda>b. admit b = AdmitInPool) (backends p)) \<and>
     k = length (filter (\<lambda>b. admit b = AdmitParked) (backends p)) \<and>
     u = card (dom (InPoolIPv4Set p)) \<and>
     dom (InPoolIPv4Set p) = {ip. ip \<noteq> '''' \<and> (\<exists>b \<in> set (backends p). admit b = AdmitInPool \<and> egressIPv4 b = ip)} \<and>
     (\<forall>ip i. InPoolIPv4Set p ip = Some i \<longrightarrow>
        (\<exists>b \<in> set (backends p). ID b = i \<and> admit b = AdmitInPool \<and> egressIPv4 b = ip))"
proof -
  let ?s = "fold count_admit (backends p) \<lparr>as_inPool = 0, as_warming = 0, as_parked = 0, as_ips = []\<rparr>"
  have d: "dom (InPoolIPv4Set p) = egress_ips (backends p)"
    by (simp add: InPoolIPv4Set_def fold_ip_owner_dom)
  have "card (egress_ips (backends p)) = length (as_ips ?s)"
    using fold_count_admit(4,5) [where bs = "backends p"] distinct_card [of "as_ips ?s"] by simp
  moreover have "\<exists>b \<in> set (backends p). ID b = i \<and> admit b = AdmitInPool \<and> egressIPv4 b = ip"
    if "InPoolIPv4Set p ip = Some i" for ip i
    using fold_ip_owner_ran [of "backends p" Map.empty ip i] that
    by (auto simp: InPoolIPv4Set_def)
  ultimately show ?thesis
    using partition_admit [of "backends p"] unfolding d
    by (auto simp: AdmitStats_def Let_def fold_count_admit egress_ips_def)
qed

lemma membership_statistics_witness:
  "\<exists>b \<in> set (backends (snd (Admit 3 1 ''1.2.3.4'' (sample_pool StrategyRoundRobin)))).
     ID b = 1 \<and> admit b = AdmitInPool \<and> egressIPv4 b = ''1.2.3.4''"
proof -
  have "InPoolIPv4Set (snd (Admit 3 1 ''1.2.3.4'' (sample_pool StrategyRoundRobin))) ''1.2.3.4'' = Some 1"
    by code_simp
  with membership_statistics [of "snd (Admit 3 1 ''1.2.3.4'' (sample_pool StrategyRoundRobin))"]
  show ?thesis by blast
qed

end
