(* ===== verification/Go_Float.thy ===== *)
theory Go_Float
  imports Go_Prelude Complex_Main "HOL-Library.Log_Nat"
begin

text \<open>
  The \<open>float64\<close> arithmetic the program uses, on non-negative values: a float is the exact
  fraction it denotes (a pair of a numerator and a positive denominator), and every operation
  rounds its exact result to 53 significant bits, ties to even. Overflow to infinity and
  subnormal results cannot occur for the magnitudes of the callers (counts of seconds and of
  requests), so they are not modelled. A negative value is rounded through its absolute value.
\<close>

section \<open>Rounding\<close>

type_synonym float64 = "int \<times> int"

text \<open>The quotient rounded to the nearest integer, ties to even, for \<open>d > 0\<close>.\<close>

definition round_div :: "int \<Rightarrow> int \<Rightarrow> int" where
  "round_div n d =
     (let q = n div d; r = n mod d in
      if 2 * r < d \<or> (2 * r = d \<and> even q) then q else q + 1)"

text \<open>
  The exponent of the last of the 53 bits: the largest \<open>e\<close> with \<open>2 ^ (e + 52) \<le> n / d\<close>.
\<close>

definition ulp_exp :: "int \<Rightarrow> int \<Rightarrow> int" where
  "ulp_exp n d =
     (let p = bitlen n - bitlen d in
      if d * 2 ^ nat p \<le> n * 2 ^ nat (- p) then p - 52 else p - 53)"

definition round_pos :: "int \<Rightarrow> int \<Rightarrow> float64" where
  "round_pos n d =
     (let e = ulp_exp n d in
      (round_div (n * 2 ^ nat (- e)) (d * 2 ^ nat e) * 2 ^ nat e, 2 ^ nat (- e)))"

fun fl :: "int \<times> int \<Rightarrow> float64" where
  "fl (n, d) =
     (if n = 0 then (0, 1)
      else if n < 0 then (let (m, k) = round_pos (- n) d in (- m, k))
      else round_pos n d)"

definition float_of_int :: "int \<Rightarrow> float64" where
  "float_of_int i = fl (i, 1)"

fun fadd :: "float64 \<Rightarrow> float64 \<Rightarrow> float64" where
  "fadd (a, b) (c, d) = fl (a * d + c * b, b * d)"

fun fmul :: "float64 \<Rightarrow> float64 \<Rightarrow> float64" where
  "fmul (a, b) (c, d) = fl (a * c, b * d)"

text \<open>Division by a positive float.\<close>

fun fdiv :: "float64 \<Rightarrow> float64 \<Rightarrow> float64" where
  "fdiv (a, b) (c, d) = fl (a * d, b * c)"

text \<open>
  The conversion \<open>int64(f)\<close> truncates. Out of range the language leaves the result to the
  implementation; it is the smallest integer, as amd64 computes it.
\<close>

fun int64_of :: "float64 \<Rightarrow> int" where
  "int64_of (n, d) =
     (let t = n sdiv d in if - (2 ^ 63) \<le> t \<and> t < 2 ^ 63 then t else - (2 ^ 63))"

text \<open>\<open>Duration.Seconds\<close>.\<close>

definition Seconds :: "duration \<Rightarrow> float64" where
  "Seconds d = fadd (float_of_int (d sdiv Second))
                    (fdiv (float_of_int (d smod Second)) (float_of_int Second))"

section \<open>The rounding error\<close>

definition val :: "float64 \<Rightarrow> real" where
  "val f = of_int (fst f) / of_int (snd f)"

abbreviation ulp :: real where "ulp \<equiv> 1 / 2 ^ 53"

text \<open>A non-negative float with a positive denominator.\<close>

definition pos_float :: "float64 \<Rightarrow> bool" where
  "pos_float f \<longleftrightarrow> 0 \<le> fst f \<and> 0 < snd f"

lemma round_div_bounds:
  assumes "0 < d"
  shows "2 * d * round_div n d \<le> 2 * n + d" and "0 \<le> n \<Longrightarrow> 0 \<le> round_div n d"
proof -
  have n: "n = d * (n div d) + n mod d" and r: "0 \<le> n mod d" "n mod d < d"
    using assms by simp_all
  show "2 * d * round_div n d \<le> 2 * n + d"
  proof (cases "2 * (n mod d) < d \<or> (2 * (n mod d) = d \<and> even (n div d))")
    case True
    then have "round_div n d = n div d" by (simp add: round_div_def Let_def)
    moreover have "2 * (d * (n div d)) \<le> 2 * n + d" using n r assms by linarith
    ultimately show ?thesis by (simp add: mult.assoc)
  next
    case False
    then have "round_div n d = n div d + 1" by (simp add: round_div_def Let_def)
    moreover have "d \<le> 2 * (n mod d)" using False by auto
    then have "2 * (d * (n div d)) + d \<le> 2 * n" using n by linarith
    ultimately show ?thesis by (simp add: distrib_left mult.assoc)
  qed
  show "0 \<le> round_div n d" if "0 \<le> n"
    using that assms by (auto simp: round_div_def Let_def pos_imp_zdiv_nonneg_iff add_nonneg_nonneg)
qed

lemma shift_iff:
  fixes x y :: real
  shows "x * 2 ^ nat e \<le> y * 2 ^ nat (- e) \<longleftrightarrow> x * 2 powi e \<le> y"
  by (cases "0 \<le> e") (simp_all add: power_int_def field_simps)

lemma ulp_exp_bound:
  assumes "0 < n" and "0 < d"
  shows "of_int d * 2 powi (ulp_exp n d + 52) \<le> (of_int n :: real)"
proof (cases "d * 2 ^ nat (bitlen n - bitlen d) \<le> n * 2 ^ nat (- (bitlen n - bitlen d))")
  case True
  then have "(of_int (d * 2 ^ nat (bitlen n - bitlen d)) :: real)
      \<le> of_int (n * 2 ^ nat (- (bitlen n - bitlen d)))"
    by (simp only: of_int_le_iff)
  then have "of_int d * 2 powi (bitlen n - bitlen d) \<le> (of_int n :: real)"
    using shift_iff [of "of_int d" "bitlen n - bitlen d" "of_int n"] by simp
  with True show ?thesis by (simp add: ulp_exp_def Let_def)
next
  case False
  have n: "2 powi (bitlen n - 1) \<le> (of_int n :: real)"
  proof -
    have "2 ^ nat (bitlen n - 1) \<le> n" using bitlen_bounds [OF assms(1)] by simp
    then have "(of_int (2 ^ nat (bitlen n - 1)) :: real) \<le> of_int n" by (simp only: of_int_le_iff)
    then show ?thesis using bitlen_nonneg [of n] assms(1)
      by (simp add: power_int_def bitlen_alt_def)
  qed
  have d: "(of_int d :: real) \<le> 2 powi bitlen d"
  proof -
    have "d \<le> 2 ^ nat (bitlen d)" using bitlen_bounds [OF assms(2)] by simp
    then have "(of_int d :: real) \<le> of_int (2 ^ nat (bitlen d))" by (simp only: of_int_le_iff)
    then show ?thesis using bitlen_nonneg [of d] by (simp add: power_int_def)
  qed
  have "of_int d * 2 powi (bitlen n - bitlen d - 1)
      \<le> 2 powi bitlen d * (2 powi (bitlen n - bitlen d - 1) :: real)"
    using d by (intro mult_right_mono) simp_all
  also have "\<dots> = 2 powi (bitlen n - 1)"
    by (simp add: power_int_add [symmetric] algebra_simps)
  finally show ?thesis using n False by (simp add: ulp_exp_def Let_def algebra_simps)
qed

lemma round_pos_bounds:
  assumes "0 < n" and "0 < d"
  shows "pos_float (round_pos n d)"
    and "val (round_pos n d) \<le> of_int n / of_int d * (1 + ulp)"
proof -
  let ?e = "ulp_exp n d"
  let ?A = "2 ^ nat (- ?e) :: int" and ?B = "2 ^ nat ?e :: int"
  let ?m = "round_div (n * ?A) (d * ?B)"
  have rp: "round_pos n d = (?m * ?B, ?A)" by (simp add: round_pos_def Let_def)
  have dB: "0 < d * ?B" using assms(2) by simp
  have "0 \<le> ?m" using round_div_bounds(2) [OF dB] assms(1) by simp
  then show "pos_float (round_pos n d)" by (simp add: rp pos_float_def)
  have "of_int d * 2 powi ?e * 2 ^ 52 \<le> (of_int n :: real)"
    using ulp_exp_bound [OF assms] by (simp add: power_int_add mult.assoc)
  then have "(of_int d * 2 ^ 52) * 2 ^ nat ?e \<le> (of_int n :: real) * 2 ^ nat (- ?e)"
    by (subst shift_iff) (simp add: algebra_simps)
  then have big: "of_int (d * ?B) * 2 ^ 52 \<le> (of_int (n * ?A) :: real)"
    by (simp add: algebra_simps)
  have "(of_int (2 * (d * ?B) * ?m) :: real) \<le> of_int (2 * (n * ?A) + d * ?B)"
    using round_div_bounds(1) [OF dB, of "n * ?A"] by (simp only: of_int_le_iff)
  then have "2 * (of_int (d * ?B) * of_int ?m) \<le> 2 * of_int (n * ?A) + (of_int (d * ?B) :: real)"
    by (simp only: of_int_mult of_int_add of_int_numeral mult.assoc)
  also have "of_int (d * ?B) \<le> (of_int (n * ?A) :: real) / 2 ^ 52" using big by (simp add: field_simps)
  finally have le: "of_int (d * ?B) * of_int ?m \<le> (of_int (n * ?A) :: real) * (1 + ulp)"
    by (simp add: field_simps)
  have "val (round_pos n d) * (of_int d * of_int ?A) = of_int (d * ?B) * of_int ?m"
    by (simp add: val_def rp)
  also note le
  also have "(of_int (n * ?A) :: real) * (1 + ulp) =
      of_int n / of_int d * (1 + ulp) * (of_int d * of_int ?A)"
    using assms(2) by simp
  finally show "val (round_pos n d) \<le> of_int n / of_int d * (1 + ulp)"
    using assms(2) by (simp add: pos_le_divide_eq)
qed

lemma val_nonneg: "pos_float f \<Longrightarrow> 0 \<le> val f"
  by (simp add: pos_float_def val_def)

lemma fl_bounds:
  assumes "0 \<le> n" and "0 < d"
  shows "pos_float (fl (n, d))" and "val (fl (n, d)) \<le> of_int n / of_int d * (1 + ulp)"
  using round_pos_bounds [of n d] assms by (auto simp: pos_float_def val_def)

declare fl.simps [simp del]

lemma float_of_int_bounds:
  "0 \<le> i \<Longrightarrow> pos_float (float_of_int i)" "0 \<le> i \<Longrightarrow> val (float_of_int i) \<le> of_int i * (1 + ulp)"
  using fl_bounds [of i 1] by (simp_all add: float_of_int_def)

lemma fadd_bounds:
  assumes "pos_float f" and "pos_float g"
  shows "pos_float (fadd f g)" and "val (fadd f g) \<le> (val f + val g) * (1 + ulp)"
proof -
  obtain a b c d where fg: "f = (a, b)" "g = (c, d)" by (cases f, cases g)
  with assms have pos: "0 \<le> a" "0 < b" "0 \<le> c" "0 < d" by (simp_all add: pos_float_def)
  then have "0 \<le> a * d + c * b" "0 < b * d" by simp_all
  note fl = fl_bounds [OF this]
  show "pos_float (fadd f g)" using fl(1) fg by simp
  have "(of_int (a * d + c * b) :: real) / of_int (b * d) = val f + val g"
    using pos fg by (simp add: val_def add_frac_eq)
  with fl(2) show "val (fadd f g) \<le> (val f + val g) * (1 + ulp)"
    by (simp only: fg fadd.simps)
qed

lemma fmul_bounds:
  assumes "pos_float f" and "pos_float g"
  shows "pos_float (fmul f g)" and "val (fmul f g) \<le> val f * val g * (1 + ulp)"
  using assms fl_bounds [of "fst f * fst g" "snd f * snd g"]
  by (cases f; cases g; simp add: pos_float_def val_def)+

lemma fdiv_bounds:
  assumes "pos_float f" and "pos_float g" and "0 < fst g"
  shows "pos_float (fdiv f g)" and "val (fdiv f g) \<le> val f / val g * (1 + ulp)"
  using assms fl_bounds [of "fst f * snd g" "snd f * fst g"]
  by (cases f; cases g; simp add: pos_float_def val_def)+

lemma float_of_Second [simp]: "val (float_of_int Second) = 10 ^ 9" "0 < fst (float_of_int Second)"
  "pos_float (float_of_int Second)"
  by (code_simp | simp add: val_def)+

lemma Seconds_bounds:
  assumes "0 \<le> d"
  shows "pos_float (Seconds d)" and "val (Seconds d) \<le> of_int d / 10 ^ 9 * (1 + ulp) ^ 3"
proof -
  have s: "d sdiv Second = d div Second" "d smod Second = d mod Second"
    using assms by (simp_all add: sdiv_nonneg)
  let ?s = "float_of_int (d div Second)" and ?n = "float_of_int (d mod Second)"
  have sn: "0 \<le> d div Second" "0 \<le> d mod Second" using assms by simp_all
  note fs = float_of_int_bounds [OF sn(1)] and fn = float_of_int_bounds [OF sn(2)]
  note fq = fdiv_bounds [OF fn(1) float_of_Second(3,2)]
  have eq: "Seconds d = fadd ?s (fdiv ?n (float_of_int Second))" by (simp only: Seconds_def s)
  show "pos_float (Seconds d)" unfolding eq using fs(1) fq(1) by (rule fadd_bounds)
  have "val (Seconds d) \<le> (val ?s + val (fdiv ?n (float_of_int Second))) * (1 + ulp)"
    unfolding eq using fs(1) fq(1) by (rule fadd_bounds)
  also have "\<dots> \<le> (of_int (d div Second) * (1 + ulp) + of_int (d mod Second) / 10 ^ 9 * (1 + ulp) ^ 2) * (1 + ulp)"
    using fs(2) fn(2) fq(2) by (simp add: field_simps power2_eq_square)
  also have "\<dots> \<le> (of_int (d div Second) * (1 + ulp) ^ 2 + of_int (d mod Second) / 10 ^ 9 * (1 + ulp) ^ 2) * (1 + ulp)"
    using sn by (intro mult_right_mono add_right_mono mult_left_mono)
       (simp_all add: power2_eq_square)
  also have "\<dots> = (of_int (d div Second) + of_int (d mod Second) / 10 ^ 9) * (1 + ulp) ^ 3"
    by (simp add: algebra_simps power2_eq_square power3_eq_cube)
  also have "of_int (d div Second) + of_int (d mod Second) / 10 ^ 9 = (of_int d / 10 ^ 9 :: real)"
  proof -
    have "(of_int (Second * (d div Second) + d mod Second) :: real) = of_int d"
      by (simp only: mult_div_mod_eq)
    then have "10 ^ 9 * of_int (d div Second) + of_int (d mod Second) = (of_int d :: real)"
      unfolding of_int_add of_int_mult by simp
    then show ?thesis by (simp add: field_simps)
  qed
  finally show "val (Seconds d) \<le> of_int d / 10 ^ 9 * (1 + ulp) ^ 3" .
qed

lemma int64_of_le:
  assumes "pos_float f"
  shows "of_int (int64_of f) \<le> val f"
proof -
  obtain n d where f: "f = (n, d)" by (cases f)
  with assms have nd: "0 \<le> n" "0 < d" by (simp_all add: pos_float_def)
  then have "n sdiv d = n div d" by (simp add: sdiv_nonneg)
  moreover have "of_int (n div d) \<le> val f"
    using real_of_int_div4 [of n d] by (simp add: f val_def)
  moreover have "0 \<le> val f" using assms by (rule val_nonneg)
  ultimately show ?thesis by (simp add: f Let_def)
qed

end
