(* ===== verification/Conn_Limiter.thy ===== *)
theory Conn_Limiter
  imports Pool Go_Float
begin

text \<open>
  Model of the \<open>ConnLimiter\<close> half of \<open>internal/pool/pool.go\<close>: the global and per-IP connection
  counters, the per-IP token bucket with its \<open>float64\<close> refill, and the keys derived from a
  peer address. A \<open>net.Addr\<close> is the text its \<open>String\<close> method gives, or nothing for \<open>nil\<close>. A
  \<open>ConnLease\<close> is the IP it was granted for, empty for a lease that counts globally only.
  Calls run one after the other here; the theory \<open>Interleaving\<close> takes their atomic steps
  apart. Instants are Unix nanoseconds.
\<close>

section \<open>State\<close>

record ipState =
  conns :: int
  tokens :: int
  lastAt :: int

record ConnLimiter =
  global :: int
  maxGlobal :: int
  maxPerIP :: int
  maxRPS :: int
  perIP :: "string \<rightharpoonup> ipState"

type_synonym ConnLease = string

definition NewConnLimiter :: "int \<Rightarrow> int \<Rightarrow> int \<Rightarrow> ConnLimiter" where
  "NewConnLimiter g i r =
     \<lparr>global = 0, maxGlobal = g, maxPerIP = i, maxRPS = r, perIP = Map.empty\<rparr>"

section \<open>Keys of a peer\<close>

definition peerKey :: "string option \<Rightarrow> string" where
  "peerKey peer =
     (case peer of
        None \<Rightarrow> ''''
      | Some s \<Rightarrow>
          (case SplitHostPort s of
             None \<Rightarrow> s
           | Some (host, port) \<Rightarrow>
               (case ParseIP host of None \<Rightarrow> host | Some ip \<Rightarrow> IP_String ip)))"

definition StickyKey :: "string option \<Rightarrow> u64" where
  "StickyKey peer = (let ip = peerKey peer in if ip = '''' then 0 else fnv64a ip)"

section \<open>Operations\<close>

definition fresh_ipState :: ipState where
  "fresh_ipState = \<lparr>conns = 0, tokens = 0, lastAt = 0\<rparr>"

text \<open>The token bucket: refill by the elapsed time, capped, then one token per request.\<close>

definition take_token :: "instant \<Rightarrow> int \<Rightarrow> ipState \<Rightarrow> ipState option" where
  "take_token now rps st =
     (let elapsed = i64 (now - lastAt st);
          add = int64_of (fmul (Seconds elapsed) (float_of_int rps));
          t = i64 (tokens st + add);
          t1 = (if t > rps then rps else t)
      in if t1 < 1 then None
         else Some (st\<lparr>tokens := t1 - 1, lastAt := now\<rparr>))"

definition set_ip :: "string \<Rightarrow> ipState \<Rightarrow> ConnLimiter \<Rightarrow> ConnLimiter" where
  "set_ip ip st cl = cl\<lparr>perIP := (perIP cl)(ip \<mapsto> st)\<rparr>"

definition Acquire :: "instant \<Rightarrow> string option \<Rightarrow> ConnLimiter \<Rightarrow> (pool_error + ConnLease) \<times> ConnLimiter" where
  "Acquire now peer cl =
     (let ip = peerKey peer;
          g = i64 (global cl + 1);
          cl1 = cl\<lparr>global := g\<rparr>
      in if maxGlobal cl > 0 \<and> g > maxGlobal cl
         then (Inl ErrGlobalConnLimit, cl1\<lparr>global := i64 (g - 1)\<rparr>)
         else if ip = '''' then (Inr '''', cl1)
         else
           (let st = (case perIP cl1 ip of Some st \<Rightarrow> st | None \<Rightarrow> fresh_ipState);
                n = i64 (conns st + 1);
                st1 = st\<lparr>conns := n\<rparr>;
                back = set_ip ip (st1\<lparr>conns := i64 (n - 1)\<rparr>) (cl1\<lparr>global := i64 (g - 1)\<rparr>)
            in if maxPerIP cl > 0 \<and> n > maxPerIP cl then (Inl ErrPerIPConnLimit, back)
               else if maxRPS cl > 0 then
                 (case take_token now (maxRPS cl) st1 of
                    None \<Rightarrow> (Inl ErrPerIPRPSLimit, back)
                  | Some st2 \<Rightarrow> (Inr ip, set_ip ip st2 cl1))
               else (Inr ip, set_ip ip st1 cl1)))"

definition ConnLease_Release :: "ConnLease \<Rightarrow> ConnLimiter \<Rightarrow> ConnLimiter" where
  "ConnLease_Release ip cl =
     (let cl1 = cl\<lparr>global := i64 (global cl - 1)\<rparr>
      in if ip = '''' then cl1
         else
           (case perIP cl1 ip of
              None \<Rightarrow> cl1
            | Some st \<Rightarrow> set_ip ip (st\<lparr>conns := i64 (conns st - 1)\<rparr>) cl1))"

definition Active :: "ConnLimiter \<Rightarrow> int" where
  "Active cl = global cl"

section \<open>Histories with the leases held\<close>

datatype lim_event = LAcquire instant "string option" | LRelease ConnLease

type_synonym lim_held = "ConnLimiter \<times> ConnLease multiset"

fun lim_step :: "lim_event \<Rightarrow> lim_held \<Rightarrow> lim_held" where
  "lim_step (LAcquire now peer) (cl, L) =
     (case Acquire now peer cl of
        (Inl e, cl') \<Rightarrow> (cl', L)
      | (Inr ip, cl') \<Rightarrow> (cl', add_mset ip L))"
| "lim_step (LRelease ip) (cl, L) = (ConnLease_Release ip cl, L - {#ip#})"

text \<open>A lease is released by its holder, and there are fewer than \<open>2 ^ 63 - 1\<close> of them.\<close>

fun lim_guard :: "lim_event \<Rightarrow> lim_held \<Rightarrow> bool" where
  "lim_guard (LAcquire now peer) (cl, L) \<longleftrightarrow> int (size L) + 1 < 2 ^ 63"
| "lim_guard (LRelease ip) (cl, L) \<longleftrightarrow> ip \<in># L"

text \<open>The state of an IP, seen or not.\<close>

definition bucket :: "ConnLimiter \<Rightarrow> string \<Rightarrow> ipState" where
  "bucket cl ip = (case perIP cl ip of None \<Rightarrow> fresh_ipState | Some st \<Rightarrow> st)"

definition lim_inv :: "lim_held \<Rightarrow> bool" where
  "lim_inv = (\<lambda>(cl, L). global cl = int (size L) \<and> int (size L) < 2 ^ 63 \<and>
     (\<forall>ip. ip \<noteq> '''' \<longrightarrow> conns (bucket cl ip) = int (count L ip)) \<and>
     (0 < maxGlobal cl \<longrightarrow> int (size L) \<le> maxGlobal cl) \<and>
     (0 < maxPerIP cl \<longrightarrow> (\<forall>ip. ip \<noteq> '''' \<longrightarrow> int (count L ip) \<le> maxPerIP cl)) \<and>
     (0 < maxRPS cl \<longrightarrow> (\<forall>ip. 0 \<le> tokens (bucket cl ip) \<and> tokens (bucket cl ip) \<le> maxRPS cl)))"

lemma set_ip_simps [simp]:
  "global (set_ip ip st cl) = global cl" "maxGlobal (set_ip ip st cl) = maxGlobal cl"
  "maxPerIP (set_ip ip st cl) = maxPerIP cl" "maxRPS (set_ip ip st cl) = maxRPS cl"
  "bucket (set_ip ip st cl) = (bucket cl)(ip := st)"
  "bucket (cl\<lparr>global := g\<rparr>) = bucket cl"
  by (auto simp: set_ip_def bucket_def)

lemma take_token_Some:
  "take_token now rps st = Some st' \<Longrightarrow>
     conns st' = conns st \<and> 0 \<le> tokens st' \<and> tokens st' < rps \<and> lastAt st' = now"
  by (auto simp: take_token_def Let_def split: if_splits)

text \<open>
  What a call of \<open>Acquire\<close> does while no counter can overflow: refused, it has undone its
  increments; granted, it respects the limits and counts one more.
\<close>

definition acquired :: "instant \<Rightarrow> string \<Rightarrow> ConnLimiter \<Rightarrow> ConnLimiter \<Rightarrow> bool" where
  "acquired now ip cl cl' \<longleftrightarrow>
     (0 < maxGlobal cl \<longrightarrow> global cl + 1 \<le> maxGlobal cl) \<and>
     (if ip = '''' then cl' = cl\<lparr>global := global cl + 1\<rparr>
      else (0 < maxPerIP cl \<longrightarrow> conns (bucket cl ip) + 1 \<le> maxPerIP cl) \<and>
        (let st1 = (bucket cl ip)\<lparr>conns := conns (bucket cl ip) + 1\<rparr> in
         \<exists>st. (if 0 < maxRPS cl then take_token now (maxRPS cl) st1 = Some st else st = st1) \<and>
           cl' = set_ip ip st (cl\<lparr>global := global cl + 1\<rparr>)))"

lemma acquired_ip:
  assumes "acquired now ip cl cl'" and "ip \<noteq> ''''"
  obtains st where "cl' = set_ip ip st (cl\<lparr>global := global cl + 1\<rparr>)"
    and "conns st = conns (bucket cl ip) + 1"
    and "0 < maxRPS cl \<Longrightarrow>
      take_token now (maxRPS cl) ((bucket cl ip)\<lparr>conns := conns (bucket cl ip) + 1\<rparr>) = Some st"
    and "0 < maxRPS cl \<Longrightarrow> 0 \<le> tokens st \<and> tokens st \<le> maxRPS cl"
    and "0 < maxPerIP cl \<Longrightarrow> conns (bucket cl ip) + 1 \<le> maxPerIP cl"
proof -
  let ?st1 = "(bucket cl ip)\<lparr>conns := conns (bucket cl ip) + 1\<rparr>"
  from assms obtain st where
    st: "if 0 < maxRPS cl then take_token now (maxRPS cl) ?st1 = Some st else st = ?st1"
      "cl' = set_ip ip st (cl\<lparr>global := global cl + 1\<rparr>)"
      "0 < maxPerIP cl \<longrightarrow> conns (bucket cl ip) + 1 \<le> maxPerIP cl"
    unfolding acquired_def Let_def by metis
  show ?thesis
  proof (rule that [OF st(2)])
    show "conns st = conns (bucket cl ip) + 1"
      using st(1) take_token_Some [of now "maxRPS cl" ?st1 st] by (simp split: if_splits)
    show "0 < maxRPS cl \<Longrightarrow> 0 \<le> tokens st \<and> tokens st \<le> maxRPS cl"
      using st(1) take_token_Some [of now "maxRPS cl" ?st1 st] by (simp split: if_splits)
  qed (use st in simp_all)
qed

lemma Acquire_spec:
  assumes "0 \<le> global cl" "global cl + 1 < 2 ^ 63"
    and "ip \<noteq> '''' \<Longrightarrow> 0 \<le> conns (bucket cl ip) \<and> conns (bucket cl ip) + 1 < 2 ^ 63"
    and "ip = peerKey peer" and "Acquire now peer cl = (r, cl')"
  shows "case r of
      Inl e \<Rightarrow> cl' = cl \<or> cl' = set_ip ip (bucket cl ip) cl
    | Inr k \<Rightarrow> k = ip \<and> acquired now ip cl cl'"
proof (cases "ip = ''''")
  case True
  with assms show ?thesis
    by (auto simp: Acquire_def acquired_def Let_def split: if_splits sum.splits)
next
  case False
  let ?st = "bucket cl ip"
  have st: "(case perIP (cl\<lparr>global := g\<rparr>) ip of Some st \<Rightarrow> st | None \<Rightarrow> fresh_ipState) = ?st" for g
    by (simp add: bucket_def split: option.split)
  show ?thesis
    using assms(1,2) assms(3) [OF False] assms(5) False
    unfolding Acquire_def Let_def assms(4) [symmetric] st
    by (auto simp: acquired_def split: if_splits option.splits dest: take_token_Some)
qed

lemma lim_inv_granted:
  assumes "lim_inv (cl, L)" and "int (size L) + 1 < 2 ^ 63" and "acquired now ip cl cl'"
  shows "lim_inv (cl', add_mset ip L)"
proof (cases "ip = ''''")
  case True
  with assms show ?thesis by (auto simp: lim_inv_def acquired_def)
next
  case False
  have g: "0 < maxGlobal cl \<longrightarrow> global cl + 1 \<le> maxGlobal cl"
    using assms(3) by (simp add: acquired_def)
  from acquired_ip [OF assms(3) False] obtain st where
    st: "cl' = set_ip ip st (cl\<lparr>global := global cl + 1\<rparr>)" "conns st = conns (bucket cl ip) + 1"
      "0 < maxRPS cl \<Longrightarrow> 0 \<le> tokens st \<and> tokens st \<le> maxRPS cl"
      "0 < maxPerIP cl \<Longrightarrow> conns (bucket cl ip) + 1 \<le> maxPerIP cl" by metis
  with g assms(1,2) False show ?thesis by (simp add: lim_inv_def add.commute)
qed

lemma lim_inv_acquire:
  assumes "lim_inv (cl, L)" and "int (size L) + 1 < 2 ^ 63" and "Acquire now peer cl = (r, cl')"
  shows "case r of Inl e \<Rightarrow> lim_inv (cl', L) | Inr ip \<Rightarrow> lim_inv (cl', add_mset ip L)"
    and "maxRPS cl' = maxRPS cl" and "ip \<noteq> peerKey peer \<Longrightarrow> bucket cl' ip = bucket cl ip"
    and "case r of Inl e \<Rightarrow> bucket cl' = bucket cl | Inr k \<Rightarrow> k = peerKey peer \<and> acquired now k cl cl'"
proof -
  let ?ip = "peerKey peer"
  have "conns (bucket cl ?ip) = int (count L ?ip)" if "?ip \<noteq> ''''"
    using that assms(1) by (simp add: lim_inv_def)
  moreover have "count L ?ip \<le> size L" by (rule count_le_size)
  ultimately have c: "?ip \<noteq> '''' \<Longrightarrow> 0 \<le> conns (bucket cl ?ip) \<and> conns (bucket cl ?ip) + 1 < 2 ^ 63"
    using assms(2) by linarith
  have g: "0 \<le> global cl" "global cl + 1 < 2 ^ 63" using assms(1,2) by (simp_all add: lim_inv_def)
  note spec = Acquire_spec [OF g c refl assms(3)]
  show "maxRPS cl' = maxRPS cl"
    using spec by (cases r) (auto simp: acquired_def Let_def split: if_splits)
  show "bucket cl' ip = bucket cl ip" if "ip \<noteq> ?ip"
    using spec that by (cases r) (auto simp: acquired_def Let_def split: if_splits)
  show "case r of Inl e \<Rightarrow> bucket cl' = bucket cl | Inr k \<Rightarrow> k = ?ip \<and> acquired now k cl cl'"
    using spec by (cases r) auto
  show "case r of Inl e \<Rightarrow> lim_inv (cl', L) | Inr ip \<Rightarrow> lim_inv (cl', add_mset ip L)"
  proof (cases r)
    case (Inl e)
    with spec assms(1) show ?thesis by (auto simp: lim_inv_def)
  next
    case (Inr k)
    with spec have "k = ?ip" "acquired now ?ip cl cl'" by simp_all
    with Inr lim_inv_granted [OF assms(1,2)] show ?thesis by simp
  qed
qed

lemma ConnLease_Release_eq:
  assumes "lim_inv (cl, L)" and "ip \<in># L"
  shows "ConnLease_Release ip cl =
    (if ip = '''' then cl\<lparr>global := global cl - 1\<rparr>
     else set_ip ip ((bucket cl ip)\<lparr>conns := conns (bucket cl ip) - 1\<rparr>) (cl\<lparr>global := global cl - 1\<rparr>))"
proof -
  have n: "0 < size L" using assms(2) by (cases L) auto
  have c: "0 < count L ip" "count L ip \<le> size L" using assms(2) by (simp_all add: count_le_size)
  show ?thesis
  proof (cases "ip = ''''")
    case True
    with assms(1) n show ?thesis by (simp add: ConnLease_Release_def lim_inv_def Let_def)
  next
    case False
    with assms(1) have st: "conns (bucket cl ip) = int (count L ip)" "int (size L) < 2 ^ 63"
      by (simp_all add: lim_inv_def)
    then have "perIP cl ip = Some (bucket cl ip)"
      using c by (auto simp: bucket_def fresh_ipState_def count_eq_zero_iff split: option.splits)
    with False st c n assms(1) show ?thesis
      by (simp add: ConnLease_Release_def Let_def lim_inv_def)
  qed
qed

lemma lim_inv_release:
  assumes "lim_inv (cl, L)" and "ip \<in># L"
  shows "lim_inv (ConnLease_Release ip cl, L - {#ip#})"
proof -
  have s: "int (size (L - {#ip#})) = int (size L) - 1" "int (count (L - {#ip#}) ip) = int (count L ip) - 1"
    using assms(2) by (auto simp: size_Diff_singleton Suc_leI of_nat_diff gr0_conv_Suc dest!: multi_member_split)
  show ?thesis
    unfolding ConnLease_Release_eq [OF assms]
    using assms(1) s by (auto simp: lim_inv_def)
qed

lemma lim_inv_step: "lim_inv s \<Longrightarrow> lim_guard e s \<Longrightarrow> lim_inv (lim_step e s)"
proof (cases "(e, s)" rule: lim_step.cases)
  case (1 now peer cl L)
  obtain r cl' where a: "Acquire now peer cl = (r, cl')" by (cases "Acquire now peer cl")
  assume "lim_inv s" "lim_guard e s"
  with 1 a lim_inv_acquire(1) [of cl L now peer r cl'] show ?thesis by (auto split: sum.splits)
qed (auto intro: lim_inv_release)

interpretation limits: event_machine lim_step lim_guard lim_inv
  by unfold_locales (rule lim_inv_step)

lemma lim_inv_New: "lim_inv (NewConnLimiter g i r, {#})"
  by (simp add: lim_inv_def NewConnLimiter_def bucket_def fresh_ipState_def)

section \<open>The rate of one IP\<close>

text \<open>The requests of an IP that are granted, and the times of a history.\<close>

fun lim_granted :: "string \<Rightarrow> lim_event \<Rightarrow> lim_held \<Rightarrow> int" where
  "lim_granted ip (LAcquire now peer) (cl, L) =
     (if fst (Acquire now peer cl) = Inr ip then 1 else 0)"
| "lim_granted ip (LRelease k) s = 0"

fun lim_times :: "lim_event list \<Rightarrow> instant list" where
  "lim_times [] = []"
| "lim_times (LAcquire now peer # es) = now # lim_times es"
| "lim_times (LRelease k # es) = lim_times es"

text \<open>Tokens per nanosecond, with the rounding of the five float operations.\<close>

definition rate :: "int \<Rightarrow> real" where
  "rate rps = of_int rps / 10 ^ 9 * (1 + ulp) ^ 5"

lemma refill_le:
  assumes "0 \<le> d" and "0 < rps"
  shows "of_int (int64_of (fmul (Seconds d) (float_of_int rps))) \<le> of_int d * rate rps"
proof -
  have R: "pos_float (float_of_int rps)" "val (float_of_int rps) \<le> of_int rps * (1 + ulp)"
    using float_of_int_bounds [of rps] assms(2) by simp_all
  note S = Seconds_bounds [OF assms(1)]
  note M = fmul_bounds [OF S(1) R(1)]
  have "of_int (int64_of (fmul (Seconds d) (float_of_int rps))) \<le> val (fmul (Seconds d) (float_of_int rps))"
    using M(1) by (rule int64_of_le)
  also have "\<dots> \<le> val (Seconds d) * val (float_of_int rps) * (1 + ulp)" by (rule M(2))
  also have "\<dots> \<le> of_int d / 10 ^ 9 * (1 + ulp) ^ 3 * (of_int rps * (1 + ulp)) * (1 + ulp)"
    using S R assms by (intro mult_right_mono mult_mono val_nonneg) simp_all
  also have "\<dots> = of_int d * rate rps" by (simp add: rate_def power_def)
  finally show ?thesis .
qed

lemma take_token_le:
  assumes "take_token now rps st = Some st'" and "0 < rps" and "0 \<le> tokens st"
    and "0 \<le> lastAt st" and "lastAt st \<le> now" and "now < 2 ^ 63"
  shows "of_int (tokens st') + 1 \<le> of_int (tokens st) + of_int (now - lastAt st) * rate rps"
proof -
  let ?add = "int64_of (fmul (Seconds (now - lastAt st)) (float_of_int rps))"
  have el: "i64 (now - lastAt st) = now - lastAt st" using assms(4-6) by simp
  have "- (2 ^ 63) \<le> ?add" by (cases "fmul (Seconds (now - lastAt st)) (float_of_int rps)") (simp add: Let_def)
  then have "i64 (tokens st + ?add) \<le> tokens st + ?add" using assms(3) by (intro i64_le) simp
  then have "tokens st' + 1 \<le> tokens st + ?add"
    using assms(1) el by (auto simp: take_token_def Let_def split: if_splits)
  then have "(of_int (tokens st' + 1) :: real) \<le> of_int (tokens st + ?add)"
    by (simp only: of_int_le_iff)
  also have "\<dots> \<le> of_int (tokens st) + of_int (now - lastAt st) * rate rps"
    using refill_le [of "now - lastAt st" rps] assms(2,5) by simp
  finally show ?thesis by simp
qed

lemma lim_step_bucket:
  assumes "lim_inv (cl, L)" and "lim_guard e (cl, L)" and "lim_step e (cl, L) = (cl', L')"
  shows "maxRPS cl' = maxRPS cl"
    and "(\<exists>now peer. e = LAcquire now peer \<and> lim_granted ip e (cl, L) = 1 \<and> acquired now ip cl cl') \<or>
      lim_granted ip e (cl, L) = 0 \<and> tokens (bucket cl' ip) = tokens (bucket cl ip) \<and>
      lastAt (bucket cl' ip) = lastAt (bucket cl ip)"
proof -
  have "maxRPS cl' = maxRPS cl \<and>
      ((\<exists>now peer. e = LAcquire now peer \<and> lim_granted ip e (cl, L) = 1 \<and> acquired now ip cl cl') \<or>
      lim_granted ip e (cl, L) = 0 \<and> tokens (bucket cl' ip) = tokens (bucket cl ip) \<and>
      lastAt (bucket cl' ip) = lastAt (bucket cl ip))"
  proof (cases e)
    case (LAcquire now peer)
    obtain r c where a: "Acquire now peer cl = (r, c)" by (cases "Acquire now peer cl")
    with LAcquire assms(3) have c: "c = cl'" by (auto split: sum.splits)
    note spec = lim_inv_acquire [OF assms(1) _ a, unfolded c]
    have room: "int (size L) + 1 < 2 ^ 63" using assms(2) LAcquire by simp
    show ?thesis
    proof (cases "r = Inr ip")
      case True
      with LAcquire a spec(2,4) [OF room] show ?thesis by auto
    next
      case False
      then have "bucket cl' ip = bucket cl ip"
        using spec(3,4) [OF room] by (cases r) auto
      with False LAcquire a spec(2) [OF room] show ?thesis by simp
    qed
  next
    case (LRelease k)
    with assms(2) have "k \<in># L" by simp
    note eq = ConnLease_Release_eq [OF assms(1) this]
    have "cl' = ConnLease_Release k cl" using LRelease assms(3) by simp
    then show ?thesis using LRelease by (simp add: eq)
  qed
  then show "maxRPS cl' = maxRPS cl"
    and "(\<exists>now peer. e = LAcquire now peer \<and> lim_granted ip e (cl, L) = 1 \<and> acquired now ip cl cl') \<or>
      lim_granted ip e (cl, L) = 0 \<and> tokens (bucket cl' ip) = tokens (bucket cl ip) \<and>
      lastAt (bucket cl' ip) = lastAt (bucket cl ip)"
    by blast+
qed

lemma acquired_rate:
  assumes "acquired now ip cl cl'" and "ip \<noteq> ''''" and "0 < maxRPS cl"
  shows "tokens (bucket cl' ip) + 1 \<le> maxRPS cl" and "lastAt (bucket cl' ip) = now"
    and "0 \<le> tokens (bucket cl ip) \<Longrightarrow> 0 \<le> lastAt (bucket cl ip) \<Longrightarrow>
      lastAt (bucket cl ip) \<le> now \<Longrightarrow> now < 2 ^ 63 \<Longrightarrow>
      of_int (tokens (bucket cl' ip)) + 1
        \<le> of_int (tokens (bucket cl ip)) + of_int (now - lastAt (bucket cl ip)) * rate (maxRPS cl)"
proof -
  let ?st1 = "(bucket cl ip)\<lparr>conns := conns (bucket cl ip) + 1\<rparr>"
  from acquired_ip [OF assms(1,2)] obtain st where
    st: "cl' = set_ip ip st (cl\<lparr>global := global cl + 1\<rparr>)"
      "0 < maxRPS cl \<Longrightarrow> take_token now (maxRPS cl) ?st1 = Some st" by metis
  note t = st(2) [OF assms(3)]
  show "tokens (bucket cl' ip) + 1 \<le> maxRPS cl" "lastAt (bucket cl' ip) = now"
    using take_token_Some [OF t] by (simp_all add: st(1))
  show "of_int (tokens (bucket cl' ip)) + 1
        \<le> of_int (tokens (bucket cl ip)) + of_int (now - lastAt (bucket cl ip)) * rate (maxRPS cl)"
    if "0 \<le> tokens (bucket cl ip)" "0 \<le> lastAt (bucket cl ip)"
      "lastAt (bucket cl ip) \<le> now" "now < 2 ^ 63"
    using take_token_le [OF t assms(3)] that by (simp add: st(1))
qed

text \<open>From an instant at which the bucket was last charged.\<close>

lemma grants_since:
  assumes "lim_inv (cl, L)" and "allowed lim_step lim_guard es (cl, L)"
    and "ip \<noteq> ''''" and "0 < maxRPS cl" and "sorted (lim_times es)" and "0 \<le> lastAt (bucket cl ip)"
    and "\<forall>t \<in> set (lim_times es). lastAt (bucket cl ip) \<le> t \<and> t \<le> fin" and "fin < 2 ^ 63"
    and "lastAt (bucket cl ip) \<le> fin"
  shows "of_int (total lim_step (lim_granted ip) es (cl, L))
    \<le> of_int (tokens (bucket cl ip)) + of_int (fin - lastAt (bucket cl ip)) * rate (maxRPS cl)"
  using assms
proof (induction es arbitrary: cl L)
  case Nil
  then have "0 \<le> tokens (bucket cl ip)" by (simp add: lim_inv_def)
  moreover have "0 \<le> of_int (fin - lastAt (bucket cl ip)) * rate (maxRPS cl)"
    using Nil by (simp add: rate_def)
  ultimately show ?case by simp
next
  case (Cons e es)
  obtain cl' L' where s: "lim_step e (cl, L) = (cl', L')" by (cases "lim_step e (cl, L)")
  have ge: "lim_guard e (cl, L)" using Cons.prems(2) by simp
  have inv: "lim_inv (cl', L')" using lim_inv_step [OF Cons.prems(1) ge] s by simp
  note bk = lim_step_bucket [OF Cons.prems(1) ge s]
  have al: "allowed lim_step lim_guard es (cl', L')" using Cons.prems(2) s by simp
  have srt: "sorted (lim_times es)" using Cons.prems(5) by (cases e) simp_all
  have ts: "\<forall>t \<in> set (lim_times es). lastAt (bucket cl ip) \<le> t \<and> t \<le> fin"
    using Cons.prems(7) by (cases e) simp_all
  from bk(2) [of ip] show ?case
  proof (elim disjE exE conjE)
    fix now peer
    assume e: "e = LAcquire now peer" and gr: "lim_granted ip e (cl, L) = 1" and a: "acquired now ip cl cl'"
    have now: "lastAt (bucket cl ip) \<le> now" "now \<le> fin" "\<forall>t \<in> set (lim_times es). now \<le> t"
      using Cons.prems(5,7) e by auto
    note r = acquired_rate [OF a Cons.prems(3,4)]
    have "0 \<le> tokens (bucket cl ip)" using Cons.prems(1,4) by (simp add: lim_inv_def)
    then have "of_int (tokens (bucket cl' ip)) + 1
        \<le> of_int (tokens (bucket cl ip)) + of_int (now - lastAt (bucket cl ip)) * rate (maxRPS cl)"
      using Cons.prems(6,8) now by (intro r(3)) simp_all
    moreover have "of_int (total lim_step (lim_granted ip) es (cl', L'))
        \<le> of_int (tokens (bucket cl' ip)) + of_int (fin - now) * rate (maxRPS cl)"
      using Cons.IH [OF inv al Cons.prems(3)] bk(1) r(2) Cons.prems(4,6,8) srt ts now by simp
    ultimately show ?thesis using gr s by (simp add: algebra_simps)
  next
    assume "lim_granted ip e (cl, L) = 0" "tokens (bucket cl' ip) = tokens (bucket cl ip)"
      "lastAt (bucket cl' ip) = lastAt (bucket cl ip)"
    with Cons.IH [OF inv al Cons.prems(3)] bk(1) Cons.prems srt ts s show ?thesis by simp
  qed
qed

lemma grants_total:
  assumes "lim_inv (cl, L)" and "allowed lim_step lim_guard es (cl, L)"
    and "ip \<noteq> ''''" and "0 < maxRPS cl" and "sorted (lim_times es)" and "0 \<le> start"
    and "\<forall>t \<in> set (lim_times es). start \<le> t \<and> t \<le> fin" and "fin < 2 ^ 63" and "start \<le> fin"
  shows "of_int (total lim_step (lim_granted ip) es (cl, L))
    \<le> of_int (maxRPS cl) + of_int (fin - start) * rate (maxRPS cl)"
  using assms
proof (induction es arbitrary: cl L)
  case Nil
  then show ?case by (simp add: rate_def)
next
  case (Cons e es)
  obtain cl' L' where s: "lim_step e (cl, L) = (cl', L')" by (cases "lim_step e (cl, L)")
  have ge: "lim_guard e (cl, L)" using Cons.prems(2) by simp
  have inv: "lim_inv (cl', L')" using lim_inv_step [OF Cons.prems(1) ge] s by simp
  note bk = lim_step_bucket [OF Cons.prems(1) ge s]
  have al: "allowed lim_step lim_guard es (cl', L')" using Cons.prems(2) s by simp
  have srt: "sorted (lim_times es)" using Cons.prems(5) by (cases e) simp_all
  have ts: "\<forall>t \<in> set (lim_times es). start \<le> t \<and> t \<le> fin"
    using Cons.prems(7) by (cases e) simp_all
  from bk(2) [of ip] show ?case
  proof (elim disjE exE conjE)
    fix now peer
    assume e: "e = LAcquire now peer" and gr: "lim_granted ip e (cl, L) = 1" and a: "acquired now ip cl cl'"
    have now: "start \<le> now" "now \<le> fin" "\<forall>t \<in> set (lim_times es). now \<le> t"
      using Cons.prems(5,7) e by auto
    note r = acquired_rate(1,2) [OF a Cons.prems(3,4)]
    have "of_int (total lim_step (lim_granted ip) es (cl', L'))
        \<le> of_int (tokens (bucket cl' ip)) + of_int (fin - now) * rate (maxRPS cl)"
      using grants_since [OF inv al Cons.prems(3)] bk(1) r(2) Cons.prems(4,6,8) srt ts now by simp
    moreover have "(of_int (tokens (bucket cl' ip) + 1) :: real) \<le> of_int (maxRPS cl)"
      using r(1) by (simp only: of_int_le_iff)
    moreover have "of_int (fin - now) * rate (maxRPS cl) \<le> of_int (fin - start) * rate (maxRPS cl)"
      using now Cons.prems(4) by (intro mult_right_mono) (simp_all add: rate_def)
    ultimately show ?thesis using gr s by simp
  next
    assume "lim_granted ip e (cl, L) = 0"
    with Cons.IH [OF inv al Cons.prems(3)] bk(1) Cons.prems(4-9) srt ts s show ?thesis by simp
  qed
qed

section \<open>Properties\<close>

text \<open>The limiter counts exactly and never exceeds its limits. After any
  history of acquisitions and releases of held leases, refused ones included, the number of
  active connections is the number of leases out; where a limit is set it is not exceeded,
  globally or for any IP; and a refused acquisition leaves no count behind.\<close>

theorem limits_respected:
  assumes "allowed lim_step lim_guard es (NewConnLimiter g i r, {#})"
    and "exec lim_step es (NewConnLimiter g i r, {#}) = (cl, L)"
  shows "Active cl = int (size L) \<and> (\<forall>ip. ip \<noteq> '''' \<longrightarrow> conns (bucket cl ip) = int (count L ip)) \<and>
    (0 < g \<longrightarrow> int (size L) \<le> g) \<and> (0 < i \<longrightarrow> (\<forall>ip. ip \<noteq> '''' \<longrightarrow> int (count L ip) \<le> i))"
proof -
  have "maxGlobal (fst s') = maxGlobal (fst s) \<and> maxPerIP (fst s') = maxPerIP (fst s)"
    if "s' = exec lim_step es s" for es s s'
    using that
  proof (induction es arbitrary: s)
    case Nil
    then show ?case by simp
  next
    case (Cons e es)
    have "maxGlobal (fst (lim_step e s)) = maxGlobal (fst s) \<and> maxPerIP (fst (lim_step e s)) = maxPerIP (fst s)"
      by (cases "(e, s)" rule: lim_step.cases)
        (auto simp: Acquire_def ConnLease_Release_def Let_def split: sum.splits option.splits if_splits)
    with Cons show ?case by simp
  qed
  from this [OF assms(2) [symmetric]] have "maxGlobal cl = g" "maxPerIP cl = i"
    by (simp_all add: NewConnLimiter_def)
  moreover have "lim_inv (cl, L)"
    unfolding assms(2) [symmetric] using lim_inv_New assms(1) by (rule limits.inv_exec)
  ultimately show ?thesis by (auto simp: lim_inv_def Active_def)
qed

definition sample_requests :: "lim_event list" where
  "sample_requests =
     [LAcquire (2 * Second) (Some ''1.2.3.4:5000''), LAcquire (2 * Second) (Some ''1.2.3.4:5001''),
      LAcquire (2 * Second) None, LRelease ''1.2.3.4'',
      LAcquire (2 * Second) (Some ''1.2.3.4:5002''), LAcquire (2500000000) (Some ''1.2.3.4:5003'')]"

lemma limits_respected_witness:
  "let (cl, L) = exec lim_step sample_requests (NewConnLimiter 2 1 0, {#}) in
   Active cl = 2 \<and> int (size L) = 2 \<and> conns (bucket cl ''1.2.3.4'') = 1"
proof -
  obtain cl L where e: "exec lim_step sample_requests (NewConnLimiter 2 1 0, {#}) = (cl, L)"
    by (cases "exec lim_step sample_requests (NewConnLimiter 2 1 0, {#})")
  have "case exec lim_step sample_requests (NewConnLimiter 2 1 0, {#}) of (cl, L) \<Rightarrow>
      size L = 2 \<and> count L ''1.2.3.4'' = 1"
    by code_simp
  moreover have "allowed lim_step lim_guard sample_requests (NewConnLimiter 2 1 0, {#})"
    by code_simp
  ultimately show ?thesis using limits_respected [OF _ e] by (simp add: e)
qed

text \<open>C23 (bounds): the token bucket limits the rate. Over any history in which time does not
  run backwards, whatever the other clients do, the requests of one IP that are granted between
  two instants number at most the bucket size \<open>maxRPS\<close> plus \<open>maxRPS\<close> per second elapsed, up to
  the rounding of the five \<open>float64\<close> operations of the refill (a factor below
  \<open>1 + 10 ^ -15\<close>).\<close>

theorem rate_limited:
  assumes "lim_inv (cl, L)" and "allowed lim_step lim_guard es (cl, L)"
    and "ip \<noteq> ''''" and "0 < maxRPS cl" and "sorted (lim_times es)"
    and "\<forall>t \<in> set (lim_times es). start \<le> t \<and> t \<le> fin" and "0 \<le> start" and "start \<le> fin"
    and "fin < 2 ^ 63"
  shows "of_int (total lim_step (lim_granted ip) es (cl, L))
    \<le> of_int (maxRPS cl) +
      of_int (fin - start) / 10 ^ 9 * of_int (maxRPS cl) * (1 + 1 / 2 ^ 53 :: real) ^ 5"
  using grants_total [OF assms(1-5,7,6,9,8)] by (simp add: rate_def)

lemma rate_limited_witness:
  "total lim_step (lim_granted ''1.2.3.4'') sample_requests (NewConnLimiter 0 0 2, {#}) = 3 \<and>
   (3 :: real) \<le> 2 + 5 * 10 ^ 8 / 10 ^ 9 * 2 * (1 + 1 / 2 ^ 53) ^ 5"
proof -
  have t: "total lim_step (lim_granted ''1.2.3.4'') sample_requests (NewConnLimiter 0 0 2, {#}) = 3"
    by code_simp
  have "allowed lim_step lim_guard sample_requests (NewConnLimiter 0 0 2, {#})"
    by code_simp
  moreover have "lim_times sample_requests =
      [2 * Second, 2 * Second, 2 * Second, 2 * Second, 2500000000]"
    by (simp add: sample_requests_def)
  ultimately show ?thesis
    using rate_limited [OF lim_inv_New, of sample_requests 0 0 2 "''1.2.3.4''" "2 * Second" 2500000000] t
    by (simp add: NewConnLimiter_def)
qed

text \<open>The per-IP key is the IP. All connections from one IPv4 address have
  one key, whatever their port, and two addresses have two keys, so a client cannot leave its
  bucket, nor enter another's, by choosing a port; the sticky key is the FNV-1a hash of it.\<close>

theorem peer_key_is_the_address:
  assumes "set port \<inter> {CHR '':'', CHR ''['', CHR '']''} = {}"
    and "set port' \<inter> {CHR '':'', CHR ''['', CHR '']''} = {}"
  shows "peerKey (Some (v4_string [a, b, c, d] @ CHR '':'' # port)) = v4_string [a, b, c, d] \<and>
    StickyKey (Some (v4_string [a, b, c, d] @ CHR '':'' # port)) = fnv64a (v4_string [a, b, c, d]) \<and>
    (peerKey (Some (v4_string [a, b, c, d] @ CHR '':'' # port)) =
       peerKey (Some (v4_string [a', b', c', d'] @ CHR '':'' # port')) \<longleftrightarrow>
     [a, b, c, d] = [a', b', c', d'])"
proof -
  have key: "peerKey (Some (v4_string [w, x, y, z] @ CHR '':'' # p)) = v4_string [w, x, y, z]"
    if "set p \<inter> {CHR '':'', CHR ''['', CHR '']''} = {}" for w x y z p
    using SplitHostPort_v4 [OF that]
    by (simp add: peerKey_def ParseIP_v4_string IP_String_v4 del: v4_string.simps)
  show ?thesis
    using key [OF assms(1)] key [OF assms(2)] v4_string_nonempty v4_string_inj
    by (simp add: StickyKey_def Let_def del: v4_string.simps)
qed

lemma peer_key_is_the_address_witness:
  "peerKey (Some (v4_string [10, 0, 0, 1] @ '':50000'')) = v4_string [10, 0, 0, 1]"
  using peer_key_is_the_address [of "''50000''" "''1''" 10 0 0 1] by simp

end
