(* ===== verification/Interleaving.thy ===== *)
theory Interleaving
  imports Conn_Limiter
begin

text \<open>
  The two lock-free counters of \<open>internal/pool\<close> under contention. Any number of goroutines run
  the code at once, and a step of the system is one atomic access of one of them, in any
  order: the load and the compare-and-swap of \<open>Backend.TryAcquire\<close>, and the additions of
  \<open>ConnLimiter.Acquire\<close> and \<open>ConnLease.Release\<close> with the tests between them. What a goroutine
  does next is its program counter.
\<close>

section \<open>Counting goroutines\<close>

definition cnt :: "('p \<Rightarrow> bool) \<Rightarrow> 'p list \<Rightarrow> int" where
  "cnt P ps = int (length (filter P ps))"

lemma cnt_simps [simp]: "cnt P [] = 0" "cnt P (p # ps) = (if P p then 1 else 0) + cnt P ps"
  by (simp_all add: cnt_def)

lemma cnt_update:
  "i < length ps \<Longrightarrow>
     cnt P (ps[i := p]) = cnt P ps - (if P (ps ! i) then 1 else 0) + (if P p then 1 else 0)"
proof (induction ps arbitrary: i)
  case Nil
  then show ?case by simp
next
  case (Cons q ps)
  then show ?case by (cases i) auto
qed

lemma cnt_nonneg [simp]: "0 \<le> cnt P ps"
  by (simp add: cnt_def)

lemma cnt_pos: "i < length ps \<Longrightarrow> P (ps ! i) \<Longrightarrow> 1 \<le> cnt P ps"
proof -
  assume "i < length ps" "P (ps ! i)"
  then have "ps ! i \<in> set (filter P ps)" by simp
  then show ?thesis by (cases "filter P ps") (auto simp: cnt_def)
qed

lemma cnt_le_length: "cnt P ps \<le> int (length ps)"
  by (simp add: cnt_def)

lemma cnt_mono: "(\<And>p. P p \<Longrightarrow> Q p) \<Longrightarrow> cnt P ps \<le> cnt Q ps"
  by (induction ps) auto

lemma cnt_replicate: "\<not> P p \<Longrightarrow> cnt P (replicate n p) = 0"
  by (simp add: cnt_def)

section \<open>The contract of a bounded counter\<close>

text \<open>
  A protocol is a step relation with an invariant that bounds the number of holders; then no
  interleaving exceeds the bound.
\<close>

locale bounded_protocol =
  fixes step :: "'s \<Rightarrow> 's \<Rightarrow> bool"
    and inv :: "'s \<Rightarrow> bool"
    and holders :: "'s \<Rightarrow> int"
    and bound :: int
  assumes inv_step: "inv s \<Longrightarrow> step s s' \<Longrightarrow> inv s'"
    and inv_bound: "inv s \<Longrightarrow> holders s \<le> bound"
begin

lemma inv_reach: "step\<^sup>*\<^sup>* s s' \<Longrightarrow> inv s \<Longrightarrow> inv s'"
  by (induction rule: rtranclp_induct) (auto intro: inv_step)

lemma holders_bounded: "step\<^sup>*\<^sup>* s s' \<Longrightarrow> inv s \<Longrightarrow> holders s' \<le> bound"
  by (rule inv_bound) (rule inv_reach)

end

section \<open>\<open>TryAcquire\<close>\<close>

text \<open>
  The program counters: before the load, after it with the value read, holding a slot, and
  refused. A failed compare-and-swap goes back to the load; \<open>Release\<close> gives the slot back.
\<close>

datatype acq_pc = ALoad | ACas int | AHolding | ARefused | ADone

inductive acq_step :: "int \<Rightarrow> int \<times> acq_pc list \<Rightarrow> int \<times> acq_pc list \<Rightarrow> bool" for maxInflight where
  acq_load_full: "i < length ps \<Longrightarrow> ps ! i = ALoad \<Longrightarrow> n \<ge> maxInflight \<Longrightarrow>
    acq_step maxInflight (n, ps) (n, ps[i := ARefused])"
| acq_load: "i < length ps \<Longrightarrow> ps ! i = ALoad \<Longrightarrow> n < maxInflight \<Longrightarrow>
    acq_step maxInflight (n, ps) (n, ps[i := ACas n])"
| acq_cas: "i < length ps \<Longrightarrow> ps ! i = ACas cur \<Longrightarrow> n = cur \<Longrightarrow>
    acq_step maxInflight (n, ps) (i32 (cur + 1), ps[i := AHolding])"
| acq_cas_fail: "i < length ps \<Longrightarrow> ps ! i = ACas cur \<Longrightarrow> n \<noteq> cur \<Longrightarrow>
    acq_step maxInflight (n, ps) (n, ps[i := ALoad])"
| acq_release: "i < length ps \<Longrightarrow> ps ! i = AHolding \<Longrightarrow>
    acq_step maxInflight (n, ps) (i32 (n - 1), ps[i := ADone])"

inductive_cases acq_stepE: "acq_step m s s'"

definition acq_inv :: "int \<Rightarrow> int \<times> acq_pc list \<Rightarrow> bool" where
  "acq_inv m = (\<lambda>(n, ps). n = cnt (\<lambda>p. p = AHolding) ps \<and> n \<le> m \<and> m < 2 ^ 31 \<and>
     (\<forall>cur. ACas cur \<in> set ps \<longrightarrow> cur < m))"

lemma acq_inv_step:
  assumes "acq_inv m s" and "acq_step m s s'"
  shows "acq_inv m s'"
  using assms(2)
proof cases
  case (acq_release i ps n)
  then have n: "1 \<le> n" "n \<le> m" "m < 2 ^ 31"
    using assms(1) cnt_pos [of i ps "\<lambda>p. p = AHolding"] by (simp_all add: acq_inv_def)
  then have "i32 (n - 1) = n - 1" by (intro i32_id) simp_all
  with acq_release assms(1) show ?thesis
    by (auto simp: acq_inv_def cnt_update dest!: nth_mem_upd [OF acq_release(3)])
next
  case (acq_cas i ps cur n)
  have "ACas cur \<in> set ps" using acq_cas by (metis nth_mem)
  with assms(1) acq_cas have n: "cur < m" "0 \<le> cur" "m < 2 ^ 31"
    by (auto simp: acq_inv_def)
  then have "i32 (cur + 1) = cur + 1" by (intro i32_id) simp_all
  with assms(1) acq_cas n show ?thesis
    by (auto simp: acq_inv_def cnt_update dest!: nth_mem_upd [OF acq_cas(3)])
qed (use assms(1) in \<open>auto simp: acq_inv_def cnt_update dest!: nth_mem_upd\<close>)

interpretation slots_cas: bounded_protocol "acq_step m" "acq_inv m" "\<lambda>(n, ps). cnt (\<lambda>p. p = AHolding) ps" m
  for m
  by unfold_locales (rule acq_inv_step, assumption+, auto simp: acq_inv_def)

section \<open>\<open>ConnLimiter\<close>\<close>

text \<open>
  The program counters of a goroutine that calls \<open>Acquire\<close> for its IP and releases what it
  got: before the global addition; after it, with the value it returned; having to take the
  global addition back; after the per-IP addition, with its value; at the token bucket (whose
  mutex makes it one step, with either answer); having to take the per-IP addition back;
  refused; holding; between the two additions of \<open>Release\<close>.
\<close>

datatype lim_pc =
  LStart | LGlobal int | LUndoGlobal | LPerIP int | LBucket | LUndoPerIP | LRefused | LHeld
  | LReleasing | LDone

record lim_sys =
  g_count :: int
  ip_count :: "string \<Rightarrow> int"
  procs :: "(string \<times> lim_pc) list"

definition proc_at :: "nat \<Rightarrow> string \<Rightarrow> lim_pc \<Rightarrow> lim_sys \<Rightarrow> bool" where
  "proc_at i ip pc s \<longleftrightarrow> i < length (procs s) \<and> procs s ! i = (ip, pc)"

definition goto :: "nat \<Rightarrow> string \<Rightarrow> lim_pc \<Rightarrow> lim_sys \<Rightarrow> lim_sys" where
  "goto i ip pc s = s\<lparr>procs := (procs s)[i := (ip, pc)]\<rparr>"

definition add_global :: "int \<Rightarrow> lim_sys \<Rightarrow> lim_sys" where
  "add_global d s = s\<lparr>g_count := g_count s + d\<rparr>"

definition add_ip :: "string \<Rightarrow> int \<Rightarrow> lim_sys \<Rightarrow> lim_sys" where
  "add_ip ip d s = s\<lparr>ip_count := (ip_count s)(ip := ip_count s ip + d)\<rparr>"

inductive lim_sys_step :: "int \<Rightarrow> int \<Rightarrow> lim_sys \<Rightarrow> lim_sys \<Rightarrow> bool" for maxG maxI where
  ls_global: "proc_at i ip LStart s \<Longrightarrow>
    lim_sys_step maxG maxI s (goto i ip (LGlobal (g_count s + 1)) (add_global 1 s))"
| ls_global_full: "proc_at i ip (LGlobal g) s \<Longrightarrow> 0 < maxG \<and> maxG < g \<Longrightarrow>
    lim_sys_step maxG maxI s (goto i ip LUndoGlobal s)"
| ls_anonymous: "proc_at i ip (LGlobal g) s \<Longrightarrow> \<not> (0 < maxG \<and> maxG < g) \<Longrightarrow> ip = '''' \<Longrightarrow>
    lim_sys_step maxG maxI s (goto i ip LHeld s)"
| ls_per_ip: "proc_at i ip (LGlobal g) s \<Longrightarrow> \<not> (0 < maxG \<and> maxG < g) \<Longrightarrow> ip \<noteq> '''' \<Longrightarrow>
    lim_sys_step maxG maxI s (goto i ip (LPerIP (ip_count s ip + 1)) (add_ip ip 1 s))"
| ls_per_ip_full: "proc_at i ip (LPerIP n) s \<Longrightarrow> 0 < maxI \<and> maxI < n \<Longrightarrow>
    lim_sys_step maxG maxI s (goto i ip LUndoPerIP s)"
| ls_per_ip_ok: "proc_at i ip (LPerIP n) s \<Longrightarrow> \<not> (0 < maxI \<and> maxI < n) \<Longrightarrow>
    lim_sys_step maxG maxI s (goto i ip LBucket s)"
| ls_bucket_ok: "proc_at i ip LBucket s \<Longrightarrow> lim_sys_step maxG maxI s (goto i ip LHeld s)"
| ls_bucket_empty: "proc_at i ip LBucket s \<Longrightarrow> lim_sys_step maxG maxI s (goto i ip LUndoPerIP s)"
| ls_undo_ip: "proc_at i ip LUndoPerIP s \<Longrightarrow>
    lim_sys_step maxG maxI s (goto i ip LUndoGlobal (add_ip ip (- 1) s))"
| ls_undo_global: "proc_at i ip LUndoGlobal s \<Longrightarrow>
    lim_sys_step maxG maxI s (goto i ip LRefused (add_global (- 1) s))"
| ls_release: "proc_at i ip LHeld s \<Longrightarrow>
    lim_sys_step maxG maxI s (goto i ip (if ip = '''' then LDone else LReleasing) (add_global (- 1) s))"
| ls_release_ip: "proc_at i ip LReleasing s \<Longrightarrow>
    lim_sys_step maxG maxI s (goto i ip LDone (add_ip ip (- 1) s))"

inductive_cases lim_sys_stepE: "lim_sys_step maxG maxI s s'"

text \<open>Who is counted where, and who has been let through by each limit.\<close>

definition in_global :: "string \<times> lim_pc \<Rightarrow> bool" where
  "in_global p \<longleftrightarrow> (case snd p of LStart \<Rightarrow> False | LRefused \<Rightarrow> False | LReleasing \<Rightarrow> False
     | LDone \<Rightarrow> False | _ \<Rightarrow> True)"

definition in_ip :: "string \<Rightarrow> string \<times> lim_pc \<Rightarrow> bool" where
  "in_ip ip p \<longleftrightarrow> fst p = ip \<and> ip \<noteq> '''' \<and> (case snd p of LPerIP n \<Rightarrow> True | LBucket \<Rightarrow> True
     | LUndoPerIP \<Rightarrow> True | LHeld \<Rightarrow> True | LReleasing \<Rightarrow> True | _ \<Rightarrow> False)"

definition won_global :: "int \<Rightarrow> string \<times> lim_pc \<Rightarrow> bool" where
  "won_global m p \<longleftrightarrow> (case snd p of LGlobal g \<Rightarrow> g \<le> m | LPerIP n \<Rightarrow> True | LBucket \<Rightarrow> True
     | LHeld \<Rightarrow> True | _ \<Rightarrow> False)"

definition won_ip :: "int \<Rightarrow> string \<Rightarrow> string \<times> lim_pc \<Rightarrow> bool" where
  "won_ip m ip p \<longleftrightarrow> fst p = ip \<and> ip \<noteq> '''' \<and> (case snd p of LPerIP n \<Rightarrow> n \<le> m | LBucket \<Rightarrow> True
     | LHeld \<Rightarrow> True | _ \<Rightarrow> False)"

definition holds :: "string \<times> lim_pc \<Rightarrow> bool" where
  "holds p \<longleftrightarrow> snd p = LHeld"

lemma won_in: "won_global m p \<Longrightarrow> in_global p" "won_ip m ip p \<Longrightarrow> in_ip ip p"
  by (auto simp: won_global_def in_global_def won_ip_def in_ip_def split: lim_pc.splits)

lemma holds_won: "holds p \<Longrightarrow> won_global m p" "holds (ip, pc) \<Longrightarrow> ip \<noteq> '''' \<Longrightarrow> won_ip m ip (ip, pc)"
  by (auto simp: won_global_def won_ip_def holds_def)

definition lim_sys_inv :: "int \<Rightarrow> int \<Rightarrow> lim_sys \<Rightarrow> bool" where
  "lim_sys_inv maxG maxI s \<longleftrightarrow>
     g_count s = cnt in_global (procs s) \<and> (\<forall>ip. ip \<noteq> '''' \<longrightarrow> ip_count s ip = cnt (in_ip ip) (procs s)) \<and>
     (0 < maxG \<longrightarrow> cnt (won_global maxG) (procs s) \<le> maxG) \<and>
     (0 < maxI \<longrightarrow> (\<forall>ip. cnt (won_ip maxI ip) (procs s) \<le> maxI)) \<and>
     (\<forall>p \<in> set (procs s). fst p = '''' \<longrightarrow> (case snd p of LPerIP n \<Rightarrow> False | LBucket \<Rightarrow> False
        | LUndoPerIP \<Rightarrow> False | LReleasing \<Rightarrow> False | _ \<Rightarrow> True))"

lemma goto_simps [simp]:
  "procs (goto i ip pc s) = (procs s)[i := (ip, pc)]"
  "g_count (goto i ip pc s) = g_count s" "ip_count (goto i ip pc s) = ip_count s"
  "procs (add_global d s) = procs s" "g_count (add_global d s) = g_count s + d"
  "ip_count (add_global d s) = ip_count s"
  "procs (add_ip ip d s) = procs s" "g_count (add_ip ip d s) = g_count s"
  "ip_count (add_ip ip d s) = (ip_count s)(ip := ip_count s ip + d)"
  by (simp_all add: goto_def add_global_def add_ip_def)

lemma cnt_goto:
  "proc_at i ip pc s \<Longrightarrow> cnt P ((procs s)[i := q]) =
     cnt P (procs s) - (if P (ip, pc) then 1 else 0) + (if P q then 1 else 0)"
  by (simp add: proc_at_def cnt_update)

lemmas where_defs = in_global_def in_ip_def won_global_def won_ip_def

lemma lim_sys_step_local:
  assumes "\<forall>p \<in> set (procs s). Q p" and "i < length (procs s)" and "Q q"
  shows "\<forall>p \<in> set ((procs s)[i := q]). Q p"
  using assms by (auto dest!: nth_mem_upd)

lemma proc_at_named:
  assumes "lim_sys_inv maxG maxI s" and "proc_at i '''' pc s"
  shows "case pc of LPerIP n \<Rightarrow> False | LBucket \<Rightarrow> False | LUndoPerIP \<Rightarrow> False
     | LReleasing \<Rightarrow> False | _ \<Rightarrow> True"
  using assms by (auto simp: lim_sys_inv_def proc_at_def dest!: nth_mem bspec)

lemma lim_sys_inv_intro:
  assumes inv: "lim_sys_inv maxG maxI s" and pa: "proc_at i ip pc s"
    and ps: "procs s' = (procs s)[i := (ip, pc')]"
    and g: "g_count s' - g_count s = (if in_global (ip, pc') then 1 else 0) - (if in_global (ip, pc) then 1 else 0)"
    and c: "\<And>k. k \<noteq> '''' \<Longrightarrow> ip_count s' k - ip_count s k =
      (if in_ip k (ip, pc') then 1 else 0) - (if in_ip k (ip, pc) then 1 else 0)"
    and wg: "0 < maxG \<Longrightarrow> won_global maxG (ip, pc') \<Longrightarrow> won_global maxG (ip, pc) \<or> cnt in_global (procs s') \<le> maxG"
    and wi: "0 < maxI \<Longrightarrow> won_ip maxI ip (ip, pc') \<Longrightarrow> won_ip maxI ip (ip, pc) \<or> cnt (in_ip ip) (procs s') \<le> maxI"
    and an: "ip = '''' \<Longrightarrow> (case pc' of LPerIP n \<Rightarrow> False | LBucket \<Rightarrow> False | LUndoPerIP \<Rightarrow> False
     | LReleasing \<Rightarrow> False | _ \<Rightarrow> True)"
  shows "lim_sys_inv maxG maxI s'"
proof -
  note upd = cnt_goto [OF pa]
  have "g_count s' = cnt in_global (procs s')"
    using inv g by (auto simp: lim_sys_inv_def ps upd split: if_splits)
  moreover have "ip_count s' k = cnt (in_ip k) (procs s')" if "k \<noteq> ''''" for k
    using inv c [OF that] that by (auto simp: lim_sys_inv_def ps upd split: if_splits)
  moreover have "cnt (won_global maxG) (procs s') \<le> maxG" if "0 < maxG"
  proof (cases "won_global maxG (ip, pc') \<and> \<not> won_global maxG (ip, pc)")
    case True
    with wg that have "cnt in_global (procs s') \<le> maxG" by blast
    then show ?thesis using cnt_mono [of "won_global maxG" in_global "procs s'"] won_in(1) by fastforce
  next
    case False
    with inv that show ?thesis by (auto simp: lim_sys_inv_def ps upd)
  qed
  moreover have "cnt (won_ip maxI k) (procs s') \<le> maxI" if "0 < maxI" for k
  proof (cases "k = ip \<and> won_ip maxI ip (ip, pc') \<and> \<not> won_ip maxI ip (ip, pc)")
    case True
    with wi that have "cnt (in_ip ip) (procs s') \<le> maxI" by blast
    with True show ?thesis using cnt_mono [of "won_ip maxI ip" "in_ip ip" "procs s'"] won_in(2) by fastforce
  next
    case False
    have "k \<noteq> ip \<Longrightarrow> \<not> won_ip maxI k (ip, q)" for q by (simp add: won_ip_def)
    moreover have "cnt (won_ip maxI k) (procs s) \<le> maxI"
      using inv that by (simp add: lim_sys_inv_def)
    ultimately show ?thesis using False by (auto simp: ps upd)
  qed
  moreover have "\<forall>p \<in> set (procs s'). fst p = '''' \<longrightarrow> (case snd p of LPerIP n \<Rightarrow> False | LBucket \<Rightarrow> False
        | LUndoPerIP \<Rightarrow> False | LReleasing \<Rightarrow> False | _ \<Rightarrow> True)"
    unfolding ps
    by (rule lim_sys_step_local) (use inv pa an in \<open>simp_all add: lim_sys_inv_def proc_at_def\<close>)
  ultimately show ?thesis by (simp add: lim_sys_inv_def)
qed

lemma lim_sys_inv_step:
  assumes "lim_sys_inv maxG maxI s" and "lim_sys_step maxG maxI s s'"
  shows "lim_sys_inv maxG maxI s'"
proof -
  note named = proc_at_named [OF assms(1)]
  from assms(2) show ?thesis
  proof cases
  case (ls_global i ip)
  have "cnt in_global ((procs s)[i := (ip, LGlobal (g_count s + 1))]) = g_count s + 1"
    using assms(1) by (simp add: cnt_goto [OF ls_global(2)] lim_sys_inv_def in_global_def)
  with ls_global show ?thesis
    by (intro lim_sys_inv_intro [OF assms(1) ls_global(2)]) (auto simp: where_defs)
next
  case (ls_per_ip i ip g)
  have "cnt (in_ip ip) ((procs s)[i := (ip, LPerIP (ip_count s ip + 1))]) = ip_count s ip + 1"
    using assms(1) ls_per_ip by (simp add: cnt_goto [OF ls_per_ip(2)] lim_sys_inv_def in_ip_def)
  with ls_per_ip show ?thesis
    by (intro lim_sys_inv_intro [OF assms(1) ls_per_ip(2)]) (auto simp: where_defs)
next
  case (ls_global_full i ip g)
  then show ?thesis
    by (intro lim_sys_inv_intro [OF assms(1) ls_global_full(2)]) (auto simp: where_defs dest: named)
next
  case (ls_anonymous i ip g)
  then show ?thesis
    by (intro lim_sys_inv_intro [OF assms(1) ls_anonymous(2)]) (auto simp: where_defs dest: named)
next
  case (ls_per_ip_full i ip n)
  then show ?thesis
    by (intro lim_sys_inv_intro [OF assms(1) ls_per_ip_full(2)]) (auto simp: where_defs dest: named)
next
  case (ls_per_ip_ok i ip n)
  then show ?thesis
    by (intro lim_sys_inv_intro [OF assms(1) ls_per_ip_ok(2)]) (auto simp: where_defs dest: named)
next
  case (ls_bucket_ok i ip)
  then show ?thesis
    by (intro lim_sys_inv_intro [OF assms(1) ls_bucket_ok(2)]) (auto simp: where_defs dest: named)
next
  case (ls_bucket_empty i ip)
  then show ?thesis
    by (intro lim_sys_inv_intro [OF assms(1) ls_bucket_empty(2)]) (auto simp: where_defs dest: named)
next
  case (ls_undo_ip i ip)
  then show ?thesis
    by (intro lim_sys_inv_intro [OF assms(1) ls_undo_ip(2)]) (auto simp: where_defs dest: named)
next
  case (ls_undo_global i ip)
  then show ?thesis
    by (intro lim_sys_inv_intro [OF assms(1) ls_undo_global(2)]) (auto simp: where_defs dest: named)
next
  case (ls_release i ip)
  show ?thesis
  proof (cases "ip = ''''")
    case True
    with ls_release show ?thesis
      by (intro lim_sys_inv_intro [OF assms(1) ls_release(2)]) (auto simp: where_defs)
  next
    case False
    with ls_release show ?thesis
      by (intro lim_sys_inv_intro [OF assms(1) ls_release(2)]) (auto simp: where_defs)
  qed
next
  case (ls_release_ip i ip)
  then show ?thesis
    by (intro lim_sys_inv_intro [OF assms(1) ls_release_ip(2)]) (auto simp: where_defs dest: named)
qed
qed

interpretation limiter_global: bounded_protocol "lim_sys_step maxG maxI" "\<lambda>s. 0 < maxG \<and> lim_sys_inv maxG maxI s"
    "\<lambda>s. cnt holds (procs s)" maxG for maxG maxI
proof unfold_locales
  fix s
  assume a: "0 < maxG \<and> lim_sys_inv maxG maxI s"
  have "cnt holds (procs s) \<le> cnt (won_global maxG) (procs s)"
    by (intro cnt_mono) (rule holds_won)
  also have "\<dots> \<le> maxG" using a by (simp add: lim_sys_inv_def)
  finally show "cnt holds (procs s) \<le> maxG" .
qed (blast intro: lim_sys_inv_step)

interpretation limiter_per_ip: bounded_protocol "lim_sys_step maxG maxI"
    "\<lambda>s. 0 < maxI \<and> ip \<noteq> '''' \<and> lim_sys_inv maxG maxI s"
    "\<lambda>s. cnt (\<lambda>p. p = (ip, LHeld)) (procs s)" maxI for maxG maxI ip
proof unfold_locales
  fix s
  assume a: "0 < maxI \<and> ip \<noteq> '''' \<and> lim_sys_inv maxG maxI s"
  then have "cnt (\<lambda>p. p = (ip, LHeld)) (procs s) \<le> cnt (won_ip maxI ip) (procs s)"
    by (intro cnt_mono) (simp add: won_ip_def)
  also have "\<dots> \<le> maxI" using a by (simp add: lim_sys_inv_def)
  finally show "cnt (\<lambda>p. p = (ip, LHeld)) (procs s) \<le> maxI" .
qed (blast intro: lim_sys_inv_step)

interpretation limiter_counts: bounded_protocol "lim_sys_step maxG maxI" "lim_sys_inv maxG maxI"
    "\<lambda>s. cnt in_global (procs s) - g_count s" 0 for maxG maxI
  by unfold_locales (rule lim_sys_inv_step, assumption+, simp add: lim_sys_inv_def)

lemma cnt_zero: "(\<And>p. p \<in> set ps \<Longrightarrow> \<not> P p) \<Longrightarrow> cnt P ps = 0"
  by (induction ps) auto

lemma lim_sys_inv_start:
  "\<forall>p \<in> set ps. snd p = LStart \<Longrightarrow>
     lim_sys_inv maxG maxI \<lparr>g_count = 0, ip_count = \<lambda>_. 0, procs = ps\<rparr>"
  by (auto simp: lim_sys_inv_def where_defs cnt_zero split: lim_pc.split)

section \<open>Properties\<close>

text \<open>C13 (invariant): the compare-and-swap loop never over-commits a backend. However the
  loads, swaps and releases of any number of goroutines interleave, the counter is the number
  of goroutines that hold a slot, and it never exceeds \<open>MaxInflight\<close>.\<close>

theorem try_acquire_no_overcommit:
  assumes "0 \<le> m" and "m < 2 ^ 31"
    and "(acq_step m)\<^sup>*\<^sup>* (0, replicate n ALoad) (k, ps)"
  shows "k = cnt (\<lambda>p. p = AHolding) ps \<and> k \<le> m"
proof -
  have "acq_inv m (0, replicate n ALoad)"
    using assms(1,2) cnt_replicate [of "\<lambda>p. p = AHolding" ALoad n] by (auto simp: acq_inv_def)
  with assms(3) have "acq_inv m (k, ps)" by (rule slots_cas.inv_reach)
  then show ?thesis by (simp add: acq_inv_def)
qed

lemma try_acquire_no_overcommit_witness:
  "\<exists>k ps. (acq_step 1)\<^sup>*\<^sup>* (0, replicate 2 ALoad) (k, ps) \<and> ps = [AHolding, ALoad] \<and> k \<le> 1"
proof -
  have "acq_step 1 (0, [ALoad, ALoad]) (0, [ACas 0, ALoad])"
    using acq_load [of 0 "[ALoad, ALoad]" 0 1] by simp
  moreover have "acq_step 1 (0, [ACas 0, ALoad]) (0, [ACas 0, ACas 0])"
    using acq_load [of 1 "[ACas 0, ALoad]" 0 1] by simp
  moreover have "acq_step 1 (0, [ACas 0, ACas 0]) (1, [AHolding, ACas 0])"
    using acq_cas [of 0 "[ACas 0, ACas 0]" 0 0 1] by (simp add: i32_id)
  moreover have "acq_step 1 (1, [AHolding, ACas 0]) (1, [AHolding, ALoad])"
    using acq_cas_fail [of 1 "[AHolding, ACas 0]" 0 1 1] by simp
  ultimately have r: "(acq_step 1)\<^sup>*\<^sup>* (0, replicate 2 ALoad) (1, [AHolding, ALoad])"
    by (simp add: numeral_2_eq_2)
  then have "(1::int) \<le> 1" using try_acquire_no_overcommit [of 1 2 1 "[AHolding, ALoad]"] by simp
  with r show ?thesis by blast
qed

text \<open>C22 (invariant): the connection limits hold under contention. The limiter first adds and
  takes the addition back when the sum is too large, so its counters may overshoot for a
  moment; but in no interleaving of any number of acquisitions and releases do more goroutines
  hold a connection than the global limit, or more of one IP than the per-IP limit, and when
  none is under way the counter is the number of holders.\<close>

theorem conn_limits_no_overcommit:
  assumes "\<forall>p \<in> set ps. snd p = LStart"
    and "(lim_sys_step maxG maxI)\<^sup>*\<^sup>* \<lparr>g_count = 0, ip_count = \<lambda>_. 0, procs = ps\<rparr> s"
  shows "(0 < maxG \<longrightarrow> cnt holds (procs s) \<le> maxG) \<and>
    (0 < maxI \<longrightarrow> (\<forall>ip. ip \<noteq> '''' \<longrightarrow> cnt (\<lambda>p. p = (ip, LHeld)) (procs s) \<le> maxI)) \<and>
    ((\<forall>p \<in> set (procs s). snd p \<in> {LStart, LHeld, LRefused, LDone}) \<longrightarrow> g_count s = cnt holds (procs s))"
proof (intro conjI impI allI)
  note start = lim_sys_inv_start [OF assms(1)]
  show "cnt holds (procs s) \<le> maxG" if "0 < maxG"
    using limiter_global.holders_bounded [OF assms(2)] start that by blast
  show "cnt (\<lambda>p. p = (ip, LHeld)) (procs s) \<le> maxI" if "0 < maxI" "ip \<noteq> ''''" for ip
    using limiter_per_ip.holders_bounded [OF assms(2)] start that by blast
  assume quiet: "\<forall>p \<in> set (procs s). snd p \<in> {LStart, LHeld, LRefused, LDone}"
  have "lim_sys_inv maxG maxI s" using assms(2) start by (rule limiter_counts.inv_reach)
  then have "g_count s = cnt in_global (procs s)" by (simp add: lim_sys_inv_def)
  also have "\<dots> = cnt holds (procs s)"
  proof -
    have "filter in_global (procs s) = filter holds (procs s)"
      using quiet by (intro filter_cong) (auto simp: in_global_def holds_def)
    then show ?thesis by (simp add: cnt_def)
  qed
  finally show "g_count s = cnt holds (procs s)" .
qed

lemma conn_limits_no_overcommit_witness:
  "\<exists>s. (lim_sys_step 1 0)\<^sup>*\<^sup>* \<lparr>g_count = 0, ip_count = \<lambda>_. 0, procs = [('''', LStart), ('''', LStart)]\<rparr> s \<and>
     procs s = [('''', LHeld), ('''', LUndoGlobal)] \<and> g_count s = 2 \<and> cnt holds (procs s) \<le> 1"
proof -
  let ?s = "\<lambda>g p q. \<lparr>g_count = g, ip_count = \<lambda>_. 0, procs = [('''', p), ('''', q)]\<rparr>"
  have "lim_sys_step 1 0 (?s 0 LStart LStart) (?s 1 (LGlobal 1) LStart)"
    using ls_global [of 0 "''''" "?s 0 LStart LStart" 1 0]
    by (simp add: proc_at_def goto_def add_global_def)
  moreover have "lim_sys_step 1 0 (?s 1 (LGlobal 1) LStart) (?s 2 (LGlobal 1) (LGlobal 2))"
    using ls_global [of 1 "''''" "?s 1 (LGlobal 1) LStart" 1 0]
    by (simp add: proc_at_def goto_def add_global_def)
  moreover have "lim_sys_step 1 0 (?s 2 (LGlobal 1) (LGlobal 2)) (?s 2 LHeld (LGlobal 2))"
    using ls_anonymous [of 0 "''''" 1 "?s 2 (LGlobal 1) (LGlobal 2)" 1 0]
    by (simp add: proc_at_def goto_def)
  moreover have "lim_sys_step 1 0 (?s 2 LHeld (LGlobal 2)) (?s 2 LHeld LUndoGlobal)"
    using ls_global_full [of 1 "''''" 2 "?s 2 LHeld (LGlobal 2)" 1 0]
    by (simp add: proc_at_def goto_def)
  ultimately have r: "(lim_sys_step 1 0)\<^sup>*\<^sup>* (?s 0 LStart LStart) (?s 2 LHeld LUndoGlobal)"
    by (meson converse_rtranclp_into_rtranclp rtranclp.rtrancl_refl)
  have "cnt holds (procs (?s 2 LHeld LUndoGlobal)) \<le> 1"
    using conn_limits_no_overcommit [OF _ r] by simp
  with r show ?thesis by auto
qed

end
