(* ===== verification/Durations.thy ===== *)
theory Durations
  imports Config Go_Float
begin

text \<open>
  The durations of a configuration file: the methods \<open>UnmarshalYAML\<close> of \<open>Duration\<close> and \<open>DurationSec\<close>
  (\<open>internal/config/config.go\<close>), and \<open>time.ParseDuration\<close>, which they fall back to. What the YAML library makes of a
  node is a parameter: its value as an \<open>int64\<close> and as a string, if it has one.
\<close>

section \<open>\<open>time.ParseDuration\<close>\<close>

text \<open>\<open>leadingInt\<close>: the digits at the front, \<open>None\<close> when their value exceeds \<open>2 ^ 63\<close>.\<close>

fun leadingInt :: "nat \<Rightarrow> string \<Rightarrow> (nat \<times> string) option" where
  "leadingInt x [] = Some (x, [])"
| "leadingInt x (c # s) =
     (if \<not> is_digit c then Some (x, c # s)
      else if 2 ^ 63 div 10 < x then None
      else
        (let y = x * 10 + digit_val c in
         if 2 ^ 63 < y then None else leadingInt y s))"

text \<open>\<open>leadingFraction\<close>: the digits of a fraction and their scale; digits beyond the range of an integer are skipped.\<close>

fun leadingFraction :: "nat \<Rightarrow> nat \<Rightarrow> bool \<Rightarrow> string \<Rightarrow> nat \<times> nat \<times> string" where
  "leadingFraction x scale overflow [] = (x, scale, [])"
| "leadingFraction x scale overflow (c # s) =
     (if \<not> is_digit c then (x, scale, c # s)
      else if overflow then leadingFraction x scale True s
      else if (2 ^ 63 - 1) div 10 < x then leadingFraction x scale True s
      else
        (let y = x * 10 + digit_val c in
         if 2 ^ 63 < y then leadingFraction x scale True s
         else leadingFraction y (scale * 10) False s))"

definition unitMap :: "string \<Rightarrow> nat option" where
  "unitMap u =
     (if u = ''ns'' then Some 1
      else if u = ''us'' \<or> u = [CHR 0xC2, CHR 0xB5] @ ''s'' \<or> u = [CHR 0xCE, CHR 0xBC] @ ''s'' then Some 1000
      else if u = ''ms'' then Some 1000000
      else if u = ''s'' then Some 1000000000
      else if u = ''m'' then Some 60000000000
      else if u = ''h'' then Some 3600000000000
      else None)"

definition unit_char :: "char \<Rightarrow> bool" where
  "unit_char c \<longleftrightarrow> c \<noteq> CHR ''.'' \<and> \<not> is_digit c"

text \<open>The fraction at the front, if there is one: digits, scale, what follows, and whether there were any digits.\<close>

definition parse_fraction :: "string \<Rightarrow> nat \<times> nat \<times> string \<times> bool" where
  "parse_fraction s =
     (if s \<noteq> [] \<and> hd s = CHR ''.'' then
        (case leadingFraction 0 1 False (tl s) of (f, scale, t) \<Rightarrow> (f, scale, t, length (tl s) \<noteq> length t))
      else (0, 1, s, False))"

text \<open>A number with its unit at the front, in nanoseconds, and what follows.\<close>

definition parse_term :: "string \<Rightarrow> (nat \<times> string) option" where
  "parse_term s =
     (case s of
        [] \<Rightarrow> None
      | c # _ \<Rightarrow>
          if c \<noteq> CHR ''.'' \<and> \<not> is_digit c then None
          else
            (case leadingInt 0 s of
               None \<Rightarrow> None
             | Some (v, s1) \<Rightarrow>
                 (let pre = (length s \<noteq> length s1);
                      (f, scale, s2, post) = parse_fraction s1;
                      u = takeWhile unit_char s2;
                      rest = dropWhile unit_char s2
                  in if \<not> pre \<and> \<not> post then None
                     else if u = [] then None
                     else
                       (case unitMap u of
                          None \<Rightarrow> None
                        | Some unit \<Rightarrow>
                            if 2 ^ 63 div unit < v then None
                            else
                              (let w = v * unit + (if 0 < f
                                   then nat (int64_of (fmul (float_of_int (int f))
                                          (fdiv (float_of_int (int unit)) (float_of_int (int scale)))))
                                   else 0)
                               in if 2 ^ 63 < w then None else Some (w, rest))))))"

lemma leadingInt_length: "leadingInt x s = Some (v, t) \<Longrightarrow> length t \<le> length s"
  by (induction x s rule: leadingInt.induct) (auto simp: Let_def split: if_splits)

lemma leadingFraction_length: "leadingFraction x sc ov s = (f, sc', t) \<Longrightarrow> length t \<le> length s"
  by (induction x sc ov s rule: leadingFraction.induct) (auto simp: Let_def split: if_splits)

lemma parse_term_length: "parse_term s = Some (w, t) \<Longrightarrow> length t < length s"
proof -
  assume p: "parse_term s = Some (w, t)"
  obtain c cs where s: "s = c # cs" using p by (cases s) (auto simp: parse_term_def)
  have drop: "takeWhile unit_char x \<noteq> [] \<Longrightarrow> length (dropWhile unit_char x) < length x" for x
    by (cases x) (auto simp: length_dropWhile_le less_Suc_eq_le split: if_splits)
  obtain v s1 where i: "leadingInt 0 s = Some (v, s1)" using p s by (auto simp: parse_term_def split: if_splits option.splits)
  obtain f scale s2 post where f: "parse_fraction s1 = (f, scale, s2, post)"
    by (metis prod_cases4)
  then have "length s2 \<le> length s1"
    by (auto simp: parse_fraction_def split: if_splits prod.splits dest!: leadingFraction_length)
  moreover have "length s1 \<le> length s" using i by (rule leadingInt_length)
  moreover have "t = dropWhile unit_char s2" "takeWhile unit_char s2 \<noteq> []"
    using p s i f by (auto simp: parse_term_def Let_def split: if_splits option.splits)
  ultimately show ?thesis using drop [of s2] by simp
qed

function parse_terms :: "nat \<Rightarrow> string \<Rightarrow> nat option" where
  "parse_terms d s =
     (if s = [] then Some d
      else
        (case parse_term s of
           None \<Rightarrow> None
         | Some (w, t) \<Rightarrow>
             (let d1 = (d + w) mod 2 ^ 64 in if 2 ^ 63 < d1 then None else parse_terms d1 t)))"
  by auto
termination
  by (relation "measure (\<lambda>(d, s). length s)") (auto dest: parse_term_length)

declare parse_terms.simps [simp del]

definition ParseDuration :: "string \<Rightarrow> duration option" where
  "ParseDuration s =
     (let neg = (s \<noteq> [] \<and> hd s = CHR ''-'');
          s1 = (if s \<noteq> [] \<and> (hd s = CHR ''-'' \<or> hd s = CHR ''+'') then tl s else s)
      in if s1 = ''0'' then Some 0
         else if s1 = [] then None
         else
           (case parse_terms 0 s1 of
              None \<Rightarrow> None
            | Some d \<Rightarrow>
                if neg then Some (- int d)
                else if 2 ^ 63 - 1 < d then None
                else Some (int d)))"

section \<open>The two YAML types\<close>

record yaml_node =
  yn_int :: "int option"
  yn_string :: "string option"

definition Duration_UnmarshalYAML :: "yaml_node \<Rightarrow> duration option" where
  "Duration_UnmarshalYAML v =
     (case yn_int v of
        Some n \<Rightarrow> Some (i64 (n * Millisecond))
      | None \<Rightarrow> (case yn_string v of None \<Rightarrow> None | Some s \<Rightarrow> ParseDuration s))"

definition DurationSec_UnmarshalYAML :: "yaml_node \<Rightarrow> duration option" where
  "DurationSec_UnmarshalYAML v =
     (case yn_int v of
        Some n \<Rightarrow> Some (i64 (n * Second))
      | None \<Rightarrow> (case yn_string v of None \<Rightarrow> None | Some s \<Rightarrow> ParseDuration s))"

section \<open>Lemmas\<close>

lemma digits_val_ge: "x \<le> digits_val x ds"
proof (induction ds arbitrary: x)
  case (Cons c ds)
  show ?case using Cons [of "10 * x + digit_val c"] by simp
qed simp

lemma leadingInt_digits:
  assumes "list_all is_digit ds" and "\<not> is_digit c" and "digits_val x ds \<le> 2 ^ 63"
  shows "leadingInt x (ds @ c # t) = Some (digits_val x ds, c # t)"
  using assms(1,3)
proof (induction ds arbitrary: x)
  case Nil
  with assms(2) show ?case by simp
next
  case (Cons d ds)
  then have "10 * x + digit_val d \<le> 2 ^ 63"
    using digits_val_ge [of "10 * x + digit_val d" ds] by simp
  with Cons show ?case by (simp add: mult.commute)
qed

lemma leadingInt_overflow:
  assumes "list_all is_digit ds" and "2 ^ 63 < digits_val x ds" and "x \<le> 2 ^ 63"
  shows "leadingInt x (ds @ t) = None"
  using assms
proof (induction ds arbitrary: x)
  case (Cons d ds)
  then show ?case by (auto simp: Let_def mult.commute)
qed simp

lemma parse_one_unit:
  assumes "unitMap u = Some unit" and "list_all unit_char u" and "u \<noteq> []"
  shows "parse_term (nat_dec n @ u) = (if n \<le> 2 ^ 63 div unit then Some (n * unit, []) else None)"
proof -
  obtain c t where u: "u = c # t" using assms(3) by (cases u) auto
  with assms(2) have c: "c \<noteq> CHR ''.''" "\<not> is_digit c" by (simp_all add: unit_char_def)
  obtain d ds where n: "nat_dec n = d # ds" by (cases "nat_dec n") auto
  have ds: "list_all is_digit (nat_dec n)" using nat_dec_digits by simp
  then have d: "is_digit d" by (simp add: n)
  have unit: "takeWhile unit_char u = u" "dropWhile unit_char u = []"
    using assms(2) by (simp_all add: list_all_iff)
  have big: "2 ^ 63 < n \<Longrightarrow> \<not> n \<le> 2 ^ 63 div unit"
    by (meson div_le_dividend le_trans not_le)
  show ?thesis
  proof (cases "n \<le> 2 ^ 63")
    case True
    then have "leadingInt 0 (nat_dec n @ u) = Some (n, u)"
      using leadingInt_digits [OF ds c(2), of 0 t] by (simp add: u)
    moreover have "length (nat_dec n @ u) \<noteq> length u" by simp
    moreover have "n * unit \<le> 2 ^ 63 \<or> 2 ^ 63 div unit < n"
      by (meson div_times_less_eq_dividend le_trans mult_le_mono1 not_le)
    moreover have "parse_fraction u = (0, 1, u, False)" using c(1) by (simp add: parse_fraction_def u)
    ultimately show ?thesis
      using d assms(1,3) by (auto simp: parse_term_def n Let_def unit not_less not_le)
  next
    case False
    then have "leadingInt 0 (nat_dec n @ u) = None"
      using leadingInt_overflow [OF ds, of 0 u] by simp
    with False big d show ?thesis by (simp add: parse_term_def n)
  qed
qed

lemma ParseDuration_unit:
  assumes "unitMap u = Some unit" and "list_all unit_char u" and "u \<noteq> []" and "0 < unit"
  shows "ParseDuration (nat_dec m @ u) = (if m * unit < 2 ^ 63 then Some (int (m * unit)) else None)"
proof -
  let ?s = "nat_dec m @ u"
  obtain d ds where n: "nat_dec m = d # ds" by (cases "nat_dec m") auto
  have d: "d \<noteq> CHR ''-''" "d \<noteq> CHR ''+''"
    using nat_dec_no_sep(7,8) [of m] by (auto simp: n)
  have zero: "?s \<noteq> ''0''" "?s \<noteq> []" using assms(3) n by (cases ds; cases u; simp)+
  note pt = parse_one_unit [OF assms(1-3), of m]
  have le: "m \<le> 2 ^ 63 div unit \<longleftrightarrow> m * unit \<le> 2 ^ 63" using assms(4) by (simp add: less_eq_div_iff_mult_less_eq)
  have run: "parse_terms 0 ?s = (if m * unit \<le> 2 ^ 63 then Some (m * unit) else None)"
  proof (cases "m * unit \<le> 2 ^ 63")
    case True
    with pt le have "parse_term ?s = Some (m * unit, [])" by simp
    moreover have "m * unit mod 2 ^ 64 = m * unit" using True by simp
    ultimately show ?thesis
      using True zero by (subst parse_terms.simps) (simp add: Let_def parse_terms.simps [of _ "[]"])
  next
    case False
    with pt le have "parse_term ?s = None" by simp
    with False zero show ?thesis by (subst parse_terms.simps) simp
  qed
  have s1: "(if ?s \<noteq> [] \<and> (hd ?s = CHR ''-'' \<or> hd ?s = CHR ''+'') then tl ?s else ?s) = ?s"
    "(?s \<noteq> [] \<and> hd ?s = CHR ''-'') = False"
    using d by (simp_all add: n)
  show ?thesis
    unfolding ParseDuration_def Let_def s1 run using zero by auto
qed

text \<open>C40. In a configuration file a bare number of milliseconds, or of seconds where seconds are expected, means
  what the same number with the unit \<open>ms\<close> or \<open>s\<close> means to \<open>time.ParseDuration\<close>, as long as it is in range: beyond it
  the text is refused, whereas the bare number wraps around silently.\<close>

theorem duration_spellings:
  assumes "0 \<le> n"
  shows "ParseDuration (int_dec n @ ''ms'') =
      (if in_int64 (n * Millisecond) then Duration_UnmarshalYAML \<lparr>yn_int = Some n, yn_string = s\<rparr> else None) \<and>
    ParseDuration (int_dec n @ ''s'') =
      (if in_int64 (n * Second) then DurationSec_UnmarshalYAML \<lparr>yn_int = Some n, yn_string = s\<rparr> else None) \<and>
    Duration_UnmarshalYAML \<lparr>yn_int = Some n, yn_string = s\<rparr> = Some (i64 (n * Millisecond))"
proof -
  obtain m where m: "n = int m" using assms nonneg_int_cases by blast
  have u: "list_all unit_char ''ms''" "list_all unit_char ''s''" by code_simp+
  have "unitMap ''ms'' = Some 1000000" "unitMap ''s'' = Some 1000000000" by (simp_all add: unitMap_def)
  from ParseDuration_unit [OF this(1) u(1), of m] ParseDuration_unit [OF this(2) u(2), of m] show ?thesis
    by (auto simp: m int_dec_def in_int64_def Duration_UnmarshalYAML_def DurationSec_UnmarshalYAML_def)
qed

lemma duration_spellings_witness:
  "ParseDuration ''300000ms'' = Some 300000000000 \<and> ParseDuration ''9223372036855ms'' = None \<and>
   Duration_UnmarshalYAML \<lparr>yn_int = Some 9223372036855, yn_string = None\<rparr> = Some (- 9223372036854551616)"
proof -
  have c: "digit_char 0 = CHR ''0''" "digit_char (Suc 0) = CHR ''1''" "digit_char 2 = CHR ''2''" "digit_char 3 = CHR ''3''"
    "digit_char 4 = CHR ''4''" "digit_char 5 = CHR ''5''" "digit_char 6 = CHR ''6''" "digit_char 7 = CHR ''7''"
    "digit_char 8 = CHR ''8''" "digit_char 9 = CHR ''9''"
    by code_simp+
  have d: "int_dec 300000 = ''300000''" "int_dec 9223372036855 = ''9223372036855''"
    by (simp_all add: int_dec_def nat_dec.simps c)
  have w: "i64 9223372036855000000 = - 9223372036854551616"
    by (simp add: i64_def signed_take_bit_eq_take_bit_shift take_bit_eq_mod)
  from duration_spellings [of 300000 None] duration_spellings [of 9223372036855 None] show ?thesis
    by (simp add: d w in_int64_def Duration_UnmarshalYAML_def)
qed

end
