(* ===== verification/World.thy ===== *)
theory World
  imports Config
begin

text \<open>
  The outside world of the control plane, which is not code under \<open>src/\<close>: the clock, the
  context's cancellation, HTTP requests through a SOCKS5 proxy (\<open>net/http\<close> over
  \<open>golang.org/x/net/proxy\<close>), processes (\<open>warp-svc\<close>, \<open>warp-cli\<close>, \<open>dbus-daemon\<close>) and files. A
  world is a record of functions over an arbitrary state \<open>'w\<close>, which every call takes and
  returns; the operations of the control plane are parametric in it.
\<close>

record 'w world =
  w_now :: "'w \<Rightarrow> instant"
  w_done :: "'w \<Rightarrow> bool"
  w_get :: "string \<Rightarrow> string \<Rightarrow> 'w \<Rightarrow> (string + nat \<times> string) \<times> 'w"
  w_sleep :: "duration \<Rightarrow> 'w \<Rightarrow> 'w"
  w_exec :: "string list \<Rightarrow> (string \<times> string) list \<Rightarrow> 'w \<Rightarrow> (bool \<times> string) \<times> 'w"
  w_spawn :: "string list \<Rightarrow> (string \<times> string) list \<Rightarrow> 'w \<Rightarrow> bool \<times> 'w"
  w_mkdir :: "string \<Rightarrow> 'w \<Rightarrow> 'w"
  w_remove :: "string \<Rightarrow> 'w \<Rightarrow> 'w"
  w_exists :: "string \<Rightarrow> 'w \<Rightarrow> bool"
  w_read :: "string \<Rightarrow> 'w \<Rightarrow> string option"
  w_write :: "string \<Rightarrow> string \<Rightarrow> 'w \<Rightarrow> bool \<times> 'w"

text \<open>
  \<open>w_get addr url\<close> is a GET of \<open>url\<close> through the SOCKS5 proxy at \<open>addr\<close>: an error text, or
  the status code and the body. \<open>w_exec argv env\<close> runs a command to its end: whether it
  succeeded, and its combined output; \<open>w_spawn\<close> starts one. The environment is what the
  caller adds to its own.

  A scripted world, for statements about what is done to the outside: every effect is
  recorded, in order, and a script decides from the effects so far how each call ends.
\<close>

datatype effect =
    Sleep duration
  | Exec "string list" "(string \<times> string) list"
  | Spawn "string list" "(string \<times> string) list"
  | Mkdir string
  | Remove string
  | Write string string
  | Fetch string string

record script =
  s_exec :: "effect list \<Rightarrow> string list \<Rightarrow> bool \<times> string"
  s_spawn :: "effect list \<Rightarrow> string list \<Rightarrow> bool"
  s_exists :: "effect list \<Rightarrow> string \<Rightarrow> bool"
  s_read :: "effect list \<Rightarrow> string \<Rightarrow> string option"
  s_write :: "effect list \<Rightarrow> string \<Rightarrow> bool"
  s_get :: "effect list \<Rightarrow> string \<Rightarrow> string + nat \<times> string"

text \<open>The log grows at its end; the clock is the time slept.\<close>

type_synonym log = "effect list"

fun slept :: "effect \<Rightarrow> duration" where
  "slept (Sleep d) = d"
| "slept _ = 0"

definition scripted :: "script \<Rightarrow> log world" where
  "scripted r =
     \<lparr>w_now = (\<lambda>l. sum_list (map slept l)),
      w_done = (\<lambda>l. False),
      w_get = (\<lambda>a u l. (s_get r l a, l @ [Fetch a u])),
      w_sleep = (\<lambda>d l. l @ [Sleep d]),
      w_exec = (\<lambda>a e l. (s_exec r l a, l @ [Exec a e])),
      w_spawn = (\<lambda>a e l. (s_spawn r l a, l @ [Spawn a e])),
      w_mkdir = (\<lambda>d l. l @ [Mkdir d]),
      w_remove = (\<lambda>f l. l @ [Remove f]),
      w_exists = (\<lambda>f l. s_exists r l f),
      w_read = (\<lambda>f l. s_read r l f),
      w_write = (\<lambda>f s l. (s_write r l f, l @ [Write f s]))\<rparr>"

lemma scripted_simps [simp]:
  "w_now (scripted r) l = sum_list (map slept l)" "w_done (scripted r) l = False"
  "w_get (scripted r) ad u l = (s_get r l ad, l @ [Fetch ad u])"
  "w_sleep (scripted r) d l = l @ [Sleep d]"
  "w_exec (scripted r) a e l = (s_exec r l a, l @ [Exec a e])"
  "w_spawn (scripted r) a e l = (s_spawn r l a, l @ [Spawn a e])"
  "w_mkdir (scripted r) f l = l @ [Mkdir f]" "w_remove (scripted r) f l = l @ [Remove f]"
  "w_exists (scripted r) f l = s_exists r l f" "w_read (scripted r) f l = s_read r l f"
  "w_write (scripted r) f s l = (s_write r l f, l @ [Write f s])"
  by (simp_all add: scripted_def)

end
