(* ===== verification/Warp_Control.thy ===== *)
theory Warp_Control
  imports World
begin

text \<open>
  Model of \<open>internal/control/warpctl_linux.go\<close>: the controller that starts, configures,
  reconnects, restarts and re-registers the WARP instances of the managed mode. It keeps no
  state of its own beyond the configuration; what it does is a sequence of effects on the
  world. The Windows variant answers every operation with an error.
\<close>

section \<open>Operations\<close>

datatype wc_error =
  Err_Cli "string list" | Err_Spawn | Err_Not_Ready int | Err_Reregister int | Err_Linux_Only

definition dbus_sock :: "config \<Rightarrow> int \<Rightarrow> string" where
  "dbus_sock c i = path_Join [DBusDir c i, ''system_bus_socket'']"

definition wcli ::
  "'w world \<Rightarrow> config \<Rightarrow> int \<Rightarrow> string list \<Rightarrow> 'w \<Rightarrow> (wc_error option \<times> string) \<times> 'w" where
  "wcli E c i args w =
     (case w_exec E (''warp-cli'' # ''--accept-tos'' # args)
             [(''RUNTIME_DIRECTORY'', RuntimeDir c i),
              (''DBUS_SYSTEM_BUS_ADDRESS'', ''unix:path='' @ dbus_sock c i)] w of
        ((ok, out), w1) \<Rightarrow> ((if ok then None else Some (Err_Cli args), out), w1))"

definition mdm_body :: "config \<Rightarrow> int \<Rightarrow> string" where
  "mdm_body c port =
     ''<dict>'' @ [CHR 0x0A] @
     ''  <key>organization</key>'' @ [CHR 0x0A] @
     ''  <string>'' @ ct_Org (Control c) @ ''</string>'' @ [CHR 0x0A] @
     ''  <key>auth_client_id</key>'' @ [CHR 0x0A] @
     ''  <string>'' @ ct_AuthClientID (Control c) @ ''</string>'' @ [CHR 0x0A] @
     ''  <key>auth_client_secret</key>'' @ [CHR 0x0A] @
     ''  <string>'' @ ct_AuthClientSecret (Control c) @ ''</string>'' @ [CHR 0x0A] @
     ''  <key>service_mode</key>'' @ [CHR 0x0A] @
     ''  <string>proxy</string>'' @ [CHR 0x0A] @
     ''  <key>proxy_port</key>'' @ [CHR 0x0A] @
     ''  <integer>'' @ int_dec port @ ''</integer>'' @ [CHR 0x0A] @
     ''  <key>auto_connect</key>'' @ [CHR 0x0A] @
     ''  <integer>1</integer>'' @ [CHR 0x0A] @
     ''  <key>switch_locked</key>'' @ [CHR 0x0A] @
     ''  <true/>'' @ [CHR 0x0A] @
     ''  <key>onboarding</key>'' @ [CHR 0x0A] @
     ''  <false/>'' @ [CHR 0x0A] @
     ''</dict>'' @ [CHR 0x0A]"

definition writeMDM :: "'w world \<Rightarrow> config \<Rightarrow> string \<Rightarrow> int \<Rightarrow> 'w \<Rightarrow> bool \<times> 'w" where
  "writeMDM E c dataDir port w = w_write E (path_Join [dataDir, ''mdm.xml'']) (mdm_body c port) w"

text \<open>The last six bytes of a license key, for the log.\<close>

definition tailKey :: "string \<Rightarrow> string" where
  "tailKey k0 =
     (let k = TrimSpace k0 in
      if length k \<le> 6 then k else ''...'' @ drop (length k - 6) k)"

text \<open>
  \<open>waitReady\<close> polls until the daemon answers or the timeout has passed. It ends only if the
  clock moves, so it is a partial function: \<open>None\<close> is a run that never returns.
\<close>

definition ready_status :: "string \<Rightarrow> bool" where
  "ready_status out \<longleftrightarrow> Contains out ''Status'' \<or> Contains out ''Connected'' \<or> Contains out ''Connecting''"

partial_function (option) wait_loop ::
  "'w world \<Rightarrow> config \<Rightarrow> int \<Rightarrow> instant \<Rightarrow> 'w \<Rightarrow> (wc_error option \<times> 'w) option" where
  "wait_loop E c i start w =
     (if w_now E w - start > ct_WarpConnTimeout (Control c) then Some (Some (Err_Not_Ready i), w)
      else
        (case wcli E c i [''status''] w of
           ((err, out), w1) \<Rightarrow>
             if err = None \<and> ready_status out then Some (None, w1)
             else wait_loop E c i start (w_sleep E (800 * Millisecond) w1)))"

definition waitReady :: "'w world \<Rightarrow> config \<Rightarrow> int \<Rightarrow> 'w \<Rightarrow> (wc_error option \<times> 'w) option" where
  "waitReady E c i w = wait_loop E c i (w_now E w) w"

text \<open>
  The registration loops: attempts until the command succeeds, sleeping after each failure;
  whether one succeeded.
\<close>

fun register :: "'w world \<Rightarrow> config \<Rightarrow> int \<Rightarrow> (int \<Rightarrow> duration) \<Rightarrow> int list \<Rightarrow> 'w \<Rightarrow> bool \<times> 'w" where
  "register E c i backoff [] w = (False, w)"
| "register E c i backoff (attempt # as) w =
     (case wcli E c i [''registration'', ''new''] w of
        ((None, out), w1) \<Rightarrow> (True, w1)
      | ((Some e, out), w1) \<Rightarrow> register E c i backoff as (w_sleep E (backoff attempt) w1))"

definition start_backoff :: "int \<Rightarrow> duration" where
  "start_backoff attempt =
     (let d = i64 (push_bit (nat attempt) 1 * Second) in if d > 60 * Second then 60 * Second else d)"

definition rereg_backoff :: "int \<Rightarrow> duration" where
  "rereg_backoff attempt =
     (let d = attempt * 2 * Second in if d > 20 * Second then 20 * Second else d)"

text \<open>Apply the license key of the instance, and note it in a file when that succeeded.\<close>

definition apply_license :: "'w world \<Rightarrow> config \<Rightarrow> int \<Rightarrow> string \<Rightarrow> 'w \<Rightarrow> 'w" where
  "apply_license E c i keyFile w =
     (let wantKey = LicenseKeyFor c i in
      if wantKey = '''' then w
      else
        (case wcli E c i [''registration'', ''license'', wantKey] w of
           ((Some e, out), w1) \<Rightarrow> w1
         | ((None, out), w1) \<Rightarrow> snd (w_write E keyFile (wantKey @ [CHR 0x0A]) w1)))"

text \<open>The common end of \<open>configureProxyMode\<close> and \<open>Reregister\<close>.\<close>

definition proxy_mode :: "'w world \<Rightarrow> config \<Rightarrow> int \<Rightarrow> int \<Rightarrow> 'w \<Rightarrow> wc_error option \<times> 'w" where
  "proxy_mode E c i port w =
     (case wcli E c i [''mode'', ''proxy''] w of
        ((Some e, out), w1) \<Rightarrow> (Some e, w1)
      | ((None, out), w1) \<Rightarrow>
          (case wcli E c i [''proxy'', ''port'', int_dec port] w1 of
             ((Some e, out), w2) \<Rightarrow> (Some e, w2)
           | ((None, out), w2) \<Rightarrow>
               (case wcli E c i [''connect''] w2 of
                  ((Some e, out), w3) \<Rightarrow> (Some e, w3)
                | ((None, out), w3) \<Rightarrow> (None, snd (wcli E c i [''debug'', ''qlog'', ''disable''] w3)))))"

definition reg_file :: "config \<Rightarrow> int \<Rightarrow> string" where
  "reg_file c i = path_Join [DataDir c i, ''reg.json'']"

definition key_file :: "config \<Rightarrow> int \<Rightarrow> string" where
  "key_file c i = path_Join [DataDir c i, ''applied_license.txt'']"

text \<open>Drop the registration when that is forced, or when the assigned license changed.\<close>

definition drop_registration :: "'w world \<Rightarrow> host \<Rightarrow> config \<Rightarrow> int \<Rightarrow> 'w \<Rightarrow> 'w" where
  "drop_registration E h c i w =
     (let wantKey = LicenseKeyFor c i in
      if ForceReregister h then
        snd (wcli E c i [''registration'', ''delete'']
              (w_remove E (key_file c i) (w_remove E (reg_file c i) w)))
      else if wantKey \<noteq> '''' then
        (case w_read E (key_file c i) w of
           None \<Rightarrow> w
         | Some prev \<Rightarrow>
             if TrimSpace prev \<noteq> wantKey
             then snd (wcli E c i [''registration'', ''delete''] (w_remove E (reg_file c i) w))
             else w)
      else w)"

definition configureProxyMode ::
  "'w world \<Rightarrow> host \<Rightarrow> config \<Rightarrow> int \<Rightarrow> int \<Rightarrow> 'w \<Rightarrow> wc_error option \<times> 'w" where
  "configureProxyMode E h c i port w =
     (if ct_Org (Control c) \<noteq> '''' then
        (None, snd (wcli E c i [''debug'', ''qlog'', ''disable''] (snd (wcli E c i [''connect''] w))))
      else
        (let w1 = drop_registration E h c i w;
             w2 = (if \<not> w_exists E (reg_file c i) w1
                   then apply_license E c i (key_file c i)
                          (snd (register E c i start_backoff [1..12] w1))
                   else w1)
         in proxy_mode E c i port w2))"

definition StartOne ::
  "'w world \<Rightarrow> host \<Rightarrow> config \<Rightarrow> int \<Rightarrow> 'w \<Rightarrow> (wc_error option \<times> 'w) option" where
  "StartOne E h c i w0 =
     (let dataDir = DataDir c i; runDir = RuntimeDir c i; dbusDir = DBusDir c i;
          w1 = w_mkdir E dbusDir (w_mkdir E runDir (w_mkdir E dataDir w0));
          port = BasePort c + i;
          sock = dbus_sock c i;
          w2 = (if ct_Org (Control c) \<noteq> '''' then snd (writeMDM E c dataDir port w1) else w1);
          w3 = snd (w_spawn E [''dbus-daemon'', ''--address=unix:path='' @ sock,
                 ''--config-file=/usr/share/dbus-1/system.conf'', ''--nopidfile'', ''--nofork''] [] w2);
          w4 = w_sleep E (400 * Millisecond) w3
      in case w_spawn E [''warp-svc'', ''--accept-tos'']
                [(''STATE_DIRECTORY'', dataDir), (''RUNTIME_DIRECTORY'', runDir),
                 (''DBUS_SYSTEM_BUS_ADDRESS'', ''unix:path='' @ sock)] w4 of
           (False, w5) \<Rightarrow> Some (Some Err_Spawn, w5)
         | (True, w5) \<Rightarrow>
             (case waitReady E c i w5 of
                None \<Rightarrow> None
              | Some (late, w6) \<Rightarrow> Some (configureProxyMode E h c i port w6)))"

text \<open>\<open>StartAll\<close>: every instance in turn, a failure being logged only.\<close>

fun start_each :: "'w world \<Rightarrow> host \<Rightarrow> config \<Rightarrow> int list \<Rightarrow> 'w \<Rightarrow> 'w option" where
  "start_each E h c [] w = Some w"
| "start_each E h c (i # is) w =
     (case StartOne E h c i w of
        None \<Rightarrow> None
      | Some (err, w1) \<Rightarrow> start_each E h c is (w_sleep E (ct_StartStagger (Control c)) w1))"

definition StartAll :: "'w world \<Rightarrow> host \<Rightarrow> config \<Rightarrow> 'w \<Rightarrow> 'w option" where
  "StartAll E h c w = start_each E h c [0..Instances c - 1] w"

definition Reconnect :: "'w world \<Rightarrow> config \<Rightarrow> int \<Rightarrow> 'w \<Rightarrow> wc_error option \<times> 'w" where
  "Reconnect E c i w = (case wcli E c i [''connect''] w of ((err, out), w1) \<Rightarrow> (err, w1))"

definition Restart ::
  "'w world \<Rightarrow> host \<Rightarrow> config \<Rightarrow> int \<Rightarrow> 'w \<Rightarrow> (wc_error option \<times> 'w) option" where
  "Restart E h c i w =
     StartOne E h c i (w_sleep E (500 * Millisecond) (snd (wcli E c i [''disconnect''] w)))"

definition Reregister :: "'w world \<Rightarrow> config \<Rightarrow> int \<Rightarrow> 'w \<Rightarrow> wc_error option \<times> 'w" where
  "Reregister E c i w0 =
     (let w1 = snd (wcli E c i [''disconnect''] w0);
          w2 = snd (wcli E c i [''registration'', ''delete''] w1);
          w3 = w_remove E (key_file c i) (w_remove E (reg_file c i) w2);
          w4 = w_sleep E (500 * Millisecond) w3
      in case register E c i rereg_backoff [1..8] w4 of
           (False, w5) \<Rightarrow> (Some (Err_Reregister i), w5)
         | (True, w5) \<Rightarrow>
             proxy_mode E c i (BasePort c + i) (apply_license E c i (key_file c i) w5))"

text \<open>\<open>StopAll\<close> does nothing: the processes it started go on.\<close>

definition StopAll :: "'w \<Rightarrow> wc_error option \<times> 'w" where
  "StopAll w = (None, w)"

text \<open>On Windows \<open>StartOne\<close>, \<open>Reconnect\<close>, \<open>Restart\<close> and \<open>Reregister\<close> only report that they are
  unsupported; \<open>StartAll\<close> and \<open>StopAll\<close> do nothing.\<close>

definition windows_operation :: "int \<Rightarrow> wc_error option" where
  "windows_operation i = Some Err_Linux_Only"

definition windows_all :: "wc_error option" where
  "windows_all = None"

section \<open>Termination\<close>

text \<open>A clock that a sleep advances by its duration at least and a command never turns back.\<close>

definition clock_ok :: "'w world \<Rightarrow> bool" where
  "clock_ok E \<longleftrightarrow> (\<forall>d w. w_now E w + d \<le> w_now E (w_sleep E d w)) \<and>
     (\<forall>a e w. w_now E w \<le> w_now E (snd (w_exec E a e w)))"

lemma wcli_now: "clock_ok E \<Longrightarrow> w_now E w \<le> w_now E (snd (wcli E c i args w))"
proof -
  have "snd (wcli E c i args w) = snd (w_exec E (''warp-cli'' # ''--accept-tos'' # args)
      [(''RUNTIME_DIRECTORY'', RuntimeDir c i),
       (''DBUS_SYSTEM_BUS_ADDRESS'', ''unix:path='' @ dbus_sock c i)] w)"
    by (simp add: wcli_def split: prod.split)
  then show "w_now E w \<le> w_now E (snd (wcli E c i args w))" if "clock_ok E"
    using that by (simp add: clock_ok_def)
qed

lemma wait_loop_returns:
  assumes "clock_ok E"
  shows "\<exists>r w'. wait_loop E c i start w = Some (r, w') \<and>
    (r = None \<or> w_now E w' - start > ct_WarpConnTimeout (Control c))"
proof (induction w rule: measure_induct_rule
    [where f = "\<lambda>w. nat (start + ct_WarpConnTimeout (Control c) + 1 - w_now E w)"])
  case (less w)
  show ?case
  proof (cases "w_now E w - start > ct_WarpConnTimeout (Control c)")
    case True
    then show ?thesis by (subst wait_loop.simps) simp
  next
    case False
    obtain err out w1 where cli: "wcli E c i [''status''] w = ((err, out), w1)"
      by (metis prod.exhaust)
    show ?thesis
    proof (cases "err = None \<and> ready_status out")
      case True
      with False cli show ?thesis by (subst wait_loop.simps) simp
    next
      case again: False
      let ?w2 = "w_sleep E (800 * Millisecond) w1"
      have "w_now E w + 800 * Millisecond \<le> w_now E ?w2"
        using wcli_now [OF assms, of w c i "[''status'']"] assms cli
        by (fastforce simp: clock_ok_def intro: order_trans [rotated])
      with False have "nat (start + ct_WarpConnTimeout (Control c) + 1 - w_now E ?w2)
          < nat (start + ct_WarpConnTimeout (Control c) + 1 - w_now E w)"
        by simp
      from less.IH [OF this] False cli again show ?thesis
        by (subst wait_loop.simps) simp
    qed
  qed
qed

lemma spawned_returns:
  assumes "\<And>w. wr w \<noteq> None"
  shows "\<exists>r w'. (case sp of (False, w5) \<Rightarrow> Some (e, w5)
    | (True, w5) \<Rightarrow> (case wr w5 of None \<Rightarrow> None | Some (late, w6) \<Rightarrow> Some (cf w6))) = Some (r, w')"
proof -
  obtain ok w5 where sp: "sp = (ok, w5)" by (cases sp)
  from assms [of w5] obtain late w6 where wr: "wr w5 = Some (late, w6)" by auto
  obtain r w' where cf: "cf w6 = (r, w')" by (cases "cf w6")
  from sp wr cf show ?thesis by (cases ok) simp_all
qed

lemma waitReady_returns: "clock_ok E \<Longrightarrow> waitReady E c i w \<noteq> None"
  unfolding waitReady_def using wait_loop_returns [of E c i "w_now E w" w] by auto

lemma StartOne_returns: "clock_ok E \<Longrightarrow> \<exists>r w'. StartOne E h c i w = Some (r, w')"
  unfolding StartOne_def Let_def by (rule spawned_returns) (rule waitReady_returns)

lemma start_each_returns: "clock_ok E \<Longrightarrow> \<exists>w'. start_each E h c is w = Some w'"
proof (induction "is" arbitrary: w)
  case Nil
  then show ?case by simp
next
  case (Cons i "is")
  with StartOne_returns [of E h c i w] show ?case by (auto split: option.split)
qed

section \<open>What the operations do to the outside\<close>

text \<open>A command of the instance, as an effect.\<close>

definition cli_effect :: "config \<Rightarrow> int \<Rightarrow> string list \<Rightarrow> effect" where
  "cli_effect c i args = Exec (''warp-cli'' # ''--accept-tos'' # args)
     [(''RUNTIME_DIRECTORY'', RuntimeDir c i),
      (''DBUS_SYSTEM_BUS_ADDRESS'', ''unix:path='' @ dbus_sock c i)]"

lemma wcli_scripted:
  "wcli (scripted r) c i args l =
     ((if fst (s_exec r l (''warp-cli'' # ''--accept-tos'' # args)) then None else Some (Err_Cli args),
       snd (s_exec r l (''warp-cli'' # ''--accept-tos'' # args))), l @ [cli_effect c i args])"
  by (simp add: wcli_def cli_effect_def split: prod.split)

definition proxy_commands :: "config \<Rightarrow> int \<Rightarrow> int \<Rightarrow> effect list" where
  "proxy_commands c i port = map (cli_effect c i)
     [[''mode'', ''proxy''], [''proxy'', ''port'', int_dec port], [''connect''],
      [''debug'', ''qlog'', ''disable'']]"

lemma proxy_mode_ok:
  "proxy_mode (scripted r) c i port l = (None, l') \<Longrightarrow> l' = l @ proxy_commands c i port"
  by (auto simp: proxy_mode_def wcli_scripted proxy_commands_def split: if_splits)

text \<open>The attempts to register, and the time slept, of a stretch of the log.\<close>

definition new_attempts :: "log \<Rightarrow> nat" where
  "new_attempts l = length (filter
     (\<lambda>x. case x of Exec (a # b # args) e \<Rightarrow> args = [''registration'', ''new''] | _ \<Rightarrow> False) l)"

lemma new_attempts_simps [simp]:
  "new_attempts [] = 0" "new_attempts (l @ l') = new_attempts l + new_attempts l'"
  "new_attempts (Sleep d # l) = new_attempts l" "new_attempts (Remove f # l) = new_attempts l"
  "new_attempts (Write f s # l) = new_attempts l"
  "new_attempts (cli_effect c i args # l) =
     (if args = [''registration'', ''new''] then 1 else 0) + new_attempts l"
  by (simp_all add: new_attempts_def cli_effect_def)

lemma slept_cli [simp]: "slept (cli_effect c i args) = 0"
  by (simp add: cli_effect_def)

lemma register_scripted:
  assumes "register (scripted r) c i bo as l = (ok, l')" and "\<forall>a \<in> set as. 0 \<le> bo a"
  shows "\<exists>m. l' = l @ m \<and> new_attempts m \<le> length as \<and>
     sum_list (map slept m) \<le> sum_list (map bo as) \<and>
     (\<not> ok \<longrightarrow> new_attempts m = length as)"
  using assms
proof (induction as arbitrary: l)
  case Nil
  then show ?case by simp
next
  case (Cons a as)
  show ?case
  proof (cases "fst (s_exec r l [''warp-cli'', ''--accept-tos'', ''registration'', ''new''])")
    case True
    with Cons.prems show ?thesis
      by (intro exI [of _ "[cli_effect c i [''registration'', ''new'']]"])
        (auto simp: wcli_scripted intro!: add_nonneg_nonneg sum_list_nonneg)
  next
    case False
    let ?m = "[cli_effect c i [''registration'', ''new''], Sleep (bo a)]"
    from False Cons.prems(1) have "register (scripted r) c i bo as (l @ ?m) = (ok, l')"
      by (simp add: wcli_scripted)
    from Cons.IH [OF this] Cons.prems(2) obtain m where m: "l' = (l @ ?m) @ m"
      "new_attempts m \<le> length as" "sum_list (map slept m) \<le> sum_list (map bo as)"
      "\<not> ok \<longrightarrow> new_attempts m = length as" by auto
    with m show ?thesis by (intro exI [of _ "?m @ m"]) simp
  qed
qed

text \<open>The effects of applying a license: none, or the command and the note.\<close>

lemma apply_license_scripted:
  "\<exists>m. apply_license (scripted r) c i f l = l @ m \<and> new_attempts m = 0 \<and> sum_list (map slept m) = 0"
proof (cases "LicenseKeyFor c i = ''''")
  case True
  then show ?thesis by (intro exI [of _ "[]"]) (simp add: apply_license_def)
next
  case False
  let ?args = "[''registration'', ''license'', LicenseKeyFor c i]"
  show ?thesis
  proof (cases "fst (s_exec r l (''warp-cli'' # ''--accept-tos'' # ?args))")
    case True
    with False show ?thesis
      by (intro exI [of _ "[cli_effect c i ?args, Write f (LicenseKeyFor c i @ [CHR 0x0A])]"])
        (simp add: apply_license_def wcli_scripted Let_def)
  next
    case no: False
    with False show ?thesis
      by (intro exI [of _ "[cli_effect c i ?args]"])
        (simp add: apply_license_def wcli_scripted Let_def)
  qed
qed

lemma proxy_mode_effects:
  "\<exists>m. snd (proxy_mode (scripted r) c i port l) = l @ m \<and> new_attempts m = 0 \<and>
     sum_list (map slept m) = 0 \<and> fst (proxy_mode (scripted r) c i port l) \<noteq> Some (Err_Reregister j)"
  by (auto simp: proxy_mode_def wcli_scripted)

section \<open>Properties\<close>

text \<open>C35 (termination): starting the instances always returns. With a clock that a sleep
  advances, waiting for an instance gives up once \<open>WarpConnTimeout\<close> has passed, so \<open>StartOne\<close>
  and \<open>StartAll\<close> terminate whatever the daemons answer.\<close>

theorem start_returns:
  assumes "clock_ok E"
  shows "(\<exists>r w'. waitReady E c i w = Some (r, w') \<and>
      (r = None \<or> w_now E w' - w_now E w > ct_WarpConnTimeout (Control c))) \<and>
    (\<exists>w'. StartAll E h c w = Some w')"
  unfolding waitReady_def StartAll_def
  using wait_loop_returns [OF assms] start_each_returns [OF assms] by blast

text \<open>Daemons that never answer, and a script in which every call succeeds.\<close>

definition deaf :: script where
  "deaf = \<lparr>s_exec = (\<lambda>l a. (False, '''')), s_spawn = (\<lambda>l a. True), s_exists = (\<lambda>l f. False),
     s_read = (\<lambda>l f. None), s_write = (\<lambda>l f. True), s_get = (\<lambda>l a. Inl ''down'')\<rparr>"

definition willing :: script where
  "willing = deaf\<lparr>s_exec := (\<lambda>l a. (True, ''Status update: Connected''))\<rparr>"

lemma start_returns_witness:
  "\<exists>w'. StartAll \<lparr>w_now = (\<lambda>t. t), w_done = (\<lambda>t. False), w_get = (\<lambda>a u t. (Inl ''down'', t)),
      w_sleep = (\<lambda>d t. t + d), w_exec = (\<lambda>a e t. ((False, ''''), t)), w_spawn = (\<lambda>a e t. (True, t)),
      w_mkdir = (\<lambda>d t. t), w_remove = (\<lambda>f t. t), w_exists = (\<lambda>f t. False), w_read = (\<lambda>f t. None),
      w_write = (\<lambda>f s t. (True, t))\<rparr> sample_host (Default sample_host) (0 :: int) = Some w'"
proof -
  let ?E = "\<lparr>w_now = (\<lambda>t. t), w_done = (\<lambda>t. False), w_get = (\<lambda>a u t. (Inl ''down'', t)),
      w_sleep = (\<lambda>d t. t + d), w_exec = (\<lambda>a e t. ((False, ''''), t)), w_spawn = (\<lambda>a e t. (True, t)),
      w_mkdir = (\<lambda>d t. t), w_remove = (\<lambda>f t. t), w_exists = (\<lambda>f t. False), w_read = (\<lambda>f t. None),
      w_write = (\<lambda>f s t. (True, t))\<rparr> :: int world"
  have "clock_ok ?E" by (simp add: clock_ok_def)
  from start_returns [OF this, of "Default sample_host" 0 0 sample_host]
  show ?thesis by blast
qed

text \<open>A re-registration that reports success has left the instance in proxy
  mode on the port the pool dials. In the scripted world, whatever the commands answer, its
  last effects are the commands of that instance that set the mode, the port
  \<open>BasePort + id\<close>, and connect, in this order; and with the default backends the pool's
  address for the instance ends in the same port.\<close>

theorem reregister_matches_pool_port:
  assumes "Reregister (scripted r) c i l = (None, l')" and "Backends c = []"
    and "0 \<le> i" and "i < Instances c"
  shows "(\<exists>m. l' = m @ proxy_commands c i (BasePort c + i)) \<and>
    bk_Addr (BackendAddrs c ! nat i) = ''127.0.0.1:'' @ int_dec (BasePort c + i)"
proof
  show "\<exists>m. l' = m @ proxy_commands c i (BasePort c + i)"
    using assms(1) by (auto simp: Reregister_def Let_def split: prod.splits bool.splits dest!: proxy_mode_ok)
  show "bk_Addr (BackendAddrs c ! nat i) = ''127.0.0.1:'' @ int_dec (BasePort c + i)"
    using assms(2-4) by (simp add: BackendAddrs_def)
qed

lemma reregister_matches_pool_port_witness:
  "\<exists>l' m. Reregister (scripted willing) (Default sample_host) 3 [] = (None, l') \<and>
     l' = m @ proxy_commands (Default sample_host) 3 40003"
proof -
  have "fst (Reregister (scripted willing) (Default sample_host) 3 []) = None"
    by (simp add: Reregister_def Let_def proxy_mode_def wcli_scripted willing_def deaf_def upto.simps)
  then obtain l' where l: "Reregister (scripted willing) (Default sample_host) 3 [] = (None, l')"
    by (metis prod.collapse)
  have c: "Backends (Default sample_host) = []" "3 < Instances (Default sample_host)"
      "BasePort (Default sample_host) = 40000"
    by (simp_all add: Default_def)
  from reregister_matches_pool_port [OF l c(1) _ c(2)] c(3) l show ?thesis by auto
qed

text \<open>A re-registration is bounded. It tries at most eight times to register and
  sleeps at most 72.5 seconds in all; it reports a failed registration only when all eight
  attempts failed.\<close>

theorem reregister_bounded:
  assumes "Reregister (scripted r) c i l = (err, l')"
  shows "\<exists>m. l' = l @ m \<and> new_attempts m \<le> 8 \<and> sum_list (map slept m) \<le> 72500 * Millisecond \<and>
    (err = Some (Err_Reregister i) \<longrightarrow> new_attempts m = 8)"
proof -
  let ?pre = "[cli_effect c i [''disconnect''], cli_effect c i [''registration'', ''delete''],
    Remove (reg_file c i), Remove (key_file c i), Sleep (500 * Millisecond)]"
  obtain ok l1 where reg: "register (scripted r) c i rereg_backoff [1..8] (l @ ?pre) = (ok, l1)"
    by (cases "register (scripted r) c i rereg_backoff [1..8] (l @ ?pre)")
  have bo: "sum_list (map rereg_backoff [1..8]) = 72 * Second" "\<forall>a \<in> set [1..8]. 0 \<le> rereg_backoff a"
    by (simp_all add: rereg_backoff_def upto.simps Let_def)
  from register_scripted [OF reg bo(2)] bo(1) obtain m1 where
    m1: "l1 = (l @ ?pre) @ m1" "new_attempts m1 \<le> 8" "sum_list (map slept m1) \<le> 72 * Second"
      "\<not> ok \<longrightarrow> new_attempts m1 = 8" by auto
  have run: "Reregister (scripted r) c i l = (if ok then
      proxy_mode (scripted r) c i (BasePort c + i) (apply_license (scripted r) c i (key_file c i) l1)
      else (Some (Err_Reregister i), l1))"
    using reg by (simp add: Reregister_def Let_def wcli_scripted)
  show ?thesis
  proof (cases ok)
    case False
    with assms run m1 show ?thesis by (intro exI [of _ "?pre @ m1"]) simp
  next
    case True
    from apply_license_scripted [of r c i "key_file c i" l1] obtain m2 where
      m2: "apply_license (scripted r) c i (key_file c i) l1 = l1 @ m2" "new_attempts m2 = 0"
        "sum_list (map slept m2) = 0" by blast
    from proxy_mode_effects [of r c i "BasePort c + i" "l1 @ m2" i] obtain m3 where
      m3: "snd (proxy_mode (scripted r) c i (BasePort c + i) (l1 @ m2)) = (l1 @ m2) @ m3"
        "new_attempts m3 = 0" "sum_list (map slept m3) = 0"
        "fst (proxy_mode (scripted r) c i (BasePort c + i) (l1 @ m2)) \<noteq> Some (Err_Reregister i)"
      by auto
    with True assms run m1 m2 show ?thesis
      by (intro exI [of _ "?pre @ m1 @ m2 @ m3"]) auto
  qed
qed

lemma reregister_bounded_witness:
  "\<exists>m. snd (Reregister (scripted deaf) (Default sample_host) 3 []) = m \<and> new_attempts m = 8 \<and>
     sum_list (map slept m) \<le> 72500 * Millisecond"
proof -
  have "fst (Reregister (scripted deaf) (Default sample_host) 3 []) = Some (Err_Reregister 3)"
    by (simp add: Reregister_def Let_def wcli_scripted deaf_def upto.simps)
  then obtain l' where l: "Reregister (scripted deaf) (Default sample_host) 3 [] = (Some (Err_Reregister 3), l')"
    by (metis prod.collapse)
  from reregister_bounded [OF l] l show ?thesis by auto
qed

end
