(* ===== verification/Uniqueness.thy ===== *)
theory Uniqueness
  imports Pool Warp_Control
begin

text \<open>
  Model of \<open>internal/control/uniqueness.go\<close>: the engine that admits warming backends into the
  pool, tries to give them distinct egress addresses by re-registering their instances, and
  rechecks the admitted ones. The engine's passes (\<open>tick\<close>, \<open>recheckInPool\<close>) hold its mutex, so
  each is one operation here, on the engine, the pool and the outside world; the pool is not
  changed by others meanwhile. Log calls are left out. The controller is the Linux one, present
  exactly in managed mode.
\<close>

section \<open>State\<close>

record UniqueStats =
  Collisions :: u64
  ReregAttempts :: u64
  ReregSuccess :: u64
  ReregFail :: u64
  AdmittedUnique :: u64
  AdmittedResidual :: u64
  RecheckRuns :: u64
  RecheckCollisions :: u64
  CeilingHit :: u64

record engine =
  firstOK :: bool
  regCap :: int
  regBusy :: int
  lastRegStart :: "instant option"
  nextRetry :: "int \<rightharpoonup> instant"
  recheckN :: "int \<rightharpoonup> int"
  lastRecheck :: "instant option"
  stats :: UniqueStats

definition NewUniquenessEngine :: "config \<Rightarrow> engine" where
  "NewUniquenessEngine c =
     (let n = un_MaxConcurrentReg (Uniqueness c) in
      \<lparr>firstOK = False, regCap = (if n \<le> 0 then 2 else n), regBusy = 0, lastRegStart = None,
       nextRetry = Map.empty, recheckN = Map.empty, lastRecheck = None,
       stats = \<lparr>Collisions = 0, ReregAttempts = 0, ReregSuccess = 0, ReregFail = 0,
         AdmittedUnique = 0, AdmittedResidual = 0, RecheckRuns = 0, RecheckCollisions = 0,
         CeilingHit = 0\<rparr>\<rparr>)"

text \<open>Whether the supervisor gave the engine a controller.\<close>

definition has_ctl :: "config \<Rightarrow> bool" where
  "has_ctl c \<longleftrightarrow> config.Mode c = ModeManaged"

section \<open>Parameters\<close>

definition probeURL :: "config \<Rightarrow> string" where
  "probeURL c =
     (let u = TrimSpace (un_ProbeURL (Uniqueness c)) in
      if u = '''' then ''https://api.ipify.org'' else u)"

definition maxAttempts :: "config \<Rightarrow> int" where
  "maxAttempts c = (let n = un_MaxAttempts (Uniqueness c) in if n \<le> 0 then 8 else n)"

definition backoffBase :: "config \<Rightarrow> duration" where
  "backoffBase c = (let d = un_RetryBackoff (Uniqueness c) in if d \<le> 0 then 8 * Second else d)"

definition attemptBackoff :: "config \<Rightarrow> int \<Rightarrow> duration" where
  "attemptBackoff c attempt0 =
     (let base = backoffBase c;
          attempt = (if attempt0 < 1 then 1 else attempt0);
          shift = (if attempt - 1 > 3 then 3 else attempt - 1);
          d = i64 (push_bit (nat shift) base)
      in if d > 60 * Second then 60 * Second else d)"

definition stagger :: "config \<Rightarrow> duration" where
  "stagger c =
     (let d = un_Stagger (Uniqueness c) in
      if d < 0 then 0 else if d = 0 then 3 * Second else d)"

definition recheckEvery :: "config \<Rightarrow> duration" where
  "recheckEvery c = (let d = un_RecheckEvery (Uniqueness c) in if d \<le> 0 then 60 * Second else d)"

definition recheckMax :: "config \<Rightarrow> int" where
  "recheckMax c = (let n = un_RecheckMax (Uniqueness c) in if n < 0 then 0 else n)"

section \<open>The egress probe\<close>

text \<open>The address in the body: plain text, or the string after \<open>"ip"\<close> in a JSON object.\<close>

definition quote :: char where "quote = CHR 0x22"

definition json_ip :: "string \<Rightarrow> string" where
  "json_ip s =
     (case Index s [quote, CHR ''i'', CHR ''p'', quote] of
        None \<Rightarrow> s
      | Some i \<Rightarrow>
          (let rest = drop (i + 4) s in
           case IndexByte rest quote of
             None \<Rightarrow> s
           | Some j \<Rightarrow>
               (let rest2 = drop (j + 1) rest in
                case IndexByte rest2 quote of None \<Rightarrow> s | Some k \<Rightarrow> take k rest2)))"

definition egress_ip :: "string \<Rightarrow> string option" where
  "egress_ip body =
     (let s = TrimSpace body;
          ip = (if HasPrefix s ''{'' then json_ip s else s)
      in case ParseIP ip of
           None \<Rightarrow> None
         | Some a \<Rightarrow> Some (case To4 a of Some v4 \<Rightarrow> v4_string v4 | None \<Rightarrow> IP_String a))"

definition probeEgressIPv4 :: "'w world \<Rightarrow> string \<Rightarrow> string \<Rightarrow> 'w \<Rightarrow> string option \<times> 'w" where
  "probeEgressIPv4 E addr url w =
     (case w_get E addr url w of
        (Inl e, w1) \<Rightarrow> (None, w1)
      | (Inr (status, body), w1) \<Rightarrow>
          (if status \<noteq> 200 then None else egress_ip (take 128 body), w1))"

section \<open>Re-registration\<close>

type_synonym 'w eng = "engine \<times> pool \<times> 'w"

definition bump :: "(UniqueStats \<Rightarrow> UniqueStats) \<Rightarrow> engine \<Rightarrow> engine" where
  "bump f e = e\<lparr>stats := f (stats e)\<rparr>"

text \<open>
  \<open>tryReregister\<close>: deferred (\<open>False\<close>) within the stagger gap of the last start or at the cap
  of the semaphore; otherwise one re-registration, which on success sends the backend back to
  warming.
\<close>

definition reg_gap_open :: "config \<Rightarrow> engine \<Rightarrow> instant \<Rightarrow> bool" where
  "reg_gap_open c e now \<longleftrightarrow>
     \<not> (stagger c > 0 \<and> (case lastRegStart e of None \<Rightarrow> False | Some t \<Rightarrow> stagger c - (now - t) > 0))"

definition tryReregister :: "'w world \<Rightarrow> config \<Rightarrow> int \<Rightarrow> 'w eng \<Rightarrow> bool \<times> 'w eng" where
  "tryReregister E c i = (\<lambda>(e, p, w).
     if \<not> reg_gap_open c e (w_now E w) then (False, e, p, w)
     else if regBusy e \<ge> regCap e then (False, e, p, w)
     else
       (let e1 = e\<lparr>regBusy := regBusy e + 1, lastRegStart := Some (w_now E w)\<rparr>;
            e2 = bump (\<lambda>s. s\<lparr>ReregAttempts := ReregAttempts s + 1\<rparr>) e1;
            (err, w1) = Reregister E c i w;
            e3 = e2\<lparr>regBusy := regBusy e2 - 1\<rparr>
        in if err \<noteq> None
           then (True, bump (\<lambda>s. s\<lparr>ReregFail := ReregFail s + 1\<rparr>) e3, p, w1)
           else (True, bump (\<lambda>s. s\<lparr>ReregSuccess := ReregSuccess s + 1\<rparr>) e3,
                 snd (SetWarming (w_now E w1) i (pool_ForceState (w_now E w1) i StateUnknown p)), w1)))"

section \<open>The admission pass\<close>

definition admit_as :: "(UniqueStats \<Rightarrow> UniqueStats) \<Rightarrow> 'w world \<Rightarrow> int \<Rightarrow> string \<Rightarrow> 'w eng \<Rightarrow> 'w eng" where
  "admit_as f E i ip = (\<lambda>(e, p, w). (bump f e, snd (Admit (w_now E w) i ip p), w))"

definition unique_stat :: "UniqueStats \<Rightarrow> UniqueStats" where
  "unique_stat s = s\<lparr>AdmittedUnique := AdmittedUnique s + 1\<rparr>"

definition residual_stat :: "UniqueStats \<Rightarrow> UniqueStats" where
  "residual_stat s = s\<lparr>AdmittedResidual := AdmittedResidual s + 1\<rparr>"

definition clear_retry :: "int \<Rightarrow> engine \<Rightarrow> engine" where
  "clear_retry i e = e\<lparr>nextRetry := (nextRetry e)(i := None)\<rparr>"

text \<open>A backend that stays a duplicate: parked when strict, admitted otherwise.\<close>

definition park_or_admit :: "'w world \<Rightarrow> config \<Rightarrow> int \<Rightarrow> string \<Rightarrow> 'w eng \<Rightarrow> 'w eng" where
  "park_or_admit E c i ip = (\<lambda>(e, p, w).
     if un_Strict (Uniqueness c) then (e, snd (Park (w_now E w) i ip p), w)
     else admit_as residual_stat E i ip (e, p, w))"

text \<open>The collision branch of \<open>tick\<close> for the backend at position \<open>k\<close>.\<close>

definition on_collision :: "'w world \<Rightarrow> config \<Rightarrow> nat \<Rightarrow> string \<Rightarrow> 'w eng \<Rightarrow> 'w eng" where
  "on_collision E c k ip = (\<lambda>(e0, p0, w).
     let i = ID (backends p0 ! k);
         e = bump (\<lambda>s. s\<lparr>Collisions := Collisions s + 1\<rparr>) e0;
         (tries, b) = IncUniqueAttempt (backends p0 ! k);
         p = put k b p0
     in if tries > maxAttempts c then
          (case park_or_admit E c i ip (bump (\<lambda>s. s\<lparr>CeilingHit := CeilingHit s + 1\<rparr>) e, p, w) of
             (e2, p2, w2) \<Rightarrow> (clear_retry i e2, p2, w2))
        else if \<not> has_ctl c then park_or_admit E c i ip (e, p, w)
        else
          (case tryReregister E c i (e, p, w) of
             (ok, e2, p2, w2) \<Rightarrow>
               (e2\<lparr>nextRetry := (nextRetry e2)(i \<mapsto>
                  w_now E w2 + (if ok then attemptBackoff c tries else stagger c))\<rparr>, p2, w2)))"

definition gate_closed :: "engine \<Rightarrow> int \<Rightarrow> instant \<Rightarrow> bool" where
  "gate_closed e i now \<longleftrightarrow> (case nextRetry e i of None \<Rightarrow> False | Some t \<Rightarrow> now < t)"

definition probe_ready :: "State \<Rightarrow> bool" where
  "probe_ready st \<longleftrightarrow> st = StateHealthy \<or> st = StateDegraded \<or> st = StateUnknown"

text \<open>The body of the loop of \<open>tick\<close>; \<open>now\<close> was read when the pass began.\<close>

definition tick_one :: "'w world \<Rightarrow> config \<Rightarrow> bool \<Rightarrow> instant \<Rightarrow> nat \<Rightarrow> 'w eng \<Rightarrow> 'w eng" where
  "tick_one E c effort now k = (\<lambda>(e, p, w).
     let b = backends p ! k; i = ID b in
     if admit b = AdmitInPool \<or> admit b = AdmitParked then (e, p, w)
     else if gate_closed e i now then (e, p, w)
     else if \<not> probe_ready (state b) then (e, p, w)
     else
       (case probeEgressIPv4 E (Addr b) (probeURL c) w of
          (None, w1) \<Rightarrow> (e, p, w1)
        | (Some ip, w1) \<Rightarrow>
            if \<not> firstOK e then admit_as unique_stat E i ip (e\<lparr>firstOK := True\<rparr>, p, w1)
            else if \<not> effort then admit_as residual_stat E i ip (e, p, w1)
            else
              (let used = InPoolIPv4Set p in
               if used ip = None \<or> used ip = Some i
               then admit_as unique_stat E i ip (clear_retry i e, p, w1)
               else on_collision E c k ip (e, p, w1))))"

fun tick_loop :: "'w world \<Rightarrow> config \<Rightarrow> bool \<Rightarrow> instant \<Rightarrow> nat list \<Rightarrow> 'w eng \<Rightarrow> 'w eng" where
  "tick_loop E c effort now [] s = s"
| "tick_loop E c effort now (k # ks) (e, p, w) =
     (if w_done E w then (e, p, w)
      else tick_loop E c effort now ks (tick_one E c effort now k (e, p, w)))"

definition by_id :: "pool \<Rightarrow> nat list" where
  "by_id p = sort_key (\<lambda>k. ID (backends p ! k)) [0..<length (backends p)]"

definition tick :: "'w world \<Rightarrow> config \<Rightarrow> 'w eng \<Rightarrow> 'w eng" where
  "tick E c = (\<lambda>(e, p, w). tick_loop E c (UniqueEffortActive c) (w_now E w) (by_id p) (e, p, w))"

section \<open>The recheck of admitted backends\<close>

text \<open>
  The first loop refreshes the tags and collects the later owners of an address: \<open>seen\<close> maps
  an address to its first owner. \<open>None\<close> is the early return on cancellation.
\<close>

fun refresh ::
  "'w world \<Rightarrow> config \<Rightarrow> nat list \<Rightarrow> (string \<rightharpoonup> int) \<Rightarrow> int list \<Rightarrow> 'w eng \<Rightarrow> int list option \<times> 'w eng"
where
  "refresh E c [] seen colliders s = (Some (rev colliders), s)"
| "refresh E c (k # ks) seen colliders (e, p, w) =
     (let b = backends p ! k in
      if w_done E w then (None, e, p, w)
      else if admit b \<noteq> AdmitInPool then refresh E c ks seen colliders (e, p, w)
      else if state b \<noteq> StateHealthy \<and> state b \<noteq> StateDegraded
      then refresh E c ks seen colliders (e, p, w)
      else
        (case probeEgressIPv4 E (Addr b) (probeURL c) w of
           (None, w1) \<Rightarrow> refresh E c ks seen colliders (e, p, w1)
         | (Some ip, w1) \<Rightarrow>
             (let p1 = snd (Admit (w_now E w1) (ID b) ip p) in
              if seen ip \<noteq> None \<and> seen ip \<noteq> Some (ID b)
              then refresh E c ks seen (ID b # colliders)
                     (bump (\<lambda>s. s\<lparr>RecheckCollisions := RecheckCollisions s + 1\<rparr>) e, p1, w1)
              else refresh E c ks (seen(ip \<mapsto> ID b)) colliders (e, p1, w1))))"

text \<open>The second loop re-registers the first collider with budget left.\<close>

fun spread :: "'w world \<Rightarrow> config \<Rightarrow> int list \<Rightarrow> 'w eng \<Rightarrow> 'w eng" where
  "spread E c [] s = s"
| "spread E c (i # is) (e, p, w) =
     (if recheckMax c \<le> 0 then (e, p, w)
      else
        (let n = (case recheckN e i of None \<Rightarrow> 0 | Some n \<Rightarrow> n) in
         if n \<ge> recheckMax c then spread E c is (e, p, w)
         else if gate_closed e i (w_now E w) then spread E c is (e, p, w)
         else
           (case tryReregister E c i (e, p, w) of
              (False, e1, p1, w1) \<Rightarrow>
                spread E c is (e1\<lparr>nextRetry := (nextRetry e1)(i \<mapsto> w_now E w1 + stagger c)\<rparr>, p1, w1)
            | (True, e1, p1, w1) \<Rightarrow>
                (e1\<lparr>recheckN := (recheckN e1)(i \<mapsto> n + 1),
                    nextRetry := (nextRetry e1)(i \<mapsto> w_now E w1 + attemptBackoff c (n + 1))\<rparr>, p1, w1))))"

definition mark_ceiling :: "config \<Rightarrow> pool \<Rightarrow> engine \<Rightarrow> engine" where
  "mark_ceiling c p e =
     (case AdmitStats p of
        (inPool, warming, parked, uniqueIPs) \<Rightarrow>
          if inPool > 0 \<and> uniqueIPs > 0 \<and>
             int inPool \<ge> min (Instances c) (int (length (backends p))) \<and> uniqueIPs < inPool
          then bump (\<lambda>s. s\<lparr>CeilingHit := CeilingHit s + 1\<rparr>) e else e)"

definition recheckInPool :: "'w world \<Rightarrow> config \<Rightarrow> 'w eng \<Rightarrow> 'w eng" where
  "recheckInPool E c = (\<lambda>(e, p, w).
     if \<not> UniqueEffortActive c \<or> \<not> has_ctl c then (e, p, w)
     else if recheckEvery c \<le> 0 then (e, p, w)
     else if (case lastRecheck e of None \<Rightarrow> False | Some t \<Rightarrow> w_now E w - t < recheckEvery c)
     then (e, p, w)
     else
       (let e1 = bump (\<lambda>s. s\<lparr>RecheckRuns := RecheckRuns s + 1\<rparr>) (e\<lparr>lastRecheck := Some (w_now E w)\<rparr>)
        in case refresh E c (by_id p) Map.empty [] (e1, p, w) of
             (None, s) \<Rightarrow> s
           | (Some colliders, s) \<Rightarrow>
               (case spread E c colliders s of
                  (e2, p2, w2) \<Rightarrow> (mark_ceiling c p2 e2, p2, w2))))"

section \<open>Running and reporting\<close>

text \<open>
  \<open>Run\<close> reacts to two tickers: the fast one runs a pass and is stopped once a first backend is
  in; the slow one runs a pass and a recheck.
\<close>

datatype run_event = Fast | Slow

fun run_step :: "'w world \<Rightarrow> config \<Rightarrow> run_event \<Rightarrow> bool \<times> 'w eng \<Rightarrow> bool \<times> 'w eng" where
  "run_step E c Fast (stopped, s) =
     (if stopped then (stopped, s)
      else (let s1 = tick E c s in (firstOK (fst s1), s1)))"
| "run_step E c Slow (stopped, s) = (stopped, recheckInPool E c (tick E c s))"

definition histogram_step :: "backend \<Rightarrow> (string \<rightharpoonup> int) \<Rightarrow> (string \<rightharpoonup> int)" where
  "histogram_step b out =
     (if admit b \<noteq> AdmitInPool then out
      else if egressIPv4 b = '''' then out
      else out(egressIPv4 b \<mapsto> (case out (egressIPv4 b) of None \<Rightarrow> 0 | Some n \<Rightarrow> n) + 1))"

definition egressHistogram :: "pool \<Rightarrow> (string \<rightharpoonup> int)" where
  "egressHistogram p = fold histogram_step (backends p) Map.empty"

record stats_view =
  sv_stats :: UniqueStats
  sv_ceiling_hit :: bool
  sv_unique_ipv4 :: nat
  sv_in_pool :: nat
  sv_histogram :: "string \<rightharpoonup> int"
  sv_max_concurrent_reg :: int
  sv_recheck_every_ms :: int

definition SnapshotStats :: "config \<Rightarrow> engine \<Rightarrow> pool \<Rightarrow> stats_view" where
  "SnapshotStats c e p =
     (case AdmitStats p of
        (inPool, warming, parked, uniqueIPs) \<Rightarrow>
          (let ceiling = uniqueIPs > 0 \<and> int inPool \<ge> Instances c \<and> int uniqueIPs < Instances c in
           \<lparr>sv_stats = stats e, sv_ceiling_hit = (CeilingHit (stats e) > 0 \<or> ceiling),
            sv_unique_ipv4 = uniqueIPs, sv_in_pool = inPool, sv_histogram = egressHistogram p,
            sv_max_concurrent_reg = regCap e,
            sv_recheck_every_ms = recheckEvery c sdiv Millisecond\<rparr>))"

section \<open>Probed addresses\<close>

lemma To4_length: "To4 a = Some q \<Longrightarrow> \<exists>w x y z. q = [w, x, y, z]"
  by (auto simp: To4_def length_Suc_conv numeral_eq_Suc split: if_splits)

lemma hex16_nonempty [simp]: "hex16 v \<noteq> []"
  by (simp add: hex16_def)

lemma join_colon_nonempty [simp]: "gs \<noteq> [] \<Longrightarrow> join_colon gs \<noteq> []"
  by (cases gs rule: join_colon.cases) simp_all

lemma v6_groups_nonempty: "2 \<le> length a \<Longrightarrow> v6_groups a \<noteq> []"
  by (cases a rule: v6_groups.cases) simp_all

lemma IP_String_nonempty: "IP_String a \<noteq> []"
proof (cases "To4 a")
  case None
  have "v6_string a \<noteq> []" if "length a = 16"
    using v6_groups_nonempty [of a] that
    by (auto simp: v6_string_def Let_def split: option.split)
  moreover have "length a \<noteq> 4" using None by (auto simp: To4_def)
  ultimately show ?thesis using None by (auto simp: IP_String_def)
next
  case (Some q)
  with To4_length [OF Some] show ?thesis by (auto simp: IP_String_def)
qed

lemma egress_ip_nonempty: "egress_ip body = Some ip \<Longrightarrow> ip \<noteq> ''''"
  using IP_String_nonempty
  by (auto simp: egress_ip_def Let_def dest!: To4_length split: option.splits)

lemma probe_nonempty: "probeEgressIPv4 E addr url w = (Some ip, w1) \<Longrightarrow> ip \<noteq> ''''"
  by (auto simp: probeEgressIPv4_def split: prod.splits sum.splits if_splits dest: egress_ip_nonempty)

section \<open>Pools with distinct IDs\<close>

text \<open>The index leads to exactly the backend with the ID.\<close>

definition indexed :: "pool \<Rightarrow> bool" where
  "indexed p \<longleftrightarrow> (\<forall>i k. Get i p = Some k \<longleftrightarrow> k < length (backends p) \<and> ID (backends p ! k) = i)"

lemma indexed_at: "indexed p \<Longrightarrow> k < length (backends p) \<Longrightarrow> Get (ID (backends p ! k)) p = Some k"
  by (simp add: indexed_def)

lemma at_id_indexed:
  "indexed p \<Longrightarrow> k < length (backends p) \<Longrightarrow> at_id (ID (backends p ! k)) f p = put k (f (backends p ! k)) p"
  by (simp add: at_id_def indexed_at)

text \<open>The step of one backend: nothing but its own record changes, and not its ID.\<close>

definition only_at :: "nat \<Rightarrow> pool \<Rightarrow> pool \<Rightarrow> bool" where
  "only_at k p p' \<longleftrightarrow> (\<exists>b. p' = put k b p \<and> ID b = ID (backends p ! k))"

lemma put_same [simp]: "k < length (backends p) \<Longrightarrow> put k (backends p ! k) p = p"
  by (simp add: put_def)

lemma put_put [simp]: "put k b (put k b' p) = put k b p"
  by (simp add: put_def)

lemma only_at_refl: "k < length (backends p) \<Longrightarrow> only_at k p p"
  unfolding only_at_def by (intro exI [of _ "backends p ! k"]) simp

lemma only_at_indexed: "only_at k p p' \<Longrightarrow> indexed p \<Longrightarrow> indexed p'"
  by (auto simp: only_at_def indexed_def Get_def nth_list_update) (metis nth_list_update_eq nth_list_update_neq)+

lemma only_at_trans: "only_at k p p' \<Longrightarrow> only_at k p' p'' \<Longrightarrow> k < length (backends p) \<Longrightarrow> only_at k p p''"
  by (auto simp: only_at_def)

lemma only_at_other: "only_at k p p' \<Longrightarrow> j \<noteq> k \<Longrightarrow> backends p' ! j = backends p ! j"
  by (auto simp: only_at_def)

lemma only_at_length: "only_at k p p' \<Longrightarrow> length (backends p') = length (backends p)"
  by (auto simp: only_at_def)

lemma SetAdmit_simps [simp]:
  "admit (SetAdmit now ph ip b) = ph"
  "ip \<noteq> '''' \<Longrightarrow> egressIPv4 (SetAdmit now ph ip b) = ip"
  "egressIPv4 (SetAdmit now ph '''' b) = egressIPv4 b"
  "state (SetAdmit now ph ip b) = state b"
  "admit (ForceState now st b) = admit b"
  by (simp_all add: SetAdmit_def ForceState_def Let_def)

section \<open>One step of the admission pass\<close>

lemma Admit_indexed:
  assumes "indexed p" and "k < length (backends p)"
  shows "snd (Admit now (ID (backends p ! k)) ip p) = put k (SetAdmit now AdmitInPool ip (backends p ! k)) p"
    and "snd (Park now (ID (backends p ! k)) ip p) = put k (SetAdmit now AdmitParked ip (backends p ! k)) p"
    and "snd (SetWarming now (ID (backends p ! k)) p) = put k (SetAdmit now AdmitWarming '''' (backends p ! k)) p"
    and "pool_ForceState now (ID (backends p ! k)) st p = put k (ForceState now st (backends p ! k)) p"
  using at_id_indexed [OF assms]
  by (simp_all add: Admit_def Park_def SetWarming_def pool_ForceState_def)

lemma indexed_put: "indexed p \<Longrightarrow> ID b = ID (backends p ! k) \<Longrightarrow> indexed (put k b p)"
  by (rule only_at_indexed [of k p]) (auto simp: only_at_def)

text \<open>The state in which a step may leave its backend: untouched but for the attempt
  counter, warming, parked, or admitted with the address it was probed with.\<close>

lemma tryReregister_pool:
  assumes "indexed p" and "k < length (backends p)"
    and "tryReregister E c (ID (backends p ! k)) (e, p, w) = (ok, e', p', w')"
  shows "firstOK e' = firstOK e \<and> (p' = p \<or>
    (\<exists>b. p' = put k b p \<and> ID b = ID (backends p ! k) \<and> admit b = AdmitWarming))"
proof -
  let ?b = "backends p ! k"
  obtain err w1 where r: "Reregister E c (ID ?b) w = (err, w1)" by (cases "Reregister E c (ID ?b) w")
  let ?f = "ForceState (w_now E w1) StateUnknown ?b"
  have "indexed (put k ?f p)" using assms(1) by (rule indexed_put) simp
  then have "snd (SetWarming (w_now E w1) (ID ?b) (pool_ForceState (w_now E w1) (ID ?b) StateUnknown p))
      = put k (SetAdmit (w_now E w1) AdmitWarming '''' ?f) p"
    using Admit_indexed(3) [of "put k ?f p" k] Admit_indexed(4) [OF assms(1,2)] assms(2) by simp
  with assms(3) r show ?thesis
    by (auto simp: tryReregister_def bump_def Let_def split: if_splits)
qed

lemma park_or_admit_pool:
  assumes "indexed p" and "k < length (backends p)"
    and "park_or_admit E c (ID (backends p ! k)) ip (e, p, w) = (e', p', w')"
  shows "firstOK e' = firstOK e \<and> p' = put k (SetAdmit (w_now E w)
    (if un_Strict (Uniqueness c) then AdmitParked else AdmitInPool) ip (backends p ! k)) p"
  using assms(3) Admit_indexed [OF assms(1,2)]
  by (auto simp: park_or_admit_def admit_as_def bump_def split: if_splits)

lemma on_collision_pool:
  assumes "indexed p" and "k < length (backends p)" and "ip \<noteq> ''''"
    and "on_collision E c k ip (e, p, w) = (e', p', w')"
  shows "firstOK e' = firstOK e \<and> only_at k p p' \<and>
    (admit (backends p' ! k) = AdmitInPool \<longrightarrow>
       admit (backends p ! k) = AdmitInPool \<or>
       \<not> un_Strict (Uniqueness c) \<and> egressIPv4 (backends p' ! k) = ip)"
proof -
  let ?b = "(backends p ! k)\<lparr>uniqueTries := uniqueTries (backends p ! k) + 1\<rparr>"
  let ?p = "put k ?b p" and ?i = "ID (backends p ! k)"
  have p: "indexed ?p" "k < length (backends ?p)" "ID (backends ?p ! k) = ?i"
    using assms(1,2) indexed_put [OF assms(1), of ?b k] by simp_all
  have park: "firstOK e2 = firstOK e1 \<and> only_at k p p2 \<and>
      (admit (backends p2 ! k) = AdmitInPool \<longrightarrow> \<not> un_Strict (Uniqueness c) \<and> egressIPv4 (backends p2 ! k) = ip)"
    if "park_or_admit E c ?i ip (e1, ?p, w1) = (e2, p2, w2)" for e1 e2 p2 w1 w2
  proof -
    have "firstOK e2 = firstOK e1 \<and> p2 = put k (SetAdmit (w_now E w1)
        (if un_Strict (Uniqueness c) then AdmitParked else AdmitInPool) ip ?b) p"
      using park_or_admit_pool [OF p(1,2), of E c ip e1 w1 e2 p2 w2] that p(3) assms(2) by simp
    then show ?thesis using assms(2,3) by (auto simp: only_at_def)
  qed
  have rereg: "firstOK e2 = firstOK e1 \<and> only_at k p p2 \<and>
      (admit (backends p2 ! k) = AdmitInPool \<longrightarrow> admit (backends p ! k) = AdmitInPool)"
    if "tryReregister E c ?i (e1, ?p, w) = (ok, e2, p2, w2)" for e1 ok e2 p2 w2
  proof -
    have "firstOK e2 = firstOK e1 \<and> (p2 = ?p \<or>
        (\<exists>b. p2 = put k b ?p \<and> ID b = ?i \<and> admit b = AdmitWarming))"
      using tryReregister_pool [OF p(1,2), of E c e1 w ok e2 p2 w2] that p(3) by simp
    then show ?thesis using assms(2) by (auto simp: only_at_def)
  qed
  have run: "on_collision E c k ip (e, p, w) =
     (let e1 = bump (\<lambda>s. s\<lparr>Collisions := Collisions s + 1\<rparr>) e; tries = uniqueTries (backends p ! k) + 1 in
      if tries > maxAttempts c then
        (case park_or_admit E c ?i ip (bump (\<lambda>s. s\<lparr>CeilingHit := CeilingHit s + 1\<rparr>) e1, ?p, w) of
           (e2, p2, w2) \<Rightarrow> (clear_retry ?i e2, p2, w2))
      else if \<not> has_ctl c then park_or_admit E c ?i ip (e1, ?p, w)
      else (case tryReregister E c ?i (e1, ?p, w) of
          (ok, e2, p2, w2) \<Rightarrow> (e2\<lparr>nextRetry := (nextRetry e2)(?i \<mapsto>
             w_now E w2 + (if ok then attemptBackoff c tries else stagger c))\<rparr>, p2, w2)))"
    by (simp add: on_collision_def IncUniqueAttempt_def Let_def)
  have b: "firstOK (bump f x) = firstOK x" "firstOK (clear_retry j x) = firstOK x" for f x j
    by (simp_all add: bump_def clear_retry_def)
  show ?thesis
    using assms(4) unfolding run Let_def
    by (auto split: if_splits prod.splits dest!: park rereg simp: b)
qed

text \<open>Why a backend may enter the pool with an address.\<close>

definition entitled :: "config \<Rightarrow> bool \<Rightarrow> bool \<Rightarrow> pool \<Rightarrow> string \<Rightarrow> int \<Rightarrow> bool" where
  "entitled c effort first p ip i \<longleftrightarrow> \<not> first \<or> \<not> effort \<or> \<not> un_Strict (Uniqueness c) \<or>
     InPoolIPv4Set p ip = None \<or> InPoolIPv4Set p ip = Some i"

lemma admit_as_pool:
  assumes "indexed p" and "k < length (backends p)"
    and "admit_as f E (ID (backends p ! k)) ip (e, p, w) = (e', p', w')"
  shows "p' = put k (SetAdmit (w_now E w) AdmitInPool ip (backends p ! k)) p \<and> firstOK e' = firstOK e"
  using assms(3) Admit_indexed(1) [OF assms(1,2)] by (auto simp: admit_as_def bump_def)

lemma tick_one_pool:
  assumes "indexed p" and "k < length (backends p)"
    and "tick_one E c effort now k (e, p, w) = (e', p', w')"
  shows "only_at k p p' \<and> (firstOK e \<longrightarrow> firstOK e') \<and>
    (admit (backends p ! k) \<in> {AdmitInPool, AdmitParked} \<longrightarrow> p' = p \<and> e' = e) \<and>
    (admit (backends p ! k) \<noteq> AdmitInPool \<and> admit (backends p' ! k) = AdmitInPool \<longrightarrow>
       firstOK e' \<and> egressIPv4 (backends p' ! k) \<noteq> '''' \<and>
       entitled c effort (firstOK e) p (egressIPv4 (backends p' ! k)) (ID (backends p ! k)))"
proof -
  let ?b = "backends p ! k" and ?i = "ID (backends p ! k)"
  have same: ?thesis if "p' = p" "firstOK e' = firstOK e"
      "admit ?b \<in> {AdmitInPool, AdmitParked} \<longrightarrow> e' = e"
    using that assms(2) by (auto intro: only_at_refl)
  have entry: ?thesis
    if "admit_as f E ?i ip (e1, p, w1) = (e', p', w')" "firstOK e1" "ip \<noteq> ''''"
      "entitled c effort (firstOK e) p ip ?i" "admit ?b = AdmitWarming" for f ip e1 w1
    using admit_as_pool [OF assms(1,2) that(1)] that(2-5) assms(2) by (auto simp: only_at_def)
  show ?thesis
  proof (cases "admit ?b = AdmitWarming \<and> \<not> gate_closed e ?i now \<and> probe_ready (state ?b)")
    case False
    then have "(e', p', w') = (e, p, w)"
      using assms(3)
      by (cases "admit ?b"; cases "gate_closed e ?i now"; cases "probe_ready (state ?b)")
        (simp_all add: tick_one_def Let_def)
    then show ?thesis using same by simp
  next
    case True
    obtain r w1 where pr: "probeEgressIPv4 E (Addr ?b) (probeURL c) w = (r, w1)"
      by (cases "probeEgressIPv4 E (Addr ?b) (probeURL c) w")
    show ?thesis
    proof (cases r)
      case None
      with True pr assms(3) have "(e', p', w') = (e, p, w1)" by (simp add: tick_one_def Let_def)
      with True show ?thesis using same by simp
    next
      case (Some ip)
      with pr have ip: "ip \<noteq> ''''" using probe_nonempty by metis
      have run: "tick_one E c effort now k (e, p, w) =
         (if \<not> firstOK e then admit_as unique_stat E ?i ip (e\<lparr>firstOK := True\<rparr>, p, w1)
          else if \<not> effort then admit_as residual_stat E ?i ip (e, p, w1)
          else if InPoolIPv4Set p ip = None \<or> InPoolIPv4Set p ip = Some ?i
          then admit_as unique_stat E ?i ip (clear_retry ?i e, p, w1)
          else on_collision E c k ip (e, p, w1))"
        using True pr Some by (simp add: tick_one_def Let_def)
      consider "\<not> firstOK e" | "firstOK e" "\<not> effort"
        | "firstOK e" "effort" "InPoolIPv4Set p ip = None \<or> InPoolIPv4Set p ip = Some ?i"
        | "firstOK e" "effort" "\<not> (InPoolIPv4Set p ip = None \<or> InPoolIPv4Set p ip = Some ?i)"
        by blast
      then show ?thesis
      proof cases
        case 1
        then show ?thesis using entry [of unique_stat ip] run assms(3) ip True
          by (simp add: entitled_def)
      next
        case 2
        then show ?thesis using entry [of residual_stat ip e] run assms(3) ip True
          by (simp add: entitled_def)
      next
        case 3
        then show ?thesis using entry [of unique_stat ip "clear_retry ?i e"] run assms(3) ip True
          by (simp add: entitled_def clear_retry_def)
      next
        case 4
        then have "tick_one E c effort now k (e, p, w) = on_collision E c k ip (e, p, w1)"
          unfolding run by auto
        with assms(3) have "on_collision E c k ip (e, p, w1) = (e', p', w')" by simp
        from on_collision_pool [OF assms(1,2) ip this] 4 True ip show ?thesis
          by (auto simp: entitled_def)
      qed
    qed
  qed
qed

section \<open>The whole pass\<close>

text \<open>No two backends in the pool share a (known) egress address.\<close>

definition distinct_egress :: "pool \<Rightarrow> bool" where
  "distinct_egress p \<longleftrightarrow> (\<forall>j < length (backends p). \<forall>k < length (backends p). j \<noteq> k \<and>
     admit (backends p ! j) = AdmitInPool \<and> admit (backends p ! k) = AdmitInPool \<and>
     egressIPv4 (backends p ! j) \<noteq> '''' \<longrightarrow> egressIPv4 (backends p ! j) \<noteq> egressIPv4 (backends p ! k))"

text \<open>Before the first admission the pool is empty.\<close>

definition none_before_first :: "engine \<Rightarrow> pool \<Rightarrow> bool" where
  "none_before_first e p \<longleftrightarrow>
     firstOK e \<or> (\<forall>k < length (backends p). admit (backends p ! k) \<noteq> AdmitInPool)"

lemma InPoolIPv4Set_owner:
  assumes "j < length (backends p)" and "admit (backends p ! j) = AdmitInPool"
    and "egressIPv4 (backends p ! j) = ip" and "ip \<noteq> ''''"
  shows "InPoolIPv4Set p ip \<noteq> None"
proof -
  have "ip \<in> egress_ips (backends p)"
    unfolding egress_ips_def using assms by (auto intro!: image_eqI [of _ _ "backends p ! j"])
  then have "ip \<in> dom (InPoolIPv4Set p)" by (simp add: InPoolIPv4Set_def fold_ip_owner_dom)
  then show ?thesis by auto
qed

lemma InPoolIPv4Set_self:
  assumes "indexed p" and "k < length (backends p)" and "admit (backends p ! k) \<noteq> AdmitInPool"
  shows "InPoolIPv4Set p ip \<noteq> Some (ID (backends p ! k))"
proof
  assume "InPoolIPv4Set p ip = Some (ID (backends p ! k))"
  then obtain b where b: "b \<in> set (backends p)" "ID b = ID (backends p ! k)" "admit b = AdmitInPool"
    using fold_ip_owner_ran [of "backends p" Map.empty ip] by (auto simp: InPoolIPv4Set_def)
  then obtain j where j: "j < length (backends p)" "backends p ! j = b" by (auto simp: in_set_conv_nth)
  have "Get (ID b) p = Some j" using indexed_at [OF assms(1) j(1)] unfolding j(2) .
  moreover have "Get (ID b) p = Some k" using indexed_at [OF assms(1,2)] unfolding b(2) .
  ultimately have "j = k" by simp
  with j(2) b(3) assms(3) show False by simp
qed

text \<open>What one strict step keeps.\<close>

definition strict_inv :: "'w eng \<Rightarrow> bool" where
  "strict_inv = (\<lambda>(e, p, w). indexed p \<and> distinct_egress p \<and> none_before_first e p)"

lemma strict_inv_tick_one:
  assumes "strict_inv (e, p, w)" and "k < length (backends p)" and "un_Strict (Uniqueness c)"
    and "tick_one E c True now k (e, p, w) = (e', p', w')"
  shows "strict_inv (e', p', w')"
proof -
  have idx: "indexed p" and dist: "distinct_egress p" and nbf: "none_before_first e p"
    using assms(1) by (simp_all add: strict_inv_def)
  note t = tick_one_pool [OF idx assms(2,4)]
  have len: "length (backends p') = length (backends p)" using t only_at_length by blast
  have other: "backends p' ! j = backends p ! j" if "j \<noteq> k" for j
    using t that only_at_other by blast
  have idx': "indexed p'" using t idx only_at_indexed by blast
  consider "p' = p" "e' = e" | "admit (backends p' ! k) \<noteq> AdmitInPool"
    | "admit (backends p ! k) \<noteq> AdmitInPool" "admit (backends p' ! k) = AdmitInPool"
    using t by blast
  then show ?thesis
  proof cases
    case 1
    with assms(1) show ?thesis by (simp add: strict_inv_def)
  next
    case 2
    have "distinct_egress p'"
      unfolding distinct_egress_def
    proof (intro allI impI)
      fix i j
      assume "i < length (backends p')" "j < length (backends p')"
        and ij: "i \<noteq> j \<and> admit (backends p' ! i) = AdmitInPool \<and>
          admit (backends p' ! j) = AdmitInPool \<and> egressIPv4 (backends p' ! i) \<noteq> ''''"
      then have "i \<noteq> k" "j \<noteq> k" "i < length (backends p)" "j < length (backends p)"
        using 2 len ij by metis+
      with ij dist other show "egressIPv4 (backends p' ! i) \<noteq> egressIPv4 (backends p' ! j)"
        by (simp add: distinct_egress_def)
    qed
    moreover have "none_before_first e' p'"
    proof (cases "firstOK e")
      case True
      with t show ?thesis by (simp add: none_before_first_def)
    next
      case False
      with nbf have "admit (backends p ! j) \<noteq> AdmitInPool" if "j < length (backends p)" for j
        using that by (simp add: none_before_first_def)
      then have "admit (backends p' ! j) \<noteq> AdmitInPool" if "j < length (backends p)" for j
        using that 2 other [of j] by (cases "j = k") simp_all
      then show ?thesis using len by (simp add: none_before_first_def)
    qed
    ultimately show ?thesis using idx' by (simp add: strict_inv_def)
  next
    case 3
    let ?ip = "egressIPv4 (backends p' ! k)"
    from t 3 have ip: "?ip \<noteq> ''''" "firstOK e'"
        "entitled c True (firstOK e) p ?ip (ID (backends p ! k))" by blast+
    have fresh: "egressIPv4 (backends p ! j) \<noteq> ?ip"
      if "j < length (backends p)" "admit (backends p ! j) = AdmitInPool" for j
    proof
      assume eq: "egressIPv4 (backends p ! j) = ?ip"
      from nbf that have "firstOK e" by (auto simp: none_before_first_def)
      with ip(3) assms(3) have "InPoolIPv4Set p ?ip = None"
        using InPoolIPv4Set_self [OF idx assms(2) 3(1)] by (auto simp: entitled_def)
      with InPoolIPv4Set_owner [OF that eq ip(1)] show False by simp
    qed
    have "distinct_egress p'"
      unfolding distinct_egress_def
    proof (intro allI impI)
      fix i j
      assume "i < length (backends p')" "j < length (backends p')"
        and ij: "i \<noteq> j \<and> admit (backends p' ! i) = AdmitInPool \<and>
          admit (backends p' ! j) = AdmitInPool \<and> egressIPv4 (backends p' ! i) \<noteq> ''''"
      then have "i < length (backends p)" "j < length (backends p)" using len by simp_all
      with ij dist fresh other show "egressIPv4 (backends p' ! i) \<noteq> egressIPv4 (backends p' ! j)"
        unfolding distinct_egress_def by (cases "i = k"; cases "j = k"; metis)
    qed
    with idx' ip(2) show ?thesis by (simp add: strict_inv_def none_before_first_def)
  qed
qed

lemma tick_loop_inv:
  assumes "Q s" and "\<And>k s. k \<in> set ks \<Longrightarrow> Q s \<Longrightarrow> Q (tick_one E c effort now k s)"
  shows "Q (tick_loop E c effort now ks s)"
  using assms
proof (induction ks arbitrary: s)
  case Nil
  then show ?case by simp
next
  case (Cons k ks)
  obtain e p w where s: "s = (e, p, w)" by (cases s)
  have "Q (tick_loop E c effort now ks (tick_one E c effort now k s))"
    using Cons.prems by (intro Cons.IH) simp_all
  with Cons.prems(1) show ?case by (simp add: s)
qed

lemma set_by_id [simp]: "set (by_id p) = {..<length (backends p)}"
  by (auto simp: by_id_def)

text \<open>A pass is a run of steps on positions of the pool; what every step keeps, it keeps.\<close>

lemma tick_inv:
  assumes "Q s" and "\<And>e p w. Q (e, p, w) \<Longrightarrow> length (backends p) = n"
    and "\<And>k now e p w. k < n \<Longrightarrow> Q (e, p, w) \<Longrightarrow> Q (tick_one E c (UniqueEffortActive c) now k (e, p, w))"
  shows "Q (tick E c s)"
proof -
  obtain e p w where s: "s = (e, p, w)" by (cases s)
  have "length (backends p) = n" using assms(1,2) s by simp
  then have "Q (tick_loop E c (UniqueEffortActive c) (w_now E w) (by_id p) s)"
    using assms(3) by (intro tick_loop_inv [where Q = Q] assms(1)) auto
  then show ?thesis by (simp add: tick_def s)
qed

lemma tick_one_indexed:
  assumes "indexed p" and "k < length (backends p)"
    and "tick_one E c effort now k (e, p, w) = (e', p', w')"
  shows "indexed p' \<and> length (backends p') = length (backends p) \<and> (firstOK e \<longrightarrow> firstOK e') \<and>
    (\<forall>j < length (backends p). admit (backends p ! j) = AdmitInPool \<longrightarrow> backends p' ! j = backends p ! j)"
proof -
  note t = tick_one_pool [OF assms]
  have "backends p' ! j = backends p ! j"
    if "j < length (backends p)" "admit (backends p ! j) = AdmitInPool" for j
    using t that only_at_other [of k p p' j] by (cases "j = k") auto
  then show ?thesis using t only_at_indexed [OF _ assms(1)] only_at_length by blast
qed

lemma strict_inv_tick:
  fixes E :: "'w world"
  assumes "strict_inv s" and "un_Strict (Uniqueness c)" and "UniqueEffortActive c"
  shows "strict_inv (tick E c s)"
proof -
  define n where "n = length (backends (fst (snd s)))"
  let ?Q = "\<lambda>s :: 'w eng. strict_inv s \<and> length (backends (fst (snd s))) = n"
  have "?Q (tick E c s)"
  proof (rule tick_inv [where Q = ?Q and n = n])
    show "?Q s" using assms(1) by (simp add: n_def)
  next
    fix k now e p and w :: 'w
    assume k: "k < n" and q: "?Q (e, p, w)"
    obtain e' p' w' where t: "tick_one E c (UniqueEffortActive c) now k (e, p, w) = (e', p', w')"
      by (metis prod_cases3)
    have idx: "indexed p" and len: "k < length (backends p)" using q k by (simp_all add: strict_inv_def)
    have "strict_inv (e', p', w')"
      using strict_inv_tick_one [OF _ len assms(2), of e w E now e' p' w'] q t assms(3) by simp
    with tick_one_indexed [OF idx len t] q t
    show "?Q (tick_one E c (UniqueEffortActive c) now k (e, p, w))" by simp
  qed simp
  then show ?thesis by simp
qed

lemma strict_inv_ticks:
  assumes "strict_inv s" and "un_Strict (Uniqueness c)" and "UniqueEffortActive c"
  shows "strict_inv ((tick E c ^^ n) s)"
  by (induction n) (simp_all add: assms strict_inv_tick)

lemma members_stay:
  fixes E :: "'w world"
  assumes "indexed p" and "k < length (backends p)" and "admit (backends p ! k) = AdmitInPool"
    and "tick E c (e, p, w) = (e', p', w')"
  shows "backends p' ! k = backends p ! k \<and> (firstOK e \<longrightarrow> firstOK e')"
proof -
  let ?Q = "\<lambda>(e1 :: engine, p1, w1 :: 'w). indexed p1 \<and> length (backends p1) = length (backends p) \<and>
      backends p1 ! k = backends p ! k \<and> (firstOK e \<longrightarrow> firstOK e1)"
  have "?Q (tick E c (e, p, w))"
  proof (rule tick_inv [where Q = ?Q and n = "length (backends p)"])
    fix j now and e1 :: engine and p1 and w1 :: 'w
    assume j: "j < length (backends p)" and q: "?Q (e1, p1, w1)"
    obtain e2 p2 w2 where t: "tick_one E c (UniqueEffortActive c) now j (e1, p1, w1) = (e2, p2, w2)"
      by (metis prod_cases3)
    with tick_one_indexed [of p1 j, OF _ _ t] j q assms(2,3)
    show "?Q (tick_one E c (UniqueEffortActive c) now j (e1, p1, w1))" by auto
  qed (use assms(1) in auto)
  with assms(4) show ?thesis by simp
qed

section \<open>Progress of the pass\<close>

text \<open>A backend whose turn in a pass ends with a probe that answers.\<close>

definition answering :: "'w world \<Rightarrow> config \<Rightarrow> engine \<Rightarrow> instant \<Rightarrow> backend \<Rightarrow> bool" where
  "answering E c e now b \<longleftrightarrow> admit b = AdmitWarming \<and> \<not> gate_closed e (ID b) now \<and>
     probe_ready (state b) \<and> (\<forall>w. fst (probeEgressIPv4 E (Addr b) (probeURL c) w) \<noteq> None)"

text \<open>Without uniqueness effort, or before the first admission, a step touches no retry gate.\<close>

lemma tick_one_gates:
  assumes "tick_one E c effort now k (e, p, w) = (e', p', w')" and "\<not> effort \<or> \<not> firstOK e"
  shows "nextRetry e' = nextRetry e"
  using assms
  by (cases "admit (backends p ! k)"; cases "gate_closed e (ID (backends p ! k)) now";
      cases "probe_ready (state (backends p ! k))")
    (auto simp: tick_one_def Let_def admit_as_def bump_def split: prod.splits option.splits if_splits)

lemma tick_one_admits:
  assumes "indexed p" and "k < length (backends p)" and "answering E c e now (backends p ! k)"
    and "\<not> effort \<or> \<not> firstOK e" and "tick_one E c effort now k (e, p, w) = (e', p', w')"
  shows "firstOK e' \<and> admit (backends p' ! k) = AdmitInPool"
proof -
  let ?b = "backends p ! k"
  obtain ip w1 where pr: "probeEgressIPv4 E (Addr ?b) (probeURL c) w = (Some ip, w1)"
    using assms(3) by (metis answering_def option.exhaust prod.collapse)
  have run: "tick_one E c effort now k (e, p, w) =
     (if \<not> firstOK e then admit_as unique_stat E (ID ?b) ip (e\<lparr>firstOK := True\<rparr>, p, w1)
      else if \<not> effort then admit_as residual_stat E (ID ?b) ip (e, p, w1)
      else if InPoolIPv4Set p ip = None \<or> InPoolIPv4Set p ip = Some (ID ?b)
      then admit_as unique_stat E (ID ?b) ip (clear_retry (ID ?b) e, p, w1)
      else on_collision E c k ip (e, p, w1))"
    using assms(3) pr by (simp add: tick_one_def answering_def Let_def)
  show ?thesis
  proof (cases "firstOK e")
    case False
    with run assms(5) have "admit_as unique_stat E (ID ?b) ip (e\<lparr>firstOK := True\<rparr>, p, w1) = (e', p', w')"
      by simp
    from admit_as_pool [OF assms(1,2) this] assms(2) show ?thesis by simp
  next
    case True
    with run assms(4,5) have "admit_as residual_stat E (ID ?b) ip (e, p, w1) = (e', p', w')"
      by simp
    from admit_as_pool [OF assms(1,2) this] assms(2) True show ?thesis by simp
  qed
qed

text \<open>What the loop maintains about a backend that waits for its turn.\<close>

lemma tick_loop_admits:
  fixes E :: "'w world"
  assumes "indexed p" and "k \<in> set ks" and "set ks \<subseteq> {..<length (backends p)}"
    and "answering E c e now (backends p ! k)" and "\<And>w. \<not> w_done E w"
    and "tick_loop E c effort now ks (e, p, w) = (e', p', w')"
  shows "firstOK e' \<and> (\<not> effort \<longrightarrow> admit (backends p' ! k) = AdmitInPool)"
  using assms(1-4,6)
proof (induction ks arbitrary: e p w)
  case Nil
  then show ?case by simp
next
  case (Cons j ks)
  obtain e1 p1 w1 where t: "tick_one E c effort now j (e, p, w) = (e1, p1, w1)"
    by (metis prod_cases3)
  then have loop: "tick_loop E c effort now ks (e1, p1, w1) = (e', p', w')"
    using Cons.prems(5) assms(5) by simp
  have j: "j < length (backends p)" and kl: "k < length (backends p)" using Cons.prems(2,3) by auto
  note i1 = tick_one_indexed [OF Cons.prems(1) j t]
  have rest: "firstOK e' \<and> (admit (backends p1 ! k) = AdmitInPool \<longrightarrow> admit (backends p' ! k) = AdmitInPool)"
    if "firstOK e1"
  proof -
    let ?Q = "\<lambda>(e2 :: engine, p2, w2 :: 'w). indexed p2 \<and> length (backends p2) = length (backends p1) \<and>
        firstOK e2 \<and> (admit (backends p1 ! k) = AdmitInPool \<longrightarrow> admit (backends p2 ! k) = AdmitInPool)"
    have "?Q (tick_loop E c effort now ks (e1, p1, w1))"
    proof (rule tick_loop_inv [where Q = ?Q])
      show "?Q (e1, p1, w1)" using i1 that by simp
    next
      fix m s
      assume m: "m \<in> set ks" and q: "?Q s"
      obtain e2 p2 w2 where s: "s = (e2, p2, w2)" by (metis prod_cases3)
      obtain e3 p3 w3 where t3: "tick_one E c effort now m (e2, p2, w2) = (e3, p3, w3)"
        by (metis prod_cases3)
      have "m < length (backends p2)" using m q s Cons.prems(3) i1 by auto
      from tick_one_indexed [OF _ this t3] q s t3 kl i1
      show "?Q (tick_one E c effort now m s)" by auto
    qed
    with loop show ?thesis by simp
  qed
  show ?case
  proof (cases "j = k \<and> (\<not> effort \<or> \<not> firstOK e)")
    case True
    with tick_one_admits [OF Cons.prems(1) j _ _ t] Cons.prems(4)
    have "firstOK e1 \<and> admit (backends p1 ! k) = AdmitInPool" by auto
    with rest show ?thesis by blast
  next
    case False
    show ?thesis
    proof (cases "firstOK e1 \<and> effort")
      case True
      with rest show ?thesis by blast
    next
      case wait: False
      have free: "\<not> effort \<or> \<not> firstOK e" using wait i1 by blast
      with False have "j \<noteq> k" by blast
      then have "k \<in> set ks" using Cons.prems(2) by simp
      moreover have "backends p1 ! k = backends p ! k"
        using tick_one_pool [OF Cons.prems(1) j t] \<open>j \<noteq> k\<close> only_at_other [of j p p1 k] by blast
      moreover have "nextRetry e1 = nextRetry e" using t free by (rule tick_one_gates)
      ultimately have "answering E c e1 now (backends p1 ! k)"
        using Cons.prems(4) by (simp add: answering_def gate_closed_def)
      with Cons.IH [of p1 e1 w1] i1 loop \<open>k \<in> set ks\<close> Cons.prems(3) show ?thesis by auto
    qed
  qed
qed

section \<open>Members of the pool under a recheck\<close>

definition members :: "pool \<Rightarrow> nat set" where
  "members p = {k. k < length (backends p) \<and> admit (backends p ! k) = AdmitInPool}"

text \<open>An ID that belongs to a member which is not the only one.\<close>

definition spare :: "pool \<Rightarrow> int \<Rightarrow> bool" where
  "spare p i \<longleftrightarrow> (\<exists>k \<in> members p. ID (backends p ! k) = i \<and> (\<exists>j \<in> members p. j \<noteq> k))"

definition member_id :: "pool \<Rightarrow> int \<Rightarrow> bool" where
  "member_id p i \<longleftrightarrow> (\<exists>k \<in> members p. ID (backends p ! k) = i)"

lemma members_put:
  "k < length (backends p) \<Longrightarrow>
     members (put k b p) = (if admit b = AdmitInPool then insert k (members p) else members p - {k})"
  by (auto simp: members_def nth_list_update split: if_splits)

lemma same_members:
  assumes "k \<in> members p" and "ID b = ID (backends p ! k)" and "admit b = AdmitInPool"
  shows "members (put k b p) = members p" "spare (put k b p) = spare p" "member_id (put k b p) = member_id p"
proof -
  have k: "k < length (backends p)" using assms(1) by (simp add: members_def)
  show m: "members (put k b p) = members p"
    using members_put [OF k] assms by auto
  have i: "ID ((backends p)[k := b] ! j) = ID (backends p ! j)" for j
    using assms(2) k by (cases "j = k") simp_all
  show "spare (put k b p) = spare p" by (rule ext) (simp add: spare_def m i)
  show "member_id (put k b p) = member_id p" by (rule ext) (simp add: member_id_def m i)
qed

lemma two_members:
  assumes "member_id p i" and "member_id p j" and "i \<noteq> j"
  shows "spare p i"
proof -
  from assms(1,2) obtain k m where k: "k \<in> members p" "ID (backends p ! k) = i"
    and m: "m \<in> members p" "ID (backends p ! m) = j"
    by (auto simp: member_id_def)
  with assms(3) have "m \<noteq> k" by blast
  with k m show ?thesis unfolding spare_def by blast
qed

lemma refresh_members:
  assumes "indexed p" and "set ks \<subseteq> {..<length (backends p)}"
    and "\<And>ip i. seen ip = Some i \<Longrightarrow> member_id p i" and "\<forall>i \<in> set cols. spare p i"
    and "refresh E c ks seen cols (e, p, w) = (r, e', p', w')"
  shows "indexed p' \<and> members p' = members p \<and> (case r of None \<Rightarrow> True | Some is \<Rightarrow> \<forall>i \<in> set is. spare p' i)"
  using assms
proof (induction ks arbitrary: seen cols e p w)
  case Nil
  then show ?case by auto
next
  case (Cons k ks)
  let ?b = "backends p ! k"
  have k: "k < length (backends p)" using Cons.prems(2) by simp
  have skip: ?case if "refresh E c ks seen cols (e, p, w1) = (r, e', p', w')" for w1
    using Cons.IH [OF Cons.prems(1) _ Cons.prems(3,4) that] Cons.prems(2) by simp
  show ?case
  proof (cases "\<not> w_done E w \<and> admit ?b = AdmitInPool \<and> (state ?b = StateHealthy \<or> state ?b = StateDegraded)")
    case False
    then consider "w_done E w" | "refresh E c ks seen cols (e, p, w) = (r, e', p', w')"
      using Cons.prems(5) by (auto simp: Let_def split: if_splits)
    then show ?thesis
    proof cases
      case 1
      with Cons.prems(1,5) show ?thesis by (auto simp: Let_def)
    next
      case 2
      then show ?thesis by (rule skip)
    qed
  next
    case True
    obtain q w1 where pr: "probeEgressIPv4 E (Addr ?b) (probeURL c) w = (q, w1)"
      by (cases "probeEgressIPv4 E (Addr ?b) (probeURL c) w")
    show ?thesis
    proof (cases q)
      case None
      with True pr Cons.prems(5) have "refresh E c ks seen cols (e, p, w1) = (r, e', p', w')"
        by (auto simp: Let_def)
      then show ?thesis by (rule skip)
    next
      case (Some ip)
      let ?p1 = "put k (SetAdmit (w_now E w1) AdmitInPool ip ?b) p"
      have km: "k \<in> members p" using True k by (simp add: members_def)
      note sm = same_members [OF km, of "SetAdmit (w_now E w1) AdmitInPool ip ?b"]
      have adm: "snd (Admit (w_now E w1) (ID ?b) ip p) = ?p1"
        by (rule Admit_indexed(1) [OF Cons.prems(1) k])
      have idx: "indexed ?p1" using Cons.prems(1) by (rule indexed_put) simp
      have me: "member_id p (ID ?b)" using km by (auto simp: member_id_def)
      have len: "set ks \<subseteq> {..<length (backends ?p1)}" using Cons.prems(2) by simp
      show ?thesis
      proof (cases "seen ip \<noteq> None \<and> seen ip \<noteq> Some (ID ?b)")
        case dup: True
        then obtain o' where o: "seen ip = Some o'" "o' \<noteq> ID ?b" by auto
        have "spare p (ID ?b)" using two_members [OF me Cons.prems(3) [OF o(1)]] o(2) by simp
        then have "\<forall>i \<in> set (ID ?b # cols). spare ?p1 i" using Cons.prems(4) sm(2) by simp
        moreover from dup True pr Some Cons.prems(5) adm o
        have "refresh E c ks seen (ID ?b # cols)
            (bump (\<lambda>s. s\<lparr>RecheckCollisions := RecheckCollisions s + 1\<rparr>) e, ?p1, w1) = (r, e', p', w')"
          by (auto simp: Let_def)
        ultimately have "indexed p' \<and> members p' = members ?p1 \<and>
            (case r of None \<Rightarrow> True | Some is \<Rightarrow> \<forall>i \<in> set is. spare p' i)"
          using Cons.prems(3) sm(3) by (intro Cons.IH [OF idx len]) auto
        then show ?thesis using sm(1) by simp
      next
        case new: False
        from new True pr Some Cons.prems(5) adm
        have run: "refresh E c ks (seen(ip \<mapsto> ID ?b)) cols (e, ?p1, w1) = (r, e', p', w')"
          by (auto simp: Let_def)
        have "indexed p' \<and> members p' = members ?p1 \<and>
            (case r of None \<Rightarrow> True | Some is \<Rightarrow> \<forall>i \<in> set is. spare p' i)"
          by (rule Cons.IH [OF idx len _ _ run])
            (use Cons.prems(3,4) sm(2,3) me in \<open>auto split: if_splits\<close>)
        then show ?thesis using sm(1) by simp
      qed
    qed
  qed
qed

lemma tryReregister_deferred:
  "tryReregister E c i (e, p, w) = (False, e', p', w') \<Longrightarrow> e' = e \<and> p' = p \<and> w' = w"
  by (auto simp: tryReregister_def Let_def split: if_splits prod.splits)

text \<open>A pass takes out at most one member, and only a spare one.\<close>

definition at_most_one_out :: "pool \<Rightarrow> pool \<Rightarrow> bool" where
  "at_most_one_out p p' \<longleftrightarrow> members p' = members p \<or>
     (\<exists>k \<in> members p. members p' = members p - {k} \<and> (\<exists>j \<in> members p. j \<noteq> k))"

lemma spread_members:
  assumes "indexed p" and "\<forall>i \<in> set is. spare p i" and "spread E c is (e, p, w) = (e', p', w')"
  shows "at_most_one_out p p'"
  using assms
proof (induction "is" arbitrary: e w)
  case Nil
  then show ?case by (simp add: at_most_one_out_def)
next
  case (Cons i "is")
  let ?n = "case recheckN e i of None \<Rightarrow> 0 | Some n \<Rightarrow> n"
  have skip: ?case if "spread E c is (e1, p, w1) = (e', p', w')" for e1 w1
    using Cons.IH [OF Cons.prems(1) _ that] Cons.prems(2) by simp
  show ?case
  proof (cases "recheckMax c \<le> 0 \<or> ?n \<ge> recheckMax c \<or> gate_closed e i (w_now E w)")
    case True
    with Cons.prems(3) have "p' = p \<or> spread E c is (e, p, w) = (e', p', w')"
      by (auto simp: Let_def split: if_splits)
    then show ?thesis using skip by (auto simp: at_most_one_out_def)
  next
    case False
    obtain ok e1 p1 w1 where t: "tryReregister E c i (e, p, w) = (ok, e1, p1, w1)"
      by (metis prod_cases4)
    show ?thesis
    proof (cases ok)
      case no: False
      then have "tryReregister E c i (e, p, w) = (False, e1, p1, w1)" using t by simp
      from tryReregister_deferred [OF this] have "p1 = p" by simp
      with False t no Cons.prems(3) show ?thesis using skip by (simp add: Let_def)
    next
      case yes: True
      with False t Cons.prems(3) have p1: "p' = p1" by (simp add: Let_def)
      from Cons.prems(2) obtain k where k: "k \<in> members p" "ID (backends p ! k) = i"
          "\<exists>j \<in> members p. j \<noteq> k" by (auto simp: spare_def)
      then have kl: "k < length (backends p)" by (simp add: members_def)
      have "tryReregister E c (ID (backends p ! k)) (e, p, w) = (ok, e1, p1, w1)"
        unfolding k(2) by (rule t)
      from tryReregister_pool [OF Cons.prems(1) kl this] p1
      consider "p' = p" | b where "p' = put k b p" "admit b = AdmitWarming" by blast
      then show ?thesis
      proof cases
        case 1
        then show ?thesis by (simp add: at_most_one_out_def)
      next
        case (2 b)
        then have "members p' = members p - {k}" using members_put [OF kl, of b] by simp
        with k(1,3) show ?thesis unfolding at_most_one_out_def by blast
      qed
    qed
  qed
qed

lemma recheck_members:
  assumes "indexed p" and "recheckInPool E c (e, p, w) = (e', p', w')"
  shows "at_most_one_out p p'"
proof -
  define e1 where "e1 = bump (\<lambda>s. s\<lparr>RecheckRuns := RecheckRuns s + 1\<rparr>) (e\<lparr>lastRecheck := Some (w_now E w)\<rparr>)"
  obtain r e2 p2 w2 where rf: "refresh E c (by_id p) Map.empty [] (e1, p, w) = (r, e2, p2, w2)"
    by (metis prod_cases4)
  have m: "indexed p2 \<and> members p2 = members p \<and> (case r of None \<Rightarrow> True | Some is \<Rightarrow> \<forall>i \<in> set is. spare p2 i)"
    by (rule refresh_members [OF assms(1) _ _ _ rf]) simp_all
  obtain e3 p3 w3 where sp: "spread E c (case r of None \<Rightarrow> [] | Some is \<Rightarrow> is) (e2, p2, w2) = (e3, p3, w3)"
    by (metis prod_cases3)
  have "at_most_one_out p2 p3" using m by (intro spread_members [OF _ _ sp]) (auto split: option.splits)
  then have out: "at_most_one_out p p3" using m by (simp add: at_most_one_out_def)
  have "p' = p \<or> p' = p2 \<or> p' = p3"
    using assms(2) rf sp
    by (auto simp: recheckInPool_def e1_def [symmetric] Let_def split: if_splits option.splits)
  with out m show ?thesis by (auto simp: at_most_one_out_def)
qed

section \<open>Properties\<close>

text \<open>Two warming backends whose instances always come up with the same address.\<close>

definition same_address :: script where
  "same_address = willing\<lparr>s_get := (\<lambda>l a. Inr (200, ''1.1.1.1''))\<rparr>"

definition strict_config :: config where
  "strict_config = (Default sample_host)\<lparr>config.Mode := ModeManaged,
     Uniqueness := (Uniqueness (Default sample_host))\<lparr>un_Strict := True\<rparr>\<rparr>"

definition warm_pool :: pool where
  "warm_pool = (sample_pool StrategyRoundRobin)\<lparr>backends :=
     map (\<lambda>b. b\<lparr>admit := AdmitWarming\<rparr>) (backends (sample_pool StrategyRoundRobin))\<rparr>"

lemma warm_pool_sel [simp]:
  "length (backends warm_pool) = 3"
  "k < 3 \<Longrightarrow> admit (backends warm_pool ! k) = AdmitWarming"
  by (simp_all add: warm_pool_def)

lemma indexed_warm: "indexed warm_pool"
proof -
  have "(\<exists>k. Get i warm_pool = Some k) \<longleftrightarrow> i \<in> {0, 1, 2}" for i
    by (auto simp: Get_def warm_pool_def sample_pool_def)
  moreover have "ID (backends warm_pool ! 0) = 0" "ID (backends warm_pool ! 1) = 1" "ID (backends warm_pool ! 2) = 2"
    by (simp_all add: warm_pool_def sample_pool_def NewBackend_def numeral_2_eq_2)
  moreover have "Get 0 warm_pool = Some 0" "Get 1 warm_pool = Some 1" "Get 2 warm_pool = Some 2"
    by (simp_all add: Get_def warm_pool_def sample_pool_def)
  moreover have "k < 3 \<longleftrightarrow> k = 0 \<or> k = 1 \<or> k = 2" for k :: nat by auto
  ultimately show ?thesis by (simp add: indexed_def) (metis option.inject zero_neq_one)
qed

text \<open>C8 (safety): in strict mode the admission pass never lets two backends with one egress
  address into the pool. From any engine whose pool is free of duplicates (and empty before the
  first admission), any number of passes, with whatever probe results, commands and clock, keep
  the known addresses of the pool's members pairwise distinct.\<close>

theorem strict_passes_keep_distinct:
  assumes "indexed p" and "distinct_egress p" and "none_before_first e p"
    and "un_Strict (Uniqueness c)" and "UniqueEffortActive c"
    and "(tick E c ^^ n) (e, p, w) = (e', p', w')"
  shows "distinct_egress p'"
  using strict_inv_ticks [where s = "(e, p, w)" and c = c and E = E and n = n] assms by (simp add: strict_inv_def)

lemma strict_passes_keep_distinct_witness:
  "distinct_egress (fst (snd ((tick (scripted same_address) strict_config ^^ 3)
     (NewUniquenessEngine strict_config, warm_pool, []))))"
proof -
  obtain e' p' w' where t: "(tick (scripted same_address) strict_config ^^ 3)
      (NewUniquenessEngine strict_config, warm_pool, []) = (e', p', w')"
    by (metis prod_cases3)
  have "distinct_egress warm_pool" "none_before_first (NewUniquenessEngine strict_config) warm_pool"
    by (simp_all add: distinct_egress_def none_before_first_def)
  moreover have "un_Strict (Uniqueness strict_config)" "UniqueEffortActive strict_config"
    by (simp_all add: strict_config_def Default_def UniqueEffortActive_def)
  ultimately show ?thesis using strict_passes_keep_distinct [OF indexed_warm _ _ _ _ t] t by simp
qed



text \<open>C25 (safety): the recheck takes capacity away, but never the last of it. A recheck moves at
  most one backend out of the pool (the re-registered duplicate, which goes back to warming),
  and only while another member stays; all other memberships are as before.\<close>

theorem recheck_keeps_pool_alive:
  assumes "indexed p" and "recheckInPool E c (e, p, w) = (e', p', w')"
  shows "(members p' = members p \<or> (\<exists>k \<in> members p. members p' = members p - {k})) \<and>
    (members p \<noteq> {} \<longrightarrow> members p' \<noteq> {})"
  using recheck_members [OF assms] unfolding at_most_one_out_def by blast

text \<open>The three backends in the pool with one address.\<close>

definition crowded :: pool where
  "crowded = (sample_pool StrategyRoundRobin)\<lparr>backends :=
     map (\<lambda>b. b\<lparr>egressIPv4 := ''1.1.1.1''\<rparr>) (backends (sample_pool StrategyRoundRobin))\<rparr>"

lemma recheck_keeps_pool_alive_witness:
  "let p' = fst (snd (recheckInPool (scripted same_address) strict_config
              (NewUniquenessEngine strict_config, crowded, [])))
   in members p' \<noteq> {}"
proof -
  obtain e' p' w' where t: "recheckInPool (scripted same_address) strict_config
      (NewUniquenessEngine strict_config, crowded, []) = (e', p', w')"
    by (metis prod_cases3)
  have b: "backends crowded = map (\<lambda>b. b\<lparr>admit := AdmitInPool, egressIPv4 := ''1.1.1.1''\<rparr>) (backends warm_pool)"
    by (simp add: crowded_def warm_pool_def sample_pool_def NewBackend_def)
  have "indexed crowded"
    using indexed_warm unfolding indexed_def Get_def
    by (auto simp: b) (simp_all add: crowded_def warm_pool_def)
  moreover have "0 \<in> members crowded" by (simp add: members_def b)
  ultimately have "members p' \<noteq> {}" using recheck_keeps_pool_alive [OF _ t] by blast
  with t show ?thesis by (simp add: Let_def)
qed

text \<open>The backoff between attempts is the documented one, capped exponential: the
  base doubled with every attempt, at most three times, and never more than a minute; so it is
  positive and grows with the attempt. The base must be below \<open>2 ^ 60\<close> nanoseconds (36 years):
  the shift would overflow above.\<close>

theorem attempt_backoff_bounds:
  assumes "un_RetryBackoff (Uniqueness c) < 2 ^ 60"
  shows "attemptBackoff c n = min (60 * Second) (backoffBase c * 2 ^ nat (min 3 (max 0 (n - 1)))) \<and>
    0 < attemptBackoff c n \<and> attemptBackoff c n \<le> 60 * Second \<and>
    attemptBackoff c n \<le> attemptBackoff c (n + 1)"
proof -
  let ?s = "\<lambda>n. nat (min 3 (max 0 (n - 1)))"
  have base: "0 < backoffBase c" "backoffBase c < 2 ^ 60"
    using assms by (auto simp: backoffBase_def Let_def)
  have eq: "attemptBackoff c m = min (60 * Second) (backoffBase c * 2 ^ ?s m)" for m
  proof -
    have "?s m \<le> 3" by linarith
    then have "(2::int) ^ ?s m \<le> 2 ^ 3" by (intro power_increasing) simp_all
    then have "backoffBase c * 2 ^ ?s m \<le> backoffBase c * 2 ^ 3"
      using base by (intro mult_left_mono) simp_all
    also have "\<dots> < 2 ^ 63" using base(2) by simp
    finally have "i64 (backoffBase c * 2 ^ ?s m) = backoffBase c * 2 ^ ?s m"
      using base(1) by (intro i64_id) (auto intro: order_trans [of _ 0])
    moreover have "(if (if m < 1 then 1 else m) - 1 > 3 then 3 else (if m < 1 then 1 else m) - 1)
        = min 3 (max 0 (m - 1))"
      by simp
    ultimately show ?thesis
      by (simp only: attemptBackoff_def Let_def push_bit_eq_mult) (simp add: min_def)
  qed
  have "?s n \<le> ?s (n + 1)" by linarith
  then have "backoffBase c * 2 ^ ?s n \<le> backoffBase c * 2 ^ ?s (n + 1)"
    using base(1) by (intro mult_left_mono power_increasing) simp_all
  then have "attemptBackoff c n \<le> attemptBackoff c (n + 1)"
    unfolding eq by (intro min.mono order_refl)
  moreover have "0 < backoffBase c * 2 ^ ?s n" using base(1) by (rule mult_pos_pos) simp
  then have "0 < attemptBackoff c n" unfolding eq by (subst min_less_iff_conj) simp
  moreover have "attemptBackoff c n \<le> 60 * Second" unfolding eq by (rule min.cobounded1)
  ultimately show ?thesis using eq [of n] by blast
qed

lemma attempt_backoff_bounds_witness:
  "map (attemptBackoff (Default sample_host)) [1, 2, 3, 4, 9] =
     [8 * Second, 16 * Second, 32 * Second, 60 * Second, 60 * Second]"
proof -
  have d: "un_RetryBackoff (Uniqueness (Default sample_host)) = 8 * Second" by (simp add: Default_def)
  then have "un_RetryBackoff (Uniqueness (Default sample_host)) < 2 ^ 60" by simp
  note b = attempt_backoff_bounds [OF this, THEN conjunct1]
  have "backoffBase (Default sample_host) = 8 * Second" using d by (simp add: backoffBase_def Let_def)
  then show ?thesis by (simp add: b)
qed

text \<open>A deferred re-registration costs an attempt. When a colliding backend's turn
  comes within the stagger gap of another's re-registration, no re-registration is attempted,
  yet the backend's attempt counter has gone up: of the \<open>MaxAttempts\<close> attempts of a slot some
  never take place.\<close>

theorem deferral_costs_an_attempt:
  assumes "k < length (backends p)" and "has_ctl c"
    and "uniqueTries (backends p ! k) < maxAttempts c" and "\<not> reg_gap_open c e (w_now E w)"
    and "on_collision E c k ip (e, p, w) = (e', p', w')"
  shows "w' = w \<and> ReregAttempts (stats e') = ReregAttempts (stats e) \<and>
    uniqueTries (backends p' ! k) = uniqueTries (backends p ! k) + 1"
  using assms
  by (auto simp: on_collision_def IncUniqueAttempt_def tryReregister_def reg_gap_open_def bump_def Let_def
      split: if_splits)

lemma deferral_costs_an_attempt_witness:
  "let (e', p', w') = on_collision (scripted same_address) strict_config 2 ''1.1.1.1''
       ((NewUniquenessEngine strict_config)\<lparr>lastRegStart := Some 0\<rparr>, warm_pool, [])
   in w' = [] \<and> uniqueTries (backends p' ! 2) = 1"
proof -
  obtain e' p' w' where r: "on_collision (scripted same_address) strict_config 2 ''1.1.1.1''
      ((NewUniquenessEngine strict_config)\<lparr>lastRegStart := Some 0\<rparr>, warm_pool, []) = (e', p', w')"
    by (metis prod_cases3)
  have "has_ctl strict_config" "maxAttempts strict_config = 8" "stagger strict_config = 3 * Second"
    by (simp_all add: strict_config_def has_ctl_def maxAttempts_def stagger_def Default_def Let_def)
  moreover have t: "uniqueTries (backends warm_pool ! 2) = 0"
    by (simp add: warm_pool_def sample_pool_def NewBackend_def numeral_2_eq_2)
  ultimately show ?thesis
    using deferral_costs_an_attempt [OF _ _ _ _ r] r by (simp add: reg_gap_open_def)
qed

end
