(* ===== verification/Health.thy ===== *)
theory Health
  imports Uniqueness "HOL-Library.Multiset"
begin

text \<open>
  Model of \<open>internal/health/health.go\<close>: one probe through a backend's SOCKS5 port, the
  verdict on its body, and the pass over all backends. The passes of the code run one goroutine
  per backend; here the backends are taken in list order, and a property shows that the order
  does not matter. The texts of the errors are formatted by \<open>say\<close>, a parameter.
\<close>

section \<open>One probe\<close>

datatype probe_error = Get_Failed string | Bad_Status nat | Warp_Inactive string

text \<open>One line of the trace body.\<close>

definition trace_line :: "string \<Rightarrow> ProbeInfo \<Rightarrow> ProbeInfo" where
  "trace_line line info =
     (case CutPrefix line ''warp='' of
        Some v \<Rightarrow> info\<lparr>Warp := TrimSpace v\<rparr>
      | None \<Rightarrow>
          (case CutPrefix line ''ip='' of
             Some v \<Rightarrow> info\<lparr>IP := TrimSpace v\<rparr>
           | None \<Rightarrow>
               (case CutPrefix line ''loc='' of
                  Some v \<Rightarrow> info\<lparr>Loc := TrimSpace v\<rparr>
                | None \<Rightarrow> info)))"

definition parse_trace :: "string \<Rightarrow> duration \<Rightarrow> ProbeInfo" where
  "parse_trace body latency =
     fold trace_line (Split body (CHR 0x0A))
       \<lparr>Warp = '''', IP = '''', Loc = '''', LatencyMS = latency\<rparr>"

definition probeOne ::
  "'w world \<Rightarrow> string \<Rightarrow> string \<Rightarrow> bool \<Rightarrow> 'w \<Rightarrow> (probe_error + ProbeInfo) \<times> 'w" where
  "probeOne E addr url requireWarp w =
     (case w_get E addr url w of
        (Inl e, w1) \<Rightarrow> (Inl (Get_Failed e), w1)
      | (Inr (status, body), w1) \<Rightarrow>
          (if status \<noteq> 200 then Inl (Bad_Status status)
           else
             (let info = parse_trace body ((w_now E w1 - w_now E w) sdiv Millisecond) in
              if requireWarp \<and> Warp info \<noteq> ''on'' \<and> Warp info \<noteq> ''plus''
              then Inl (Warp_Inactive (Warp info)) else Inr info), w1))"

section \<open>A pass over the backends\<close>

text \<open>What the goroutine of the backend at position \<open>k\<close> does with the result.\<close>

definition record_probe ::
  "(probe_error \<Rightarrow> string) \<Rightarrow> instant \<Rightarrow> nat \<Rightarrow> probe_error + ProbeInfo \<Rightarrow> pool \<Rightarrow> pool" where
  "record_probe say now k r p =
     (let i = ID (backends p ! k) in
      case r of
        Inr info \<Rightarrow> pool_MarkProbeOK now i info p
      | Inl err \<Rightarrow>
          (let p1 = pool_MarkProbeFail now i (say err) p in
           if fails (backends p1 ! k) \<ge> 3 then pool_ForceState now i StateUnhealthy p1 else p1))"

fun probe_each ::
  "'w world \<Rightarrow> (probe_error \<Rightarrow> string) \<Rightarrow> config \<Rightarrow> nat list \<Rightarrow> pool \<times> 'w \<Rightarrow> pool \<times> 'w" where
  "probe_each E say c [] s = s"
| "probe_each E say c (k # ks) (p, w) =
     (case probeOne E (Addr (backends p ! k)) (ProbeURL c) (RequireWarp c) w of
        (r, w1) \<Rightarrow> probe_each E say c ks (record_probe say (w_now E w1) k r p, w1))"

definition probeAll :: "'w world \<Rightarrow> (probe_error \<Rightarrow> string) \<Rightarrow> config \<Rightarrow> pool \<times> 'w \<Rightarrow> pool \<times> 'w" where
  "probeAll E say c = (\<lambda>(p, w). probe_each E say c [0..<length (backends p)] (p, w))"

text \<open>
  \<open>Run\<close>: a pass at once, then a ticker, which panics on an interval that is not positive; then
  a pass per tick, of which \<open>n\<close> are run before the context ends.
\<close>

definition prober_Run ::
  "'w world \<Rightarrow> (probe_error \<Rightarrow> string) \<Rightarrow> config \<Rightarrow> nat \<Rightarrow> pool \<times> 'w \<Rightarrow> panic + (pool \<times> 'w)" where
  "prober_Run E say c n s =
     (let s1 = probeAll E say c s in
      if ProbeEvery c \<le> 0 then Inl Non_Positive_Ticker_Interval
      else Inr ((probeAll E say c ^^ n) s1))"

section \<open>Lemmas\<close>

text \<open>On a pool with distinct IDs a recorded probe touches its own backend and one counter.\<close>

definition probed :: "(probe_error \<Rightarrow> string) \<Rightarrow> instant \<Rightarrow> probe_error + ProbeInfo \<Rightarrow> backend \<Rightarrow> backend" where
  "probed say now r b =
     (case r of
        Inr info \<Rightarrow> MarkProbeOK now info b
      | Inl err \<Rightarrow>
          (let b1 = MarkProbeFail now (say err) b in
           if fails b1 \<ge> 3 then ForceState now StateUnhealthy b1 else b1))"

definition tally :: "probe_error + ProbeInfo \<Rightarrow> Metrics \<Rightarrow> Metrics" where
  "tally r m = (case r of Inr info \<Rightarrow> m\<lparr>Success := Success m + 1\<rparr> | Inl err \<Rightarrow> m\<lparr>Failure := Failure m + 1\<rparr>)"

lemma probed_ID [simp]: "ID (probed say now r b) = ID b"
  by (simp add: probed_def Let_def split: sum.split)

lemma put_metrics: "put k b (p\<lparr>metrics := m\<rparr>) = (put k b p)\<lparr>metrics := m\<rparr>"
  by (simp add: put_def)

lemma record_probe_eq:
  assumes "indexed p" and "k < length (backends p)"
  shows "record_probe say now k r p =
    (put k (probed say now r (backends p ! k)) p)\<lparr>metrics := tally r (metrics p)\<rparr>"
proof (cases r)
  case (Inr info)
  with indexed_at [OF assms] show ?thesis
    by (simp add: record_probe_def pool_MarkProbeOK_def probed_def tally_def)
next
  case (Inl err)
  let ?b1 = "MarkProbeFail now (say err) (backends p ! k)"
  let ?p1 = "(put k ?b1 p)\<lparr>metrics := (metrics p)\<lparr>Failure := Failure (metrics p) + 1\<rparr>\<rparr>"
  have p1: "pool_MarkProbeFail now (ID (backends p ! k)) (say err) p = ?p1"
    using indexed_at [OF assms] by (simp add: pool_MarkProbeFail_def)
  have "indexed (put k ?b1 p)" using assms(1) by (rule indexed_put) simp
  then have "indexed ?p1" by (simp add: indexed_def Get_def)
  from Admit_indexed(4) [OF this, of k now StateUnhealthy] assms(2)
  have "pool_ForceState now (ID (backends p ! k)) StateUnhealthy ?p1 = put k (ForceState now StateUnhealthy ?b1) ?p1"
    by simp
  with Inl p1 assms(2) show ?thesis
    by (simp add: record_probe_def probed_def tally_def Let_def put_metrics)
qed

lemma indexed_metrics [simp]: "indexed (p\<lparr>metrics := m\<rparr>) = indexed p"
  by (simp add: indexed_def Get_def)

lemma record_probe_keeps:
  assumes "indexed p" and "k < length (backends p)"
  shows "indexed (record_probe say now k r p)"
    and "length (backends (record_probe say now k r p)) = length (backends p)"
    and "j \<noteq> k \<Longrightarrow> backends (record_probe say now k r p) ! j = backends p ! j"
    and "backends (record_probe say now k r p) ! k = probed say now r (backends p ! k)"
  using indexed_put [OF assms(1), of "probed say now r (backends p ! k)" k] assms(2)
  by (simp_all add: record_probe_eq [OF assms])

lemma record_probe_commute:
  assumes "indexed p" and "j < length (backends p)" and "k < length (backends p)" and "j \<noteq> k"
  shows "record_probe say t j r (record_probe say s k q p) =
    record_probe say s k q (record_probe say t j r p)"
proof -
  note kj = record_probe_keeps [OF assms(1,3), where say = say and now = s and r = q]
  note jk = record_probe_keeps [OF assms(1,2), where say = say and now = t and r = r]
  have "record_probe say t j r (record_probe say s k q p) =
      (put j (probed say t r (backends p ! j)) (put k (probed say s q (backends p ! k)) p))
        \<lparr>metrics := tally r (tally q (metrics p))\<rparr>"
    using assms record_probe_eq [OF kj(1), of j say t r] kj(2,3) record_probe_eq [OF assms(1,3), of say s q]
    by (simp add: put_metrics)
  moreover have "record_probe say s k q (record_probe say t j r p) =
      (put k (probed say s q (backends p ! k)) (put j (probed say t r (backends p ! j)) p))
        \<lparr>metrics := tally q (tally r (metrics p))\<rparr>"
    using assms record_probe_eq [OF jk(1), of k say s q] jk(2,3) record_probe_eq [OF assms(1,2), of say t r]
    by (simp add: put_metrics)
  moreover have "tally r (tally q m) = tally q (tally r m)" for m
    by (auto simp: tally_def split: sum.split)
  moreover have "put j b (put k b' p) = put k b' (put j b p)" for b b'
    using assms(4) by (simp add: put_def list_update_swap)
  ultimately show ?thesis by simp
qed

subsection \<open>The order of the goroutines\<close>

text \<open>
  The verdicts of a pass, in list order: the instant and the result of each backend's probe.
  Addresses never change, so they do not depend on what is recorded meanwhile.
\<close>

fun verdicts :: "'w world \<Rightarrow> config \<Rightarrow> backend list \<Rightarrow> 'w \<Rightarrow> (instant \<times> (probe_error + ProbeInfo)) list" where
  "verdicts E c [] w = []"
| "verdicts E c (b # bs) w =
     (case probeOne E (Addr b) (ProbeURL c) (RequireWarp c) w of
        (r, w1) \<Rightarrow> (w_now E w1, r) # verdicts E c bs w1)"

text \<open>Recording the verdicts \<open>v\<close> in the order \<open>ks\<close> of positions.\<close>

definition record_in ::
  "(probe_error \<Rightarrow> string) \<Rightarrow> (nat \<Rightarrow> instant \<times> (probe_error + ProbeInfo)) \<Rightarrow> nat list \<Rightarrow> pool \<Rightarrow> pool"
where
  "record_in say v ks p = fold (\<lambda>k. record_probe say (fst (v k)) k (snd (v k))) ks p"

lemma probed_Addr [simp]: "Addr (probed say now r b) = Addr b"
  by (simp add: probed_def MarkProbeOK_def MarkProbeFail_def MarkFailure_def markFailureLocked_def
      ForceState_def Let_def split: sum.split)

lemma record_in_keeps:
  "indexed p \<Longrightarrow> \<forall>k \<in> set ks. k < length (backends p) \<Longrightarrow>
   indexed (record_in say v ks p) \<and> length (backends (record_in say v ks p)) = length (backends p)"
  by (induction ks arbitrary: p) (simp_all add: record_in_def record_probe_keeps)

lemma record_in_front:
  "indexed p \<Longrightarrow> \<forall>k \<in> set (xs @ [j]). k < length (backends p) \<Longrightarrow> j \<notin> set xs \<Longrightarrow>
   record_in say v (xs @ [j]) p = record_in say v (j # xs) p"
proof (induction xs arbitrary: p)
  case Nil
  show ?case by simp
next
  case (Cons x xs)
  let ?p = "record_probe say (fst (v x)) x (snd (v x)) p"
  have "record_in say v ((x # xs) @ [j]) p = record_in say v (xs @ [j]) ?p" by (simp add: record_in_def)
  also have "\<dots> = record_in say v (j # xs) ?p"
    using Cons by (simp add: record_probe_keeps)
  also have "\<dots> = record_in say v (j # x # xs) p"
    using Cons.prems record_probe_commute [of p j x say "fst (v j)" "snd (v j)" "fst (v x)" "snd (v x)"]
    by (simp add: record_in_def)
  finally show ?case .
qed

lemma record_in_append: "record_in say v (xs @ ys) p = record_in say v ys (record_in say v xs p)"
  by (simp add: record_in_def)

lemma record_in_perm:
  assumes "mset js = mset ks" and "distinct ks" and "indexed p" and "\<forall>k \<in> set ks. k < length (backends p)"
  shows "record_in say v js p = record_in say v ks p"
  using assms
proof (induction ks arbitrary: js p)
  case Nil
  then show ?case by simp
next
  case (Cons k ks)
  have "k \<in> set js" using Cons.prems(1) by (metis list.set_intros(1) set_mset_mset)
  then obtain xs ys where js: "js = xs @ k # ys" by (meson split_list)
  have rest: "mset (xs @ ys) = mset ks" using Cons.prems(1) by (simp add: js)
  then have sub: "set xs \<union> set ys = set ks" by (metis set_append set_mset_mset)
  then have "k \<notin> set xs" using Cons.prems(2) by auto
  then have "record_in say v (xs @ [k]) p = record_in say v (k # xs) p"
    using Cons.prems(3,4) sub by (intro record_in_front) auto
  then have "record_in say v js p = record_in say v (k # xs @ ys) p"
    by (simp add: js record_in_append [of say v "xs @ [k]" ys, simplified] record_in_append [of say v "k # xs" ys, simplified])
  also have "\<dots> = record_in say v (xs @ ys) (record_in say v [k] p)" by (simp add: record_in_def)
  also have "\<dots> = record_in say v ks (record_in say v [k] p)"
    using Cons.prems record_in_keeps [of p "[k]" say v] by (intro Cons.IH [OF rest]) auto
  finally show ?case by (simp add: record_in_def)
qed

lemma probe_each_eq:
  assumes "indexed p" and "a + length vs = length (backends p)"
    and "vs = verdicts E c (drop a (backends p)) w" and "\<And>i. i < length vs \<Longrightarrow> v (a + i) = vs ! i"
  shows "fst (probe_each E say c [a..<length (backends p)] (p, w)) = record_in say v [a..<length (backends p)] p"
  using assms
proof (induction vs arbitrary: a p w)
  case Nil
  then show ?case by (simp add: record_in_def)
next
  case (Cons x vs)
  have a: "a < length (backends p)" using Cons.prems(2) by simp
  then have d: "drop a (backends p) = backends p ! a # drop (Suc a) (backends p)"
    by (simp add: Cons_nth_drop_Suc)
  obtain r w1 where r: "probeOne E (Addr (backends p ! a)) (ProbeURL c) (RequireWarp c) w = (r, w1)"
    by fastforce
  let ?p = "record_probe say (w_now E w1) a r p"
  note keep = record_probe_keeps [OF Cons.prems(1) a, where say = say and now = "w_now E w1" and r = r]
  have va: "v a = (w_now E w1, r)" using Cons.prems(3) Cons.prems(4) [of 0] by (simp add: d r)
  have "drop (Suc a) (backends ?p) = drop (Suc a) (backends p)"
    using keep(2,3) by (intro nth_equalityI) simp_all
  then have vs: "vs = verdicts E c (drop (Suc a) (backends ?p)) w1"
    using Cons.prems(3) by (simp add: d r)
  have "fst (probe_each E say c [Suc a..<length (backends ?p)] (?p, w1)) =
      record_in say v [Suc a..<length (backends ?p)] ?p"
    by (rule Cons.IH) (use Cons.prems(2) Cons.prems(4) [of "Suc i" for i] vs keep in auto)
  then show ?case using a by (simp add: upt_conv_Cons r keep(2) record_in_def va)
qed

lemma length_verdicts [simp]: "length (verdicts E c bs w) = length bs"
  by (induction bs arbitrary: w) (simp_all split: prod.split)

subsection \<open>Repeated failures\<close>

lemma probed_failed:
  "fails (probed say t (Inl e) b) = fails b + 1"
  "FailTimeout (probed say t (Inl e) b) = FailTimeout b"
  "2 \<le> fails b \<Longrightarrow> state (probed say t (Inl e) b) = StateUnhealthy \<and> lastChange (probed say t (Inl e) b) = t"
  by (simp_all add: probed_def be_defs Let_def)

lemma probed_failures:
  assumes "vs \<noteq> []" and "\<forall>(t, r) \<in> set vs. isl r"
  shows "\<exists>b'. fold (\<lambda>(t, r). probed say t r) vs b = b' \<and> fails b' = fails b + int (length vs) \<and>
     FailTimeout b' = FailTimeout b \<and>
     (3 \<le> fails b' \<longrightarrow> state b' = StateUnhealthy \<and> lastChange b' = fst (last vs))"
  using assms
proof (induction vs rule: rev_induct)
  case Nil
  then show ?case by simp
next
  case (snoc v vs)
  obtain t e where v: "v = (t, Inl e)" using snoc.prems(2) by (cases v) (auto simp: isl_def)
  let ?b = "fold (\<lambda>(t, r). probed say t r) vs b"
  have "fails ?b = fails b + int (length vs) \<and> FailTimeout ?b = FailTimeout b"
    using snoc by (cases "vs = []") auto
  then show ?case using probed_failed [where say = say and t = t and e = e and b = ?b] by (auto simp: v)
qed

lemma record_probes:
  "indexed p \<Longrightarrow> k < length (backends p) \<Longrightarrow>
   indexed (fold (\<lambda>(t, r). record_probe say t k r) vs p) \<and>
   length (backends (fold (\<lambda>(t, r). record_probe say t k r) vs p)) = length (backends p) \<and>
   backends (fold (\<lambda>(t, r). record_probe say t k r) vs p) ! k = fold (\<lambda>(t, r). probed say t r) vs (backends p ! k)"
proof (induction vs arbitrary: p)
  case Nil
  then show ?case by simp
next
  case (Cons v vs)
  obtain t r where v: "v = (t, r)" by (cases v)
  from Cons show ?case by (simp add: v record_probe_keeps)
qed

lemma Validate_ProbeEvery [simp]: "Validate h (c\<lparr>ProbeEvery := d\<rparr>) = Validate h c"
  by (simp add: Validate_def BackendAddrs_def AuthEnabled_def UniqueEffortActive_def)

section \<open>Properties\<close>

text \<open>C27. The goroutines of a pass may record their verdicts in any order: the pool that results
  is the one of recording them in list order, which is what \<open>probeAll\<close> computes.\<close>

theorem pass_order_irrelevant:
  assumes "indexed p" and "mset js = mset [0..<length (backends p)]"
  shows "record_in say (\<lambda>k. verdicts E c (backends p) w ! k) js p = fst (probeAll E say c (p, w))"
proof -
  let ?v = "\<lambda>k. verdicts E c (backends p) w ! k"
  have "record_in say ?v js p = record_in say ?v [0..<length (backends p)] p"
    using assms by (intro record_in_perm) auto
  also have "\<dots> = fst (probe_each E say c [0..<length (backends p)] (p, w))"
    by (rule probe_each_eq [OF assms(1), of 0 "verdicts E c (backends p) w", symmetric]) simp_all
  finally show ?thesis by (simp add: probeAll_def)
qed

lemma pass_order_irrelevant_witness:
  "record_in (\<lambda>e. ''probe failed'') (\<lambda>k. verdicts (scripted same_address) strict_config (backends warm_pool) [] ! k)
     [2, 0, 1] warm_pool
   = fst (probeAll (scripted same_address) (\<lambda>e. ''probe failed'') strict_config (warm_pool, []))"
proof (rule pass_order_irrelevant [OF indexed_warm])
  show "mset [2, 0, 1] = mset [0..<length (backends warm_pool)]" by (simp only: warm_pool_sel) code_simp
qed

text \<open>C28. Three failed probes in a row take a backend out of the rotation whatever its
  \<open>MaxFails\<close> is: it is unhealthy, and no selection considers it before the \<open>FailTimeout\<close>
  of the pool has passed since the last failure.\<close>

theorem three_failed_probes_remove:
  assumes "indexed p" and "k < length (backends p)" and "0 \<le> fails (backends p ! k)"
    and "3 \<le> length vs" and "\<forall>(t, r) \<in> set vs. isl r"
    and "now < fst (last vs) + FailTimeout (backends p ! k)"
  shows "state (backends (fold (\<lambda>(t, r). record_probe say t k r) vs p) ! k) = StateUnhealthy \<and>
     \<not> fst (IsSelectable now (backends (fold (\<lambda>(t, r). record_probe say t k r) vs p) ! k))"
proof -
  let ?b = "backends (fold (\<lambda>(t, r). record_probe say t k r) vs p) ! k"
  have b: "?b = fold (\<lambda>(t, r). probed say t r) vs (backends p ! k)"
    using record_probes [OF assms(1,2)] by blast
  have "vs \<noteq> []" using assms(4) by auto
  from probed_failures [OF this assms(5), where say = say and b = "backends p ! k"] assms(3,4)
  have "state ?b = StateUnhealthy" "lastChange ?b = fst (last vs)" "FailTimeout ?b = FailTimeout (backends p ! k)"
    unfolding b by auto
  with assms(6) show ?thesis by (simp add: selectable_iff selectable_def [symmetric])
qed

lemma three_failed_probes_remove_witness:
  "\<not> fst (IsSelectable 25 (backends (fold (\<lambda>(t, r). record_probe (\<lambda>e. ''x'') t 0 r)
     [(1, Inl (Bad_Status 502)), (2, Inl (Bad_Status 502)), (20, Inl (Get_Failed ''eof''))] warm_pool) ! 0))"
proof -
  have w: "0 < length (backends warm_pool)" "fails (backends warm_pool ! 0) = 0"
    "6 \<le> FailTimeout (backends warm_pool ! 0)" by code_simp+
  then have f: "0 \<le> fails (backends warm_pool ! 0)" by simp
  show ?thesis
    by (rule three_failed_probes_remove [OF indexed_warm w(1) f, THEN conjunct2]) (use w(3) in simp_all)
qed

text \<open>A configuration whose probe interval is zero or negative passes \<open>Validate\<close>, but the
  prober started with it panics after its first pass.\<close>

theorem prober_panics_on_valid_config:
  assumes "Validate h c = None" and "d \<le> 0"
  shows "Validate h (c\<lparr>ProbeEvery := d\<rparr>) = None \<and>
     prober_Run E say (c\<lparr>ProbeEvery := d\<rparr>) n s = Inl Non_Positive_Ticker_Interval"
  using assms by (simp add: prober_Run_def)

lemma prober_panics_on_valid_config_witness:
  "Validate sample_host ((Default sample_host)\<lparr>ProbeEvery := 0\<rparr>) = None \<and>
   prober_Run (scripted same_address) (\<lambda>e. ''x'') ((Default sample_host)\<lparr>ProbeEvery := 0\<rparr>) 1 (warm_pool, [])
     = Inl Non_Positive_Ticker_Interval"
proof (rule prober_panics_on_valid_config)
  show "Validate sample_host (Default sample_host) = None" by code_simp
qed simp

end
