(* ===== verification/Supervisor.thy ===== *)
theory Supervisor
  imports Health
begin

text \<open>
  Model of \<open>internal/control/supervisor.go\<close> (the Linux build): the wiring of the control plane,
  its bootstrap, and the reconnect loop that reads the failure counts of the backends and
  restarts or reconnects their WARP instances. A tick runs without interference on the pool.
\<close>

section \<open>Construction and bootstrap\<close>

text \<open>\<open>New\<close>: a controller exists exactly in managed mode; the engine gets the same one.\<close>

record supervisor =
  controller :: bool
  unique :: engine

definition sup_New :: "config \<Rightarrow> supervisor" where
  "sup_New c =
     (let ctl = (config.Mode c = ModeManaged)
      in \<lparr>controller = ctl, unique = NewUniquenessEngine c\<rparr>)"

text \<open>\<open>Bootstrap\<close>: an error, or whether \<open>StartAll\<close> has been started in the background.\<close>

definition Bootstrap :: "host \<Rightarrow> supervisor \<Rightarrow> config_error + bool" where
  "Bootstrap h s =
     (if \<not> controller s then Inr False
      else if GOOS h = ''windows'' then Inl Err_Managed_On_Windows
      else Inr True)"

section \<open>The reconnect loop\<close>

definition needs_soft :: "config \<Rightarrow> Snapshot \<Rightarrow> bool" where
  "needs_soft c snap \<longleftrightarrow>
     (snap_State snap = ''unhealthy'' \<or> snap_State snap = ''circuit_open'') \<and>
     snap_Fails snap \<ge> ct_ReconnectFails (Control c)"

definition needs_hard :: "config \<Rightarrow> Snapshot \<Rightarrow> bool" where
  "needs_hard c snap \<longleftrightarrow> snap_Fails snap \<ge> ct_HardRestartFails (Control c)"

text \<open>The body of the loop over the snapshots; \<open>None\<close> is a \<open>Restart\<close> that never returns.\<close>

definition tend ::
  "'w world \<Rightarrow> host \<Rightarrow> config \<Rightarrow> bool \<Rightarrow> Snapshot \<Rightarrow> pool \<times> 'w \<Rightarrow> (pool \<times> 'w) option" where
  "tend E h c ctl snap = (\<lambda>(p, w).
     if \<not> needs_soft c snap \<and> \<not> needs_hard c snap then Some (p, w)
     else if ctl then
       (if needs_hard c snap then
          (case Restart E h c (snap_ID snap) w of
             None \<Rightarrow> None
           | Some (Some err, w1) \<Rightarrow> Some (p, w1)
           | Some (None, w1) \<Rightarrow> Some (pool_ForceState (w_now E w1) (snap_ID snap) StateUnknown p, w1))
        else
          (case Reconnect E c (snap_ID snap) w of (err, w1) \<Rightarrow> Some (p, w1)))
     else Some (p, w))"

fun tend_each ::
  "'w world \<Rightarrow> host \<Rightarrow> config \<Rightarrow> bool \<Rightarrow> Snapshot list \<Rightarrow> pool \<times> 'w \<Rightarrow> (pool \<times> 'w) option" where
  "tend_each E h c ctl [] s = Some s"
| "tend_each E h c ctl (snap # snaps) s =
     (case tend E h c ctl snap s of None \<Rightarrow> None | Some s1 \<Rightarrow> tend_each E h c ctl snaps s1)"

text \<open>One tick: the snapshots are all taken before the first of them is acted on.\<close>

definition sup_tick ::
  "'w world \<Rightarrow> host \<Rightarrow> config \<Rightarrow> bool \<Rightarrow> pool \<times> 'w \<Rightarrow> (pool \<times> 'w) option" where
  "sup_tick E h c ctl s =
     tend_each E h c ctl (Snapshots (w_now E (snd s)) (fst s)) s"

text \<open>\<open>runReconnectLoop\<close>: the interval of its ticker, and \<open>n\<close> ticks before the context ends.\<close>

definition reconnect_interval :: "config \<Rightarrow> duration" where
  "reconnect_interval c =
     (let interval = i64 (ProbeEvery c * 2) in if interval < 5 * Second then 5 * Second else interval)"

fun reconnect_loop ::
  "'w world \<Rightarrow> host \<Rightarrow> config \<Rightarrow> bool \<Rightarrow> nat \<Rightarrow> pool \<times> 'w \<Rightarrow> (pool \<times> 'w) option" where
  "reconnect_loop E h c ctl 0 s = Some s"
| "reconnect_loop E h c ctl (Suc n) s =
     (case sup_tick E h c ctl s of None \<Rightarrow> None | Some s1 \<Rightarrow> reconnect_loop E h c ctl n s1)"

text \<open>\<open>Run\<close>, apart from the engine it starts: the loop until the context ends, then \<open>StopAll\<close>.\<close>

definition sup_Run ::
  "'w world \<Rightarrow> host \<Rightarrow> config \<Rightarrow> supervisor \<Rightarrow> nat \<Rightarrow> pool \<times> 'w \<Rightarrow> (pool \<times> 'w) option" where
  "sup_Run E h c s n x =
     map_option (\<lambda>(p, w). (p, if controller s then snd (StopAll w) else w)) (reconnect_loop E h c (controller s) n x)"

section \<open>Lemmas\<close>

lemma Snapshot_sel [simp]:
  "snap_ID (Snapshot_of now b) = ID b" "snap_Fails (Snapshot_of now b) = fails b"
  by (simp_all add: Snapshot_of_def)

lemma needs_soft_of:
  "needs_soft c (Snapshot_of now b) \<longleftrightarrow>
     (state b = StateUnhealthy \<or> state b = StateCircuitOpen) \<and> ct_ReconnectFails (Control c) \<le> fails b"
  by (cases "state b") (simp_all add: needs_soft_def Snapshot_of_def State_String_def)

lemma needs_hard_of: "needs_hard c (Snapshot_of now b) \<longleftrightarrow> ct_HardRestartFails (Control c) \<le> fails b"
  by (simp add: needs_hard_def)

lemma Restart_returns: "clock_ok E \<Longrightarrow> \<exists>r w'. Restart E h c i w = Some (r, w')"
  unfolding Restart_def by (rule StartOne_returns)

lemma tend_returns: "clock_ok E \<Longrightarrow> \<exists>s'. tend E h c ctl snap s = Some s'"
  using Restart_returns [of E h c "snap_ID snap" "snd s"]
  by (cases s) (auto simp: tend_def split: option.split prod.split)

lemma tend_each_returns: "clock_ok E \<Longrightarrow> \<exists>s'. tend_each E h c ctl snaps s = Some s'"
proof (induction snaps arbitrary: s)
  case Nil
  show ?case by simp
next
  case (Cons snap snaps)
  with tend_returns [of E h c ctl snap s] show ?case by auto
qed

text \<open>What one step does to the pool: nothing, or the forced state of its own backend.\<close>

lemma tend_pool:
  assumes "tend E h c ctl (Snapshot_of now b) (p, w) = Some (p', w')"
  shows "p' = p \<or> ctl \<and> ct_HardRestartFails (Control c) \<le> fails b \<and>
     (\<exists>t. p' = pool_ForceState t (ID b) StateUnknown p)"
  using assms
  by (auto simp: tend_def needs_hard_of split: if_splits option.splits prod.splits)

text \<open>A backend as a tick may leave it.\<close>

definition restarted :: "config \<Rightarrow> bool \<Rightarrow> backend \<Rightarrow> backend \<Rightarrow> bool" where
  "restarted c ctl b b' \<longleftrightarrow> b' = b \<or>
     ctl \<and> ct_HardRestartFails (Control c) \<le> fails b \<and> (\<exists>t. b' = ForceState t StateUnknown b)"

lemma ForceState_sel [simp]:
  "ID (ForceState t st b) = ID b" "fails (ForceState t StateUnknown b) = fails b"
  "state (ForceState t st b) = st"
  by (simp_all add: ForceState_def Let_def)

lemma tend_each_pool:
  assumes "indexed p" and "a \<le> length (backends p)" and "bs = drop a (backends p)"
    and "tend_each E h c ctl (map (Snapshot_of now) bs) (p, w) = Some (p', w')"
  shows "indexed p' \<and> length (backends p') = length (backends p) \<and>
    (\<forall>k < length (backends p). if k < a then backends p' ! k = backends p ! k
       else restarted c ctl (backends p ! k) (backends p' ! k))"
  using assms
proof (induction bs arbitrary: a p w)
  case Nil
  then show ?case by simp
next
  case (Cons b bs)
  then have a: "a < length (backends p)" by (metis drop_all leI list.distinct(1))
  have ba: "b = backends p ! a" and bs: "bs = drop (Suc a) (backends p)"
    using Cons.prems(3) a by (simp_all add: Cons_nth_drop_Suc [symmetric])
  obtain p1 w1 where p1: "tend E h c ctl (Snapshot_of now b) (p, w) = Some (p1, w1)"
    and rest: "tend_each E h c ctl (map (Snapshot_of now) bs) (p1, w1) = Some (p', w')"
    using Cons.prems(4) by (auto split: option.splits)
  have one: "\<exists>b1. p1 = put a b1 p \<and> restarted c ctl b b1"
  proof -
    from tend_pool [OF p1] show ?thesis
    proof (elim disjE conjE exE)
      assume "p1 = p"
      with a have "p1 = put a b p \<and> restarted c ctl b b" by (simp add: ba restarted_def)
      then show ?thesis by blast
    next
      fix t
      assume "ctl" "ct_HardRestartFails (Control c) \<le> fails b" "p1 = pool_ForceState t (ID b) StateUnknown p"
      with Admit_indexed(4) [OF Cons.prems(1) a] have "p1 = put a (ForceState t StateUnknown b) p \<and>
          restarted c ctl b (ForceState t StateUnknown b)"
        unfolding ba restarted_def by blast
      then show ?thesis by blast
    qed
  qed
  then obtain b1 where b1: "p1 = put a b1 p" "restarted c ctl b b1" by blast
  then have "ID b1 = ID (backends p ! a)" by (auto simp: restarted_def ba)
  then have ix: "indexed p1" unfolding b1(1) by (rule indexed_put [OF Cons.prems(1)])
  have len: "length (backends p1) = length (backends p)" by (simp add: b1(1))
  have "bs = drop (Suc a) (backends p1)"
    by (simp add: bs b1(1) put_def drop_update_cancel)
  from Cons.IH [OF ix _ this rest] a len
  have IH: "indexed p' \<and> length (backends p') = length (backends p) \<and>
    (\<forall>k < length (backends p). if k < Suc a then backends p' ! k = backends p1 ! k
       else restarted c ctl (backends p1 ! k) (backends p' ! k))"
    by simp
  have other: "k \<noteq> a \<Longrightarrow> backends p1 ! k = backends p ! k" for k by (simp add: b1(1) put_def)
  have self: "backends p1 ! a = b1" using a by (simp add: b1(1) put_def)
  show ?case
  proof (intro conjI allI impI)
    fix k
    assume k: "k < length (backends p)"
    show "if k < a then backends p' ! k = backends p ! k else restarted c ctl (backends p ! k) (backends p' ! k)"
    proof (cases "k = a")
      case True
      with IH k have "backends p' ! k = b1" by (simp add: self)
      with b1(2) True show ?thesis by (simp add: ba)
    next
      case False
      with IH k other [of k] show ?thesis by (cases "k < a") auto
    qed
  qed (use IH in auto)
qed

subsection \<open>The commands of a tick\<close>

text \<open>The log of a scripted world only grows.\<close>

lemma wcli_grows: "set l \<subseteq> set (snd (wcli (scripted r) c i args l))"
  and wcli_issues: "cli_effect c i args \<in> set (snd (wcli (scripted r) c i args l))"
  by (auto simp: wcli_scripted)

lemma register_grows: "set l \<subseteq> set (snd (register (scripted r) c i bo as l))"
  by (induction as arbitrary: l) (force simp: wcli_scripted)+

lemma apply_license_grows: "set l \<subseteq> set (apply_license (scripted r) c i f l)"
  by (auto simp: apply_license_def wcli_scripted Let_def split: if_splits)

lemma proxy_mode_grows: "set l \<subseteq> set (snd (proxy_mode (scripted r) c i port l))"
  by (auto simp: proxy_mode_def wcli_scripted)

lemma drop_registration_grows: "set l \<subseteq> set (drop_registration (scripted r) h c i l)"
  by (auto simp: drop_registration_def wcli_scripted Let_def split: option.splits)

lemma configureProxyMode_grows: "set l \<subseteq> set (snd (configureProxyMode (scripted r) h c i port l))"
  unfolding configureProxyMode_def Let_def
  using drop_registration_grows [of l r h c i] register_grows apply_license_grows proxy_mode_grows
  by (auto simp: wcli_scripted) blast+

lemma wait_loop_grows:
  assumes "wait_loop (scripted r) c i start l = Some res"
  shows "set l \<subseteq> set (snd res)"
proof (rule wait_loop.raw_induct
    [where P = "\<lambda>E c i start l res. E = scripted r \<longrightarrow> set l \<subseteq> set (snd res)", OF _ assms, THEN mp])
  fix wl c i start and E :: "log world" and l :: log and res
  assume IH: "\<And>E c i start (l :: log) res. wl E c i start l = Some res \<Longrightarrow> E = scripted r \<longrightarrow> set l \<subseteq> set (snd res)"
    and run: "(if w_now E l - start > ct_WarpConnTimeout (Control c) then Some (Some (Err_Not_Ready i), l)
      else (case wcli E c i [''status''] l of
           ((err, out), w1) \<Rightarrow>
             if err = None \<and> ready_status out then Some (None, w1)
             else wl E c i start (w_sleep E (800 * Millisecond) w1))) = Some res"
  show "E = scripted r \<longrightarrow> set l \<subseteq> set (snd res)"
  proof
    assume E: "E = scripted r"
    let ?l1 = "l @ [cli_effect c i [''status'']]"
    from run E consider "snd res = l" | "snd res = ?l1"
      | "wl E c i start (?l1 @ [Sleep (800 * Millisecond)]) = Some res"
      by (auto simp: wcli_scripted split: if_splits)
    then show "set l \<subseteq> set (snd res)"
    proof cases
      case 3
      from IH [OF this] E show ?thesis by auto
    qed auto
  qed
qed simp

lemma spawned_cases:
  assumes "(case sp of (False, w5) \<Rightarrow> Some (e0, w5)
    | (True, w5) \<Rightarrow> (case wr w5 of None \<Rightarrow> None | Some (late, w6) \<Rightarrow> Some (cf w6))) = Some (e, l')"
    and "set l \<subseteq> set (snd sp)"
  shows "\<exists>l1. set l \<subseteq> set l1 \<and> (l' = l1 \<or> (\<exists>late l2. wr l1 = Some (late, l2) \<and> l' = snd (cf l2)))"
  using assms by (intro exI [of _ "snd sp"]) (auto split: prod.splits bool.splits option.splits)

lemma StartOne_grows:
  assumes "StartOne (scripted r) h c i l = Some (e, l')"
  shows "set l \<subseteq> set l'"
proof -
  have "\<exists>l1. set l \<subseteq> set l1 \<and> (l' = l1 \<or> (\<exists>late l2. waitReady (scripted r) c i l1 = Some (late, l2) \<and>
         l' = snd (configureProxyMode (scripted r) h c i (BasePort c + i) l2)))"
    by (rule spawned_cases [OF assms [unfolded StartOne_def Let_def]]) (auto simp: writeMDM_def)
  then show ?thesis
  proof (elim disjE exE conjE)
    fix l1 late l2
    assume "set l \<subseteq> set l1" "waitReady (scripted r) c i l1 = Some (late, l2)"
    moreover from this(2) have "set l1 \<subseteq> set l2" 
      using wait_loop_grows [of r c i _ l1 "(late, l2)"] by (simp add: waitReady_def)
    moreover assume "l' = snd (configureProxyMode (scripted r) h c i (BasePort c + i) l2)"
    ultimately show ?thesis using configureProxyMode_grows [of l2 r h c i "BasePort c + i"] by blast
  qed simp
qed

lemma Restart_issues:
  "Restart (scripted r) h c i l = Some (e, l') \<Longrightarrow> set l \<subseteq> set l' \<and> cli_effect c i [''disconnect''] \<in> set l'"
  using StartOne_grows [of r h c i "w_sleep (scripted r) (500 * Millisecond) (snd (wcli (scripted r) c i [''disconnect''] l))" e l']
  by (auto simp: Restart_def wcli_scripted)

lemma Reconnect_issues:
  "Reconnect (scripted r) c i l = (e, l') \<Longrightarrow> set l \<subseteq> set l' \<and> cli_effect c i [''connect''] \<in> set l'"
  by (auto simp: Reconnect_def wcli_scripted)

text \<open>The command a snapshot calls for.\<close>

definition repair :: "config \<Rightarrow> Snapshot \<Rightarrow> effect" where
  "repair c snap = cli_effect c (snap_ID snap) [if needs_hard c snap then ''disconnect'' else ''connect'']"

lemma tend_issues:
  assumes "tend (scripted r) h c True snap (p, l) = Some (p', l')"
  shows "set l \<subseteq> set l' \<and> (needs_soft c snap \<or> needs_hard c snap \<longrightarrow> repair c snap \<in> set l')"
proof (cases "needs_hard c snap")
  case True
  with assms obtain e where "Restart (scripted r) h c (snap_ID snap) l = Some (e, l')"
    by (auto simp: tend_def split: option.splits prod.splits)
  from Restart_issues [OF this] True show ?thesis by (simp add: repair_def)
next
  case False
  show ?thesis
  proof (cases "needs_soft c snap")
    case True
    with assms False obtain e where "Reconnect (scripted r) c (snap_ID snap) l = (e, l')"
      by (auto simp: tend_def split: prod.splits)
    from Reconnect_issues [OF this] False show ?thesis by (simp add: repair_def)
  qed (use assms False in \<open>simp add: tend_def\<close>)
qed

lemma tend_each_issues:
  "tend_each (scripted r) h c True snaps (p, l) = Some (p', l') \<Longrightarrow>
   set l \<subseteq> set l' \<and> (\<forall>snap \<in> set snaps. needs_soft c snap \<or> needs_hard c snap \<longrightarrow> repair c snap \<in> set l')"
proof (induction snaps arbitrary: p l)
  case Nil
  then show ?case by simp
next
  case (Cons snap snaps)
  then obtain p1 l1 where one: "tend (scripted r) h c True snap (p, l) = Some (p1, l1)"
    and rest: "tend_each (scripted r) h c True snaps (p1, l1) = Some (p', l')"
    by (auto split: option.splits)
  from tend_issues [OF one] Cons.IH [OF rest] show ?case by auto
qed

lemma clock_ok_scripted [simp]: "clock_ok (scripted r)"
  by (simp add: clock_ok_def)

section \<open>Properties\<close>

text \<open>A tick returns, and changes nothing in the pool but the state of backends whose failures
  have reached \<open>HardRestartFails\<close>, which it may force to unknown once they are restarted; in
  attach mode it changes nothing at all. The failure counts stay, so the same backends call
  for a hard restart again on the next tick.\<close>

theorem supervisor_tick:
  assumes "clock_ok E" and "indexed p"
  shows "\<exists>p' w'. sup_tick E h c ctl (p, w) = Some (p', w') \<and> indexed p' \<and>
     length (backends p') = length (backends p) \<and>
     (\<forall>k < length (backends p).
        (backends p' ! k = backends p ! k \<or>
         ctl \<and> ct_HardRestartFails (Control c) \<le> fails (backends p ! k) \<and>
         (\<exists>t. backends p' ! k = ForceState t StateUnknown (backends p ! k))) \<and>
        needs_hard c (Snapshot_of now (backends p' ! k)) = needs_hard c (Snapshot_of now (backends p ! k)))"
proof -
  obtain p' w' where run: "sup_tick E h c ctl (p, w) = Some (p', w')"
    using tend_each_returns [OF assms(1)] unfolding sup_tick_def by (metis prod.exhaust)
  from run have "tend_each E h c ctl (map (Snapshot_of (w_now E w)) (backends p)) (p, w) = Some (p', w')"
    by (simp add: sup_tick_def Snapshots_def)
  from tend_each_pool [OF assms(2), of 0, OF _ _ this]
  have "indexed p'" "length (backends p') = length (backends p)"
    and each: "\<And>k. k < length (backends p) \<Longrightarrow> restarted c ctl (backends p ! k) (backends p' ! k)" by auto
  moreover have "fails (backends p' ! k) = fails (backends p ! k)" if "k < length (backends p)" for k
    using each [OF that] by (auto simp: restarted_def)
  ultimately show ?thesis
    using run unfolding restarted_def
    by (intro exI [of _ p'] exI [of _ w']) (simp add: needs_hard_of)
qed


text \<open>A backend that has failed six times, its circuit open since then.\<close>

definition failing :: pool where
  "failing = put 1 ((backends warm_pool ! 1)\<lparr>state := StateCircuitOpen, fails := 6, openedAt := Some 0\<rparr>) warm_pool"

lemma indexed_failing: "indexed failing"
  unfolding failing_def by (rule indexed_put [OF indexed_warm]) simp

lemma supervisor_tick_witness:
  "\<exists>p' w'. sup_tick (scripted deaf) sample_host (Default sample_host) True (failing, []) = Some (p', w') \<and>
     indexed p' \<and> needs_hard (Default sample_host) (Snapshot_of 0 (backends p' ! 1))"
proof -
  have "1 < length (backends failing)" by (simp add: failing_def put_def)
  moreover have "needs_hard (Default sample_host) (Snapshot_of 0 (backends failing ! 1))"
    by (simp add: needs_hard_of failing_def put_def Default_def)
  ultimately show ?thesis
    using supervisor_tick [OF clock_ok_scripted indexed_failing, of deaf sample_host "Default sample_host" True "[]" 0]
    by blast
qed


end
