(* ===== verification/Go_Base64.thy ===== *)
theory Go_Base64
  imports Go_Strings
begin

text \<open>
  \<open>base64.StdEncoding\<close> of Go's \<open>encoding/base64\<close>: the decoder the program calls, and the encoder
  as a specification for the round trip. A byte is a \<^typ>\<open>char\<close>; sextets are numbers below 64.
\<close>

section \<open>The alphabet\<close>

definition sextet :: "char \<Rightarrow> nat option" where
  "sextet c =
     (if CHR ''A'' \<le> c \<and> c \<le> CHR ''Z'' then Some (of_char c - 65)
      else if CHR ''a'' \<le> c \<and> c \<le> CHR ''z'' then Some (of_char c - 71)
      else if CHR ''0'' \<le> c \<and> c \<le> CHR ''9'' then Some (of_char c + 4)
      else if c = CHR ''+'' then Some 62
      else if c = CHR ''/'' then Some 63
      else None)"

definition sextet_char :: "nat \<Rightarrow> char" where
  "sextet_char n =
     (if n < 26 then char_of (n + 65)
      else if n < 52 then char_of (n + 71)
      else if n < 62 then char_of (n - 4)
      else if n = 62 then CHR ''+'' else CHR ''/'')"

definition pad :: char where "pad = CHR 0x3D"

section \<open>Decoding\<close>

text \<open>
  The decoder works on quanta of four characters. Padding may only fill the last quantum, and
  must fill it; bits of the last sextet that no byte takes are ignored, as the encoding is not
  strict. Line breaks are skipped wherever they stand.
\<close>

fun quanta :: "string \<Rightarrow> string option" where
  "quanta [] = Some []"
| "quanta (a # b # c # d # s) =
     (case (sextet a, sextet b) of
        (Some va, Some vb) \<Rightarrow>
          (if c = pad then
             (if d = pad \<and> s = [] then Some [char_of (4 * va + vb div 16)] else None)
           else
             (case sextet c of
                None \<Rightarrow> None
              | Some vc \<Rightarrow>
                  (if d = pad then
                     (if s = [] then Some [char_of (4 * va + vb div 16), char_of (16 * (vb mod 16) + vc div 4)]
                      else None)
                   else
                     (case (sextet d, quanta s) of
                        (Some vd, Some t) \<Rightarrow>
                          Some (char_of (4 * va + vb div 16) # char_of (16 * (vb mod 16) + vc div 4) #
                                char_of (64 * (vc mod 4) + vd) # t)
                      | _ \<Rightarrow> None))))
      | _ \<Rightarrow> None)"
| "quanta _ = None"

definition base64_DecodeString :: "string \<Rightarrow> string option" where
  "base64_DecodeString s = quanta (filter (\<lambda>c. c \<noteq> CHR 0x0A \<and> c \<noteq> CHR 0x0D) s)"

section \<open>Encoding\<close>

fun base64_EncodeToString :: "string \<Rightarrow> string" where
  "base64_EncodeToString [] = []"
| "base64_EncodeToString [x] =
     (let a = of_char x in [sextet_char (a div 4), sextet_char (16 * (a mod 4)), pad, pad])"
| "base64_EncodeToString [x, y] =
     (let a = of_char x; b = of_char y in
      [sextet_char (a div 4), sextet_char (16 * (a mod 4) + b div 16), sextet_char (4 * (b mod 16)), pad])"
| "base64_EncodeToString (x # y # z # s) =
     (let a = of_char x; b = of_char y; c = of_char z in
      sextet_char (a div 4) # sextet_char (16 * (a mod 4) + b div 16) #
      sextet_char (4 * (b mod 16) + c div 64) # sextet_char (c mod 64) # base64_EncodeToString s)"

section \<open>The round trip\<close>

lemma sextet_char_laws:
  assumes "n < 64"
  shows "sextet (sextet_char n) = Some n" and "sextet_char n \<noteq> pad"
    and "CHR ''+'' \<le> sextet_char n" and "sextet_char n \<le> CHR ''z''"
proof -
  consider "n < 26" | "26 \<le> n" "n < 52" | "52 \<le> n" "n < 62" | "n = 62" | "n = 63" using assms by linarith
  then have "sextet (sextet_char n) = Some n \<and> of_char (sextet_char n) \<noteq> (61 :: nat) \<and>
      CHR ''+'' \<le> sextet_char n \<and> sextet_char n \<le> CHR ''z''"
    by cases (auto simp: sextet_def sextet_char_def less_eq_char_def)
  then show "sextet (sextet_char n) = Some n" and "sextet_char n \<noteq> pad"
    and "CHR ''+'' \<le> sextet_char n" and "sextet_char n \<le> CHR ''z''"
    by (auto simp: pad_def)
qed

lemma digit_join:
  fixes q k m :: nat
  assumes "q < k"
  shows "(k * m + q) div k = m" and "(k * m + q) mod k = q"
  using assms by simp_all

lemma byte_parts:
  fixes a b c :: nat
  assumes "b < 256" and "c < 256"
  shows "4 * (a div 4) + (16 * (a mod 4) + b div 16) div 16 = a"
    and "16 * ((16 * (a mod 4) + b div 16) mod 16) + (4 * (b mod 16) + c div 64) div 4 = b"
    and "16 * ((16 * (a mod 4) + b div 16) mod 16) + b mod 16 = b"
    and "64 * ((4 * (b mod 16) + c div 64) mod 4) + c mod 64 = c"
proof -
  have b: "b div 16 < 16" and c: "c div 64 < 4" using assms by (simp_all add: less_mult_imp_div_less)
  show "4 * (a div 4) + (16 * (a mod 4) + b div 16) div 16 = a"
    "16 * ((16 * (a mod 4) + b div 16) mod 16) + (4 * (b mod 16) + c div 64) div 4 = b"
    "16 * ((16 * (a mod 4) + b div 16) mod 16) + b mod 16 = b"
    "64 * ((4 * (b mod 16) + c div 64) mod 4) + c mod 64 = c"
    by (simp_all only: digit_join [OF b] digit_join [OF c] mult_div_mod_eq)
qed

lemma sextet_bounds:
  fixes a b c :: nat
  assumes "a < 256" and "b < 256" and "c < 256"
  shows "a div 4 < 64" "16 * (a mod 4) < 64" "16 * (a mod 4) + b div 16 < 64" "4 * (b mod 16) < 64"
    "4 * (b mod 16) + c div 64 < 64" "c mod 64 < 64"
proof -
  have d: "a div 4 < 64" "b div 16 < 16" "c div 64 < 4" using assms by (simp_all add: less_mult_imp_div_less)
  have m: "a mod 4 < 4" "b mod 16 < 16" "c mod 64 < 64" by simp_all
  from d m show "a div 4 < 64" "16 * (a mod 4) < 64" "16 * (a mod 4) + b div 16 < 64" "4 * (b mod 16) < 64"
    "4 * (b mod 16) + c div 64 < 64" "c mod 64 < 64" by linarith+
qed

lemma quanta_encode: "quanta (base64_EncodeToString s) = Some s"
proof (induction s rule: base64_EncodeToString.induct)
  case (2 x)
  note b = sextet_bounds [OF nat_of_char_less_256 [of x] nat_of_char_less_256 [of x] nat_of_char_less_256 [of x]]
  from b(1,2) show ?case by (simp add: Let_def sextet_char_laws)
next
  case (3 x y)
  note b = sextet_bounds [OF nat_of_char_less_256 [of x] nat_of_char_less_256 [of y] nat_of_char_less_256 [of y]]
  from b(1,3,4) byte_parts(1,3) [OF nat_of_char_less_256 [of y] nat_of_char_less_256 [of y], where a = "of_char x"]
  show ?case by (simp add: Let_def sextet_char_laws)
next
  case (4 x y z s)
  note b = sextet_bounds [OF nat_of_char_less_256 [of x] nat_of_char_less_256 [of y] nat_of_char_less_256 [of z]]
  from b(1,3,5,6) 4 show ?case
    using byte_parts(1,2) [OF nat_of_char_less_256 [of y] nat_of_char_less_256 [of z], where a = "of_char x"]
      byte_parts(4) [OF nat_of_char_less_256 [of y] nat_of_char_less_256 [of z]]
    by (simp add: Let_def sextet_char_laws)
qed simp

text \<open>The encoder writes visible ASCII characters only, so nothing is skipped or trimmed.\<close>

definition b64_char :: "char \<Rightarrow> bool" where
  "b64_char c \<longleftrightarrow> CHR ''+'' \<le> c \<and> c \<le> CHR ''z''"

lemma b64_char_pad [simp]: "b64_char pad"
  by (simp add: b64_char_def pad_def less_eq_char_def)

lemma encode_chars: "list_all b64_char (base64_EncodeToString s)"
proof (induction s rule: base64_EncodeToString.induct)
  case (2 x)
  note b = sextet_bounds [OF nat_of_char_less_256 [of x] nat_of_char_less_256 [of x] nat_of_char_less_256 [of x]]
  from sextet_char_laws(3,4) [OF b(1)] sextet_char_laws(3,4) [OF b(2)] show ?case
    by (simp add: b64_char_def pad_def less_eq_char_def Let_def)
next
  case (3 x y)
  note b = sextet_bounds [OF nat_of_char_less_256 [of x] nat_of_char_less_256 [of y] nat_of_char_less_256 [of y]]
  from sextet_char_laws(3,4) [OF b(1)] sextet_char_laws(3,4) [OF b(3)] sextet_char_laws(3,4) [OF b(4)] show ?case
    by (simp add: b64_char_def pad_def less_eq_char_def Let_def)
next
  case (4 x y z s)
  note b = sextet_bounds [OF nat_of_char_less_256 [of x] nat_of_char_less_256 [of y] nat_of_char_less_256 [of z]]
  from sextet_char_laws(3,4) [OF b(1)] sextet_char_laws(3,4) [OF b(3)] sextet_char_laws(3,4) [OF b(5)]
    sextet_char_laws(3,4) [OF b(6)] 4
  show ?case by (simp add: b64_char_def Let_def)
qed simp

lemma decode_encode [simp]: "base64_DecodeString (base64_EncodeToString s) = Some s"
proof -
  have "filter (\<lambda>c. c \<noteq> CHR 0x0A \<and> c \<noteq> CHR 0x0D) (base64_EncodeToString s) = base64_EncodeToString s"
    using encode_chars [of s]
    by (intro filter_True) (auto simp: list_all_iff b64_char_def less_eq_char_def)
  then show ?thesis by (simp add: base64_DecodeString_def quanta_encode)
qed

lemma encode_Nil_iff [simp]: "base64_EncodeToString s = [] \<longleftrightarrow> s = []"
  by (cases s rule: base64_EncodeToString.cases) (simp_all add: Let_def)

end
