(* ===== verification/Proxy_State.thy ===== *)
theory Proxy_State
  imports Conn_Limiter Go_Base64
begin

text \<open>
  Model of \<open>internal/proxy/state.go\<close>: what the SOCKS5 and HTTP servers share, the proxy
  credentials with their two checks, and the splitting of a target into host and port.
\<close>

section \<open>Shared state\<close>

datatype auth_error = ErrAuthRequired | ErrAuthFailed

record ProxyAuth =
  pa_enabled :: bool
  pa_username :: string
  pa_password :: string

definition NewProxyAuth :: "string \<Rightarrow> string \<Rightarrow> ProxyAuth" where
  "NewProxyAuth user pass =
     \<lparr>pa_enabled = (user \<noteq> '''' \<and> pass \<noteq> ''''), pa_username = user, pa_password = pass\<rparr>"

record proxy_state =
  ps_Pool :: pool
  ps_Limiter :: ConnLimiter
  ps_Cfg :: config
  ps_Auth :: ProxyAuth

definition NewState :: "config \<Rightarrow> pool \<Rightarrow> proxy_state" where
  "NewState c p =
     \<lparr>ps_Pool = p,
      ps_Limiter = NewConnLimiter (lm_MaxConnGlobal (Limits c)) (lm_MaxConnPerIP (Limits c))
        (lm_MaxRPSPerIP (Limits c)),
      ps_Cfg = c,
      ps_Auth = NewProxyAuth (au_Username (config.Auth c)) (au_Password (config.Auth c))\<rparr>"

section \<open>Credentials\<close>

text \<open>\<open>None\<close> is the nil error.\<close>

definition Check :: "ProxyAuth \<Rightarrow> string \<Rightarrow> string \<Rightarrow> auth_error option" where
  "Check pa user pass =
     (if \<not> pa_enabled pa then None
      else if user = pa_username pa \<and> pass = pa_password pa then None
      else Some ErrAuthFailed)"

definition CheckHTTPHeader :: "ProxyAuth \<Rightarrow> string \<Rightarrow> auth_error option" where
  "CheckHTTPHeader pa header0 =
     (if \<not> pa_enabled pa then None
      else if header0 = '''' then Some ErrAuthRequired
      else
        (let header = TrimSpace header0 in
         if \<not> HasPrefix (ToLower header) ''basic '' then Some ErrAuthFailed
         else
           (case base64_DecodeString (TrimSpace (drop 6 header)) of
              None \<Rightarrow> Some ErrAuthFailed
            | Some dec \<Rightarrow>
                (case Cut dec (CHR '':'') of
                   None \<Rightarrow> Some ErrAuthFailed
                 | Some (u, p) \<Rightarrow> Check pa u p))))"

section \<open>Targets\<close>

text \<open>
  \<open>fmt.Sscanf(s, "%d", &n)\<close>: white space other than a line feed is skipped, then a signed
  decimal numeral is read; what follows it is not looked at. \<open>None\<close> stands for every error.
\<close>

definition Sscanf_d :: "string \<Rightarrow> int option" where
  "Sscanf_d s =
     (let t = TrimLeft s in
      if CHR 0x0A \<in> set (take (length s - length t) s) then None
      else
        (let neg = (t \<noteq> [] \<and> hd t = CHR ''-'');
             u = (if t \<noteq> [] \<and> (hd t = CHR ''-'' \<or> hd t = CHR ''+'') then tl t else t);
             ds = takeWhile is_digit u;
             n = (if neg then - int (digits_val 0 ds) else int (digits_val 0 ds))
         in if ds = [] then None else if in_int64 n then Some n else None))"

datatype target_error = Err_Bad_Port string

definition proxy_SplitHostPort :: "string \<Rightarrow> int \<Rightarrow> target_error + string \<times> int" where
  "proxy_SplitHostPort target defaultPort =
     (case Go_Net.SplitHostPort target of
        Some (host, portStr) \<Rightarrow>
          (case Sscanf_d portStr of
             None \<Rightarrow> Inl (Err_Bad_Port portStr)
           | Some port \<Rightarrow> Inr (host, port))
      | None \<Rightarrow> Inr (target, defaultPort))"

section \<open>Lemmas\<close>

text \<open>Visible ASCII characters are neither trimmed nor taken for a part of a longer code point.\<close>

definition visible :: "char \<Rightarrow> bool" where
  "visible c \<longleftrightarrow> CHR 0x20 < c \<and> c < CHR 0x7F"

lemma visible_no_space:
  assumes "visible c"
  shows "\<not> space1 c" "\<not> space2 c d" "\<not> space2 d c" "\<not> space3 c d e" "\<not> space3 d e c"
  using assms by (auto simp: visible_def space1_def space2_def space3_def less_char_def less_eq_char_def)

lemma TrimLeft_visible: "visible c \<Longrightarrow> TrimLeft (c # s) = c # s"
  by (cases "c # s" rule: TrimLeft.cases) (simp_all add: visible_no_space)

lemma TrimRight_visible: "visible c \<Longrightarrow> TrimRight_rev (c # s) = c # s"
  by (cases "c # s" rule: TrimRight_rev.cases) (simp_all add: visible_no_space)

lemma TrimSpace_visible:
  assumes "s \<noteq> []" and "visible (hd s)" and "visible (last s)"
  shows "TrimSpace s = s"
proof -
  have "TrimLeft s = s" using assms(1,2) TrimLeft_visible [of "hd s" "tl s"] by simp
  moreover have "TrimRight_rev (rev s) = rev s"
    using assms(1,3) TrimRight_visible [of "last s" "tl (rev s)"] by (simp add: hd_rev [symmetric])
  ultimately show ?thesis by (simp add: TrimSpace_def)
qed

lemma TrimSpace_all_visible: "list_all visible s \<Longrightarrow> TrimSpace s = s"
proof (cases "s = []")
  case False
  assume "list_all visible s"
  with False show ?thesis by (intro TrimSpace_visible) (simp_all add: list_all_iff)
qed (simp add: TrimSpace_def)

lemma b64_visible: "b64_char c \<Longrightarrow> visible c"
  by (auto simp: b64_char_def visible_def less_char_def less_eq_char_def)

lemma encode_visible: "list_all visible (base64_EncodeToString s)"
  using encode_chars [of s] by (auto simp: list_all_iff intro: b64_visible)

text \<open>\<open>ToLower\<close> on ASCII.\<close>

definition ascii :: "char \<Rightarrow> bool" where
  "ascii c \<longleftrightarrow> c < CHR 0x80"

lemma ToLower_ascii: "list_all ascii s \<Longrightarrow> ToLower s = map lower_byte s"
  by (induction s rule: ToLower.induct) (auto simp: ascii_def less_char_def)

lemma visible_ascii: "visible c \<Longrightarrow> ascii c"
  by (auto simp: visible_def ascii_def less_char_def)

text \<open>A header that names the scheme, in any case of its letters, and a payload.\<close>

lemma header_check:
  assumes "pa_enabled pa" and "ToLower scheme = ''basic''" and "list_all visible scheme" and "s \<noteq> []"
  shows "CheckHTTPHeader pa (scheme @ '' '' @ base64_EncodeToString s) =
    (case Cut s (CHR '':'') of None \<Rightarrow> Some ErrAuthFailed | Some (u, p) \<Rightarrow> Check pa u p)"
proof -
  let ?e = "base64_EncodeToString s" and ?h = "scheme @ '' '' @ base64_EncodeToString s"
  have low: "map lower_byte scheme = ''basic''"
    using assms(2,3) ToLower_ascii [of scheme] by (auto simp: list_all_iff visible_ascii)
  have len: "length scheme = 5" using arg_cong [OF low, of length] by simp
  have ne: "?e \<noteq> []" using assms(4) by simp
  have vis: "\<forall>c \<in> set ?e. visible c" using encode_visible [of s] by (simp add: list_all_iff)
  have "scheme \<noteq> []" using len by auto
  then have "hd ?h = hd scheme" "last ?h = last ?e" using ne by simp_all
  moreover have "visible (hd scheme)" "visible (last ?e)"
    using assms(3) vis ne \<open>scheme \<noteq> []\<close> by (simp_all add: list_all_iff)
  ultimately have trim: "TrimSpace ?h = ?h" by (intro TrimSpace_visible) simp_all
  have "ascii (CHR '' '')" by (simp add: ascii_def less_char_def)
  then have "list_all ascii ?h" using assms(3) vis by (auto simp: list_all_iff intro: visible_ascii)
  then have "HasPrefix (ToLower ?h) ''basic ''"
    using low len by (simp add: ToLower_ascii HasPrefix_def less_eq_char_def)
  moreover have "drop 6 ?h = ?e" using len by simp
  moreover have "TrimSpace ?e = ?e" by (rule TrimSpace_all_visible [OF encode_visible])
  moreover have "?h \<noteq> ''''" by simp
  ultimately show ?thesis using assms(1) trim unfolding CheckHTTPHeader_def Let_def by simp
qed

lemma Cut_Some: "Cut s c = Some (u, p) \<longleftrightarrow> s = u @ c # p \<and> c \<notin> set u"
proof
  assume "Cut s c = Some (u, p)"
  then obtain i where i: "IndexByte s c = Some i" "u = take i s" "p = drop (Suc i) s"
    by (auto simp: Cut_def)
  from i(1) have "i < length s \<and> s ! i = c \<and> c \<notin> set (take i s)"
    by (induction s c arbitrary: i rule: IndexByte.induct) (auto split: if_splits)
  with i(2,3) show "s = u @ c # p \<and> c \<notin> set u" by (metis id_take_nth_drop)
qed (auto simp: Cut_fresh)

text \<open>The numeral at the front of a port text.\<close>

lemma takeWhile_front: "list_all P s \<Longrightarrow> (t = [] \<or> \<not> P (hd t)) \<Longrightarrow> takeWhile P (s @ t) = s"
  by (induction s) (cases t, auto)

lemma digit_no_sign: "is_digit c \<Longrightarrow> c \<noteq> CHR ''-'' \<and> c \<noteq> CHR ''+'' \<and> visible c"
  by (auto simp: is_digit_def visible_def less_eq_char_def less_char_def)

lemma Sscanf_int_dec:
  assumes "in_int64 n" and "rest = [] \<or> \<not> is_digit (hd rest)"
  shows "Sscanf_d (int_dec n @ rest) = Some n"
proof -
  have front: "takeWhile is_digit (nat_dec m @ rest) = nat_dec m" for m
    using nat_dec_digits [of m] assms(2) by (intro takeWhile_front) simp_all
  show ?thesis
  proof (cases "n < 0")
    case True
    let ?s = "CHR ''-'' # nat_dec (nat (- n)) @ rest"
    have "TrimLeft ?s = ?s"
      by (rule TrimLeft_visible) (simp add: visible_def less_char_def)
    with True assms(1) show ?thesis
      unfolding Sscanf_d_def Let_def by (simp add: int_dec_def front)
  next
    case False
    obtain c s where cs: "nat_dec (nat n) = c # s" by (cases "nat_dec (nat n)") auto
    then have "is_digit c" using nat_dec_digits [of "nat n"] by simp
    note c = digit_no_sign [OF this]
    have "TrimLeft (c # s @ rest) = c # s @ rest" using c by (intro TrimLeft_visible) simp
    moreover have "takeWhile is_digit (c # s @ rest) = nat_dec (nat n)" using front [of "nat n"] by (simp add: cs)
    moreover have "int_dec n @ rest = c # s @ rest" using False by (simp add: int_dec_def cs)
    ultimately show ?thesis
      using c assms(1) False digits_val_nat_dec [of "nat n"] unfolding Sscanf_d_def Let_def
      by (simp del: takeWhile.simps)
  qed
qed

section \<open>Properties\<close>

text \<open>C30. With credentials configured, the HTTP check accepts a Basic header, its scheme in any
  case of letters, exactly when the decoded payload is the configured user and password joined
  by a colon; and a user name with a colon in it can never be accepted.\<close>

theorem basic_auth_roundtrip:
  assumes "user \<noteq> ''''" and "pass \<noteq> ''''"
    and "ToLower scheme = ''basic''" and "list_all visible scheme"
  shows "CheckHTTPHeader (NewProxyAuth user pass)
      (scheme @ '' '' @ base64_EncodeToString (u @ CHR '':'' # p)) = None
    \<longleftrightarrow> CHR '':'' \<notin> set user \<and> u @ CHR '':'' # p = user @ CHR '':'' # pass"
proof -
  let ?s = "u @ CHR '':'' # p"
  have "pa_enabled (NewProxyAuth user pass)" using assms(1,2) by (simp add: NewProxyAuth_def)
  from header_check [OF this assms(3,4), of ?s]
  have eq: "CheckHTTPHeader (NewProxyAuth user pass) (scheme @ '' '' @ base64_EncodeToString ?s) =
    (case Cut ?s (CHR '':'') of None \<Rightarrow> Some ErrAuthFailed | Some (a, b) \<Rightarrow> Check (NewProxyAuth user pass) a b)"
    by simp
  have "Cut ?s (CHR '':'') \<noteq> None" by (simp add: Cut_def)
  then obtain a b where ab: "Cut ?s (CHR '':'') = Some (a, b)" by auto
  then have "?s = a @ CHR '':'' # b" "CHR '':'' \<notin> set a" by (simp_all add: Cut_Some)
  moreover have "Cut ?s (CHR '':'') = Some (user, pass) \<longleftrightarrow> ?s = user @ CHR '':'' # pass \<and> CHR '':'' \<notin> set user"
    by (rule Cut_Some)
  ultimately show ?thesis
    unfolding eq ab using assms(1,2) by (auto simp: Check_def NewProxyAuth_def)
qed

lemma basic_auth_roundtrip_witness:
  "CheckHTTPHeader (NewProxyAuth ''alice'' ''s3cret'') (''BASIC '' @ base64_EncodeToString ''alice:s3cret'') = None \<and>
   CheckHTTPHeader (NewProxyAuth ''alice'' ''s3cret'') (''BASIC '' @ base64_EncodeToString ''alice:S3cret'') \<noteq> None"
proof -
  have s: "ToLower ''BASIC'' = ''basic''" "list_all visible ''BASIC''"
    by code_simp+
  have ne: "''alice'' \<noteq> ''''" "''s3cret'' \<noteq> ''''" by simp_all
  show ?thesis
    using basic_auth_roundtrip [OF ne s, of "''alice''" "''s3cret''"]
      basic_auth_roundtrip [OF ne s, of "''alice''" "''S3cret''"]
    by simp
qed

text \<open>A target that is a host without brackets or colons, a colon and a number splits into
  this host and number, and anything that follows the number's digits is ignored: text after
  the port is not an error, and neither is a port that no TCP address can have.\<close>

theorem target_splits:
  assumes "set host \<inter> {CHR '':'', CHR ''['', CHR '']''} = {}" and "in_int64 n"
    and "set rest \<inter> {CHR '':'', CHR ''['', CHR '']''} = {}" and "rest = [] \<or> \<not> is_digit (hd rest)"
  shows "proxy_SplitHostPort (host @ CHR '':'' # int_dec n @ rest) d = Inr (host, n)"
proof -
  have "set (int_dec n @ rest) \<inter> {CHR '':'', CHR ''['', CHR '']''} = {}"
    using assms(3) by (auto simp: int_dec_def)
  with assms show ?thesis
    by (simp add: proxy_SplitHostPort_def SplitHostPort_plain Sscanf_int_dec)
qed

lemma target_splits_witness:
  "proxy_SplitHostPort ''example.org:70000xyz'' 80 = Inr (''example.org'', 70000)"
proof -
  have d: "int_dec 70000 = ''70000''" by (simp add: int_dec_def nat_dec.simps digit_char_def) code_simp
  have "proxy_SplitHostPort (''example.org'' @ CHR '':'' # int_dec 70000 @ ''xyz'') 80 = Inr (''example.org'', 70000)"
    by (rule target_splits) (simp_all add: in_int64_def is_digit_def less_eq_char_def)
  then show ?thesis by (simp add: d)
qed

end
