(* ===== verification/Net_IO.thy ===== *)
theory Net_IO
  imports Go_Strings
begin

text \<open>
  Connections as the proxy handlers see them. A run of the peer is the sequence of chunks its
  bytes arrive in (what one \<open>Read\<close> of the socket returns), then either its end (\<open>EOF\<close> or an
  error) or silence, in which a read without a deadline blocks for ever. A quantification over
  all such runs covers peers that answer to what they are sent.

  A handler is a function of the connection that ends with a result, fails with an error, or
  blocks.
\<close>

section \<open>Connections\<close>

record conn =
  inp :: "u8 list list"
  silent :: bool
  buf :: "u8 list"
  writes_ok :: nat
  wrote :: "u8 list"
  closed :: bool

text \<open>
  \<open>inp\<close> has the chunks not yet read from the socket, \<open>buf\<close> the bytes a \<open>bufio.Reader\<close> has read
  from it beyond what was asked for; \<open>writes_ok\<close> is how many more writes succeed, \<open>wrote\<close> all
  bytes written.
\<close>

definition peer_sends :: "u8 list list \<Rightarrow> bool \<Rightarrow> conn" where
  "peer_sends cs quiet =
     \<lparr>inp = cs, silent = quiet, buf = [], writes_ok = 100, wrote = [], closed = False\<rparr>"

datatype ('e, 'a) io_res = Done 'a | Failed 'e | Blocked

type_synonym ('e, 'a) cio = "conn \<Rightarrow> ('e, 'a) io_res \<times> conn"

definition io_return :: "'a \<Rightarrow> ('e, 'a) cio" where
  "io_return x c = (Done x, c)"

definition io_fail :: "'e \<Rightarrow> ('e, 'a) cio" where
  "io_fail e c = (Failed e, c)"

definition io_bind :: "('e, 'a) cio \<Rightarrow> ('a \<Rightarrow> ('e, 'b) cio) \<Rightarrow> ('e, 'b) cio" where
  "io_bind m f c =
     (case m c of
        (Done x, c1) \<Rightarrow> f x c1
      | (Failed e, c1) \<Rightarrow> (Failed e, c1)
      | (Blocked, c1) \<Rightarrow> (Blocked, c1))"

section \<open>Reading and writing\<close>

text \<open>
  Take \<open>n\<close> bytes from a buffer filled from the chunks as needed: the bytes, the buffer and the
  chunks that are left. \<open>None\<close> when they do not suffice.
\<close>

fun br_take :: "nat \<Rightarrow> u8 list \<Rightarrow> u8 list list \<Rightarrow> (u8 list \<times> u8 list \<times> u8 list list) option" where
  "br_take n b [] = (if n \<le> length b then Some (take n b, drop n b, []) else None)"
| "br_take n b (x # cs) =
     (if n \<le> length b then Some (take n b, drop n b, x # cs)
      else (case br_take (n - length b) x cs of
              None \<Rightarrow> None
            | Some (t, b', cs') \<Rightarrow> Some (b @ t, b', cs')))"

text \<open>\<open>io.ReadFull\<close> on a \<open>bufio.Reader\<close>, and on the socket, which keeps what is not asked for.\<close>

definition br_ReadFull :: "'e \<Rightarrow> nat \<Rightarrow> ('e, u8 list) cio" where
  "br_ReadFull e n c =
     (case br_take n (buf c) (inp c) of
        Some (t, b, cs) \<Rightarrow> (Done t, c\<lparr>buf := b, inp := cs\<rparr>)
      | None \<Rightarrow> if silent c then (Blocked, c) else (Failed e, c))"

definition ReadFull :: "'e \<Rightarrow> nat \<Rightarrow> ('e, u8 list) cio" where
  "ReadFull e n c =
     (case br_take n [] (inp c) of
        Some (t, b, cs) \<Rightarrow> (Done t, c\<lparr>inp := (if b = [] then cs else b # cs)\<rparr>)
      | None \<Rightarrow> if silent c then (Blocked, c) else (Failed e, c))"

definition Write_conn :: "'e \<Rightarrow> u8 list \<Rightarrow> ('e, unit) cio" where
  "Write_conn e bs c =
     (if writes_ok c = 0 then (Failed e, c)
      else (Done (), c\<lparr>writes_ok := writes_ok c - 1, wrote := wrote c @ bs\<rparr>))"

definition Close :: "conn \<Rightarrow> conn" where
  "Close c = c\<lparr>closed := True\<rparr>"

section \<open>Bytes\<close>

definition bytes :: "string \<Rightarrow> u8 list" where
  "bytes s = map (\<lambda>c. of_nat (of_char c)) s"

definition text_of :: "u8 list \<Rightarrow> string" where
  "text_of bs = map (\<lambda>b. char_of (unat b)) bs"

text \<open>\<open>binary.BigEndian\<close> for a \<open>uint16\<close>.\<close>

definition BigEndian16 :: "u16 \<Rightarrow> u8 list" where
  "BigEndian16 w = [ucast (drop_bit 8 w), ucast w]"

definition Uint16 :: "u8 list \<Rightarrow> u16" where
  "Uint16 b = or (ucast (b ! 1)) (push_bit 8 (ucast (b ! 0)))"

section \<open>Laws\<close>

lemma io_simps [simp]:
  "io_bind (io_return x) f c = f x c" "io_bind (io_fail e) f c = (Failed e, c)"
  "io_return x c = (Done x, c)" "io_fail e c = (Failed e, c)"
  by (simp_all add: io_bind_def io_return_def io_fail_def)

lemma io_bind_assoc: "io_bind (io_bind m f) g = io_bind m (\<lambda>x. io_bind (f x) g)"
  by (rule ext) (simp add: io_bind_def split: prod.split io_res.split)

lemma br_take_Some:
  "br_take n b cs = Some (t, b', cs') \<Longrightarrow> t @ b' @ concat cs' = b @ concat cs \<and> length t = n"
proof (induction cs arbitrary: n b t)
  case Nil
  then show ?case by (auto split: if_splits)
next
  case (Cons x cs)
  show ?case
  proof (cases "n \<le> length b")
    case True
    with Cons.prems show ?thesis by auto
  next
    case False
    with Cons.prems obtain u where u: "br_take (n - length b) x cs = Some (u, b', cs')" "t = b @ u"
      by (auto split: option.splits)
    from Cons.IH [OF u(1)] u(2) False show ?thesis by simp
  qed
qed

lemma br_take_None: "br_take n b cs = None \<longleftrightarrow> length (b @ concat cs) < n"
proof (induction cs arbitrary: n b)
  case Nil
  then show ?case by auto
next
  case (Cons x cs)
  show ?case
  proof (cases "n \<le> length b")
    case False
    then have "br_take n b (x # cs) = None \<longleftrightarrow> br_take (n - length b) x cs = None"
      by (auto split: option.splits)
    with Cons.IH [of "n - length b" x] False show ?thesis by auto
  qed simp
qed

lemma br_take_enough: "n \<le> length (b @ concat cs) \<Longrightarrow> br_take n b cs \<noteq> None"
  by (simp add: br_take_None)

text \<open>What a buffered reader has still to read.\<close>

definition pending :: "conn \<Rightarrow> u8 list" where
  "pending c = buf c @ concat (inp c)"

lemma pending_update [simp]:
  "pending (c\<lparr>writes_ok := w\<rparr>) = pending c" "pending (c\<lparr>wrote := x\<rparr>) = pending c"
  "pending (c\<lparr>closed := b\<rparr>) = pending c"
  by (simp_all add: pending_def)

text \<open>Inversion of successful runs.\<close>

lemma io_bind_Done:
  assumes "io_bind m f c = (Done y, c2)"
  obtains x c1 where "m c = (Done x, c1)" and "f x c1 = (Done y, c2)"
  using assms by (auto simp: io_bind_def split: prod.splits io_res.splits)

lemma br_ReadFull_Done:
  "br_ReadFull e n c = (Done t, c1) \<Longrightarrow> pending c = t @ pending c1 \<and> length t = n"
  by (auto simp: br_ReadFull_def pending_def split: option.splits if_splits dest: br_take_Some)

lemma Write_conn_Done:
  "Write_conn e bs c = (Done u, c1) \<Longrightarrow> pending c1 = pending c"
  by (auto simp: Write_conn_def split: if_splits)

text \<open>Reading the front of what the socket holds.\<close>

lemma ReadFull_front:
  assumes "concat (inp c) = t @ r"
  shows "\<exists>cs. ReadFull e (length t) c = (Done t, c\<lparr>inp := cs\<rparr>) \<and> concat cs = r"
proof -
  obtain t' b cs where tk: "br_take (length t) [] (inp c) = Some (t', b, cs)"
    using br_take_enough [of "length t" "[]" "inp c"] assms by auto
  from br_take_Some [OF this] assms have "t' = t" "b @ concat cs = r" by auto
  with tk show ?thesis by (auto simp: ReadFull_def)
qed

lemma br_ReadFull_front:
  assumes "buf c @ concat (inp c) = t @ r"
  shows "\<exists>b cs. br_ReadFull e (length t) c = (Done t, c\<lparr>buf := b, inp := cs\<rparr>) \<and> b @ concat cs = r"
proof -
  obtain t' b cs where tk: "br_take (length t) (buf c) (inp c) = Some (t', b, cs)"
    using br_take_enough [of "length t" "buf c" "inp c"] assms by auto
  from br_take_Some [OF this] assms have "t' = t" "b @ concat cs = r" by auto
  with tk show ?thesis by (auto simp: br_ReadFull_def)
qed

lemma byte_char [simp]: "char_of (unat (of_nat (of_char c :: nat) :: u8)) = c"
  by (simp add: unat_of_nat take_bit_eq_mod)

lemma text_of_bytes [simp]: "text_of (bytes s) = s"
  by (simp add: text_of_def bytes_def comp_def)

lemma word_of_nat_mod_256: "word_of_nat (unat b mod 256) = (b :: u8)"
  using unsigned_less [of b, where 'a = nat] by simp

lemma bytes_text_of [simp]: "bytes (text_of b) = b"
  by (simp add: text_of_def bytes_def comp_def word_of_nat_mod_256)

lemma length_bytes [simp]: "length (bytes s) = length s"
  by (simp add: bytes_def)

lemma BigEndian16_length [simp]: "length (BigEndian16 w) = 2"
  by (simp add: BigEndian16_def)

lemma Uint16_BigEndian16 [simp]: "Uint16 (BigEndian16 w) = w"
  unfolding Uint16_def BigEndian16_def by (rule bit_word_eqI) (auto simp: bit_simps)

end
