(* ===== verification/Tunnel.thy ===== *)
theory Tunnel
  imports Proxy_State Net_IO
begin

text \<open>
  Model of \<open>internal/proxy/tunnel.go\<close>: dialling a target through a leased backend, the client
  side of the SOCKS5 handshake, the parsing of a SOCKS address, and the two-way copy with its
  idle timeouts. The texts of the errors are formatted by \<open>say\<close>, a parameter; dialling is the
  network \<open>'n net\<close>, a parameter.
\<close>

section \<open>The handshake with a backend\<close>

datatype sock_error =
    Err_Connect string
  | Err_Greeting
  | Err_Method_Response
  | Err_Method_Rejected u8
  | Err_Hostname_Too_Long
  | Err_Request
  | Err_Response
  | Err_Ver u8
  | Err_Status u8
  | Err_Bind_Len
  | Err_Atyp u8
  | Err_Bind

text \<open>The CONNECT request; \<open>uint16(port)\<close> keeps the low 16 bits.\<close>

definition request :: "string \<Rightarrow> int \<Rightarrow> u8 list option" where
  "request host port =
     (let p = BigEndian16 (word_of_int port) in
      case ParseIP host of
        None \<Rightarrow>
          (if length host > 255 then None
           else Some ([5, 1, 0, 3, of_nat (length host)] @ bytes host @ p))
      | Some ip \<Rightarrow>
          (case To4 ip of
             Some ip4 \<Rightarrow> Some ([5, 1, 0, 1] @ ip4 @ p)
           | None \<Rightarrow> Some ([5, 1, 0, 4] @ ip @ p)))"

text \<open>Reading the bound address of the answer, whose content is dropped.\<close>

definition drain_bind :: "u8 \<Rightarrow> (sock_error, unit) cio" where
  "drain_bind atyp =
     (if atyp = 1 then io_bind (ReadFull Err_Bind (4 + 2)) (\<lambda>_. io_return ())
      else if atyp = 3 then
        io_bind (ReadFull Err_Bind_Len 1) (\<lambda>lb.
        io_bind (ReadFull Err_Bind (unat (lb ! 0) + 2)) (\<lambda>_. io_return ()))
      else if atyp = 4 then io_bind (ReadFull Err_Bind (16 + 2)) (\<lambda>_. io_return ())
      else io_fail (Err_Atyp atyp))"

definition handshake :: "string \<Rightarrow> int \<Rightarrow> (sock_error, unit) cio" where
  "handshake host port =
     io_bind (Write_conn Err_Greeting [5, 1, 0]) (\<lambda>_.
     io_bind (ReadFull Err_Method_Response 2) (\<lambda>resp.
     if resp ! 0 \<noteq> 5 \<or> resp ! 1 \<noteq> 0 then io_fail (Err_Method_Rejected (resp ! 1))
     else
       (case request host port of
          None \<Rightarrow> io_fail Err_Hostname_Too_Long
        | Some req \<Rightarrow>
            io_bind (Write_conn Err_Request req) (\<lambda>_.
            io_bind (ReadFull Err_Response 4) (\<lambda>hdr.
            if hdr ! 0 \<noteq> 5 then io_fail (Err_Ver (hdr ! 0))
            else if hdr ! 1 \<noteq> 0 then io_fail (Err_Status (hdr ! 1))
            else drain_bind (hdr ! 3))))))"

text \<open>
  The network: its clock, a dial with a timeout, and the passage of time and the effects of
  using a connection, given as it was left.
\<close>

record 'n net =
  n_now :: "'n \<Rightarrow> instant"
  n_dial :: "string \<Rightarrow> duration \<Rightarrow> 'n \<Rightarrow> (string + conn) \<times> 'n"
  n_used :: "conn \<Rightarrow> 'n \<Rightarrow> 'n"

definition connectSOCKS5 ::
  "'n net \<Rightarrow> string \<Rightarrow> string \<Rightarrow> int \<Rightarrow> duration \<Rightarrow> 'n \<Rightarrow> (sock_error, conn) io_res \<times> 'n" where
  "connectSOCKS5 N proxyAddr host port timeout n =
     (case n_dial N proxyAddr timeout n of
        (Inl e, n1) \<Rightarrow> (Failed (Err_Connect e), n1)
      | (Inr c, n1) \<Rightarrow>
          (case handshake host port c of
             (Done _, c1) \<Rightarrow> (Done c1, n_used N c1 n1)
           | (Failed e, c1) \<Rightarrow> (Failed e, n_used N (Close c1) n1)
           | (Blocked, c1) \<Rightarrow> (Blocked, n_used N c1 n1)))"

section \<open>Dialling through the pool\<close>

text \<open>The operations of the pool and of its leases that the dialler calls.\<close>

record 'p lease_ops =
  lo_Select :: "instant \<Rightarrow> u64 \<Rightarrow> 'p \<Rightarrow> panic + ((pool_error + nat) \<times> 'p)"
  lo_Addr :: "nat \<Rightarrow> 'p \<Rightarrow> string"
  lo_MarkSuccess :: "instant \<Rightarrow> nat \<Rightarrow> 'p \<Rightarrow> 'p"
  lo_MarkFailure :: "instant \<Rightarrow> nat \<Rightarrow> string \<Rightarrow> 'p \<Rightarrow> 'p"
  lo_Release :: "nat \<Rightarrow> 'p \<Rightarrow> 'p"

definition pool_ops :: "pool lease_ops" where
  "pool_ops =
     \<lparr>lo_Select = Select, lo_Addr = (\<lambda>k p. Addr (backends p ! k)),
      lo_MarkSuccess = Lease_MarkSuccess, lo_MarkFailure = Lease_MarkFailure,
      lo_Release = Lease_Release\<rparr>"

datatype dial_error = No_Backend pool_error | Last_Error "sock_error option"

text \<open>
  A connection with its lease, an error, a handshake that never ends (with the lease held),
  or a panic of \<open>Select\<close>.
\<close>

datatype dial_result = Dialed conn nat | Dial_Failed dial_error | Stuck nat | Panicked panic

fun dial_attempts ::
  "'p lease_ops \<Rightarrow> (sock_error \<Rightarrow> string) \<Rightarrow> 'n net \<Rightarrow> string \<Rightarrow> int \<Rightarrow> duration \<Rightarrow> u64 \<Rightarrow>
   nat \<Rightarrow> sock_error option \<Rightarrow> 'p \<times> 'n \<Rightarrow> dial_result \<times> 'p \<times> 'n"
where
  "dial_attempts ops say N host port timeout key 0 lastErr s = (Dial_Failed (Last_Error lastErr), s)"
| "dial_attempts ops say N host port timeout key (Suc m) lastErr (p, n) =
     (case lo_Select ops (n_now N n) key p of
        Inl e \<Rightarrow> (Panicked e, (p, n))
      | Inr (Inl e, p1) \<Rightarrow> (Dial_Failed (No_Backend e), (p1, n))
      | Inr (Inr k, p1) \<Rightarrow>
          (case connectSOCKS5 N (lo_Addr ops k p1) host port timeout n of
             (Failed e, n1) \<Rightarrow>
               dial_attempts ops say N host port timeout key m (Some e)
                 (lo_Release ops k (lo_MarkFailure ops (n_now N n1) k (say e) p1), n1)
           | (Done c, n1) \<Rightarrow> (Dialed c k, (lo_MarkSuccess ops (n_now N n1) k p1, n1))
           | (Blocked, n1) \<Rightarrow> (Stuck k, (p1, n1))))"

definition DialViaSocks ::
  "(sock_error \<Rightarrow> string) \<Rightarrow> 'n net \<Rightarrow> config \<Rightarrow> string \<Rightarrow> int \<Rightarrow> u64 \<Rightarrow> pool \<times> 'n \<Rightarrow>
   dial_result \<times> pool \<times> 'n"
where
  "DialViaSocks say N c host port stickyKey s =
     dial_attempts pool_ops say N host port (lm_DialTimeout (Limits c)) stickyKey 3 None s"

section \<open>SOCKS addresses\<close>

datatype addr_error = Err_Addr_Read | Err_Unknown_Atyp u8

definition read_port :: "string \<Rightarrow> (addr_error, string \<times> int) cio" where
  "read_port host =
     io_bind (br_ReadFull Err_Addr_Read 2) (\<lambda>pb. io_return (host, uint (Uint16 pb)))"

definition readSocksAddr :: "u8 \<Rightarrow> (addr_error, string \<times> int) cio" where
  "readSocksAddr atyp =
     (if atyp = 1 then io_bind (br_ReadFull Err_Addr_Read 4) (\<lambda>b. read_port (IP_String b))
      else if atyp = 3 then
        io_bind (br_ReadFull Err_Addr_Read 1) (\<lambda>lb.
        io_bind (br_ReadFull Err_Addr_Read (unat (lb ! 0))) (\<lambda>name. read_port (text_of name)))
      else if atyp = 4 then io_bind (br_ReadFull Err_Addr_Read 16) (\<lambda>b. read_port (IP_String b))
      else io_fail (Err_Unknown_Atyp atyp))"

section \<open>The two-way copy\<close>

text \<open>The effective idle timeout, and the lifetime cap of a streaming tunnel.\<close>

definition effective_idle :: "duration \<Rightarrow> bool \<Rightarrow> duration" where
  "effective_idle idleTimeout isStreaming =
     (let t = (if isStreaming \<and> idleTimeout < 5 * Minute then 5 * Minute else idleTimeout)
      in if t \<le> 0 then 2 * Minute else t)"

definition lifetime_cap :: "bool \<Rightarrow> duration \<Rightarrow> duration option" where
  "lifetime_cap isStreaming maxDuration =
     (if isStreaming \<and> maxDuration > 0 then Some maxDuration else None)"

text \<open>
  An \<open>idleConn\<close>: the deadlines its \<open>Read\<close> and \<open>Write\<close> set, and whether its write side has been
  shut down. A \<open>Read\<close> is two steps: it sets the deadline and waits; when it returns data it
  moves the write deadline.
\<close>

record idle_conn =
  ic_read_deadline :: "instant option"
  ic_write_deadline :: "instant option"
  ic_write_closed :: bool

definition fresh_idle :: idle_conn where
  "fresh_idle = \<lparr>ic_read_deadline = None, ic_write_deadline = None, ic_write_closed = False\<rparr>"

definition idle_Read_begin :: "duration \<Rightarrow> instant \<Rightarrow> idle_conn \<Rightarrow> idle_conn" where
  "idle_Read_begin idle now c = c\<lparr>ic_read_deadline := Some (now + idle)\<rparr>"

definition idle_Read_end :: "duration \<Rightarrow> instant \<Rightarrow> nat \<Rightarrow> idle_conn \<Rightarrow> idle_conn" where
  "idle_Read_end idle now n c = (if n > 0 then c\<lparr>ic_write_deadline := Some (now + idle)\<rparr> else c)"

definition idle_Write :: "duration \<Rightarrow> instant \<Rightarrow> idle_conn \<Rightarrow> idle_conn" where
  "idle_Write idle now c = c\<lparr>ic_write_deadline := Some (now + idle)\<rparr>"

text \<open>
  One of the two goroutines: \<open>io.Copy\<close> from \<open>src\<close> to \<open>dst\<close>, waiting in a \<open>Read\<close> of \<open>src\<close> as
  long as \<open>open\<close> is set. The tunnel has both, over two connections.
\<close>

datatype direction = A_to_B | B_to_A

record tunnel =
  tn_a :: idle_conn
  tn_b :: idle_conn
  tn_open :: "direction \<Rightarrow> bool"
  tn_copied :: "direction \<Rightarrow> nat"

definition src_of :: "direction \<Rightarrow> tunnel \<Rightarrow> idle_conn" where
  "src_of d t = (case d of A_to_B \<Rightarrow> tn_a t | B_to_A \<Rightarrow> tn_b t)"

definition upd_src :: "direction \<Rightarrow> (idle_conn \<Rightarrow> idle_conn) \<Rightarrow> tunnel \<Rightarrow> tunnel" where
  "upd_src d f t = (case d of A_to_B \<Rightarrow> t\<lparr>tn_a := f (tn_a t)\<rparr> | B_to_A \<Rightarrow> t\<lparr>tn_b := f (tn_b t)\<rparr>)"

definition upd_dst :: "direction \<Rightarrow> (idle_conn \<Rightarrow> idle_conn) \<Rightarrow> tunnel \<Rightarrow> tunnel" where
  "upd_dst d f t = (case d of A_to_B \<Rightarrow> t\<lparr>tn_b := f (tn_b t)\<rparr> | B_to_A \<Rightarrow> t\<lparr>tn_a := f (tn_a t)\<rparr>)"

text \<open>At the start both goroutines wait in their first \<open>Read\<close>.\<close>

definition tunnel_start :: "duration \<Rightarrow> instant \<Rightarrow> tunnel" where
  "tunnel_start idle now =
     upd_src A_to_B (idle_Read_begin idle now) (upd_src B_to_A (idle_Read_begin idle now)
       \<lparr>tn_a = fresh_idle, tn_b = fresh_idle, tn_open = (\<lambda>_. True), tn_copied = (\<lambda>_. 0)\<rparr>)"

text \<open>
  What can happen: the pending \<open>Read\<close> of a direction returns \<open>n\<close> bytes, which are written to the
  other side before the next \<open>Read\<close> begins; or it returns the end of the stream or an error, the
  expiry of its deadline included, and the write side of the destination is shut down if that is a
  TCP connection; or the lifetime cap closes both connections. \<open>A\<close> is always TCP, \<open>B\<close> if \<open>tcp\<close>
  (it is not when it is the wrapper of a response body).
\<close>

datatype tunnel_event = TData direction nat | TEnd direction | TCap

definition CloseWrite :: "idle_conn \<Rightarrow> idle_conn" where
  "CloseWrite c = c\<lparr>ic_write_closed := True\<rparr>"

fun tunnel_step :: "bool \<Rightarrow> duration \<Rightarrow> instant \<times> tunnel_event \<Rightarrow> tunnel \<Rightarrow> tunnel" where
  "tunnel_step tcp idle (now, TData d n) t =
     (let t1 = upd_src d (idle_Read_end idle now n) t;
          t2 = upd_dst d (idle_Write idle now) t1;
          t3 = t2\<lparr>tn_copied := (tn_copied t2)(d := tn_copied t2 d + n)\<rparr>
      in upd_src d (idle_Read_begin idle now) t3)"
| "tunnel_step tcp idle (now, TEnd d) t =
     (let t1 = t\<lparr>tn_open := (tn_open t)(d := False)\<rparr>
      in if d = B_to_A \<or> tcp then upd_dst d CloseWrite t1 else t1)"
| "tunnel_step tcp idle (now, TCap) t = t\<lparr>tn_open := (\<lambda>_. False)\<rparr>"

text \<open>
  Data is returned by a pending \<open>Read\<close> no later than its deadline; once the deadline has passed
  the \<open>Read\<close> has ended. The cap strikes at its instant, if there is one.
\<close>

fun tunnel_guard :: "instant option \<Rightarrow> instant \<times> tunnel_event \<Rightarrow> tunnel \<Rightarrow> bool" where
  "tunnel_guard capAt (now, TData d n) t \<longleftrightarrow> tn_open t d \<and> 0 < n \<and>
     (case ic_read_deadline (src_of d t) of None \<Rightarrow> True | Some dl \<Rightarrow> now \<le> dl)"
| "tunnel_guard capAt (now, TEnd d) t \<longleftrightarrow> tn_open t d"
| "tunnel_guard capAt (now, TCap) t \<longleftrightarrow> (case capAt of None \<Rightarrow> False | Some cap \<Rightarrow> cap \<le> now)"

text \<open>A run of the copy: whether the history is possible, and the tunnel it leads to.\<close>

definition CopyBidirectional ::
  "bool \<Rightarrow> duration \<Rightarrow> bool \<Rightarrow> duration \<Rightarrow> instant \<Rightarrow> (instant \<times> tunnel_event) list \<Rightarrow> bool \<times> tunnel" where
  "CopyBidirectional tcp idleTimeout isStreaming maxDuration now es =
     (let idle = effective_idle idleTimeout isStreaming;
          capAt = map_option (\<lambda>m. now + m) (lifetime_cap isStreaming maxDuration);
          t0 = tunnel_start idle now
      in (allowed (tunnel_step tcp idle) (tunnel_guard capAt) es t0, exec (tunnel_step tcp idle) es t0))"

section \<open>Lemmas\<close>

subsection \<open>The counter of the rotation\<close>

lemma sticky_hit_rr: "sticky_hit now key p = (r, p') \<Longrightarrow> rr p' = rr p"
  by (auto simp: sticky_hit_def Let_def split: option.splits if_splits prod.splits)

lemma pickLeastConn_rr: "pickLeastConn now p = (r, p') \<Longrightarrow> rr p' = rr p"
  by (auto simp: pickLeastConn_def Healthy_eq Let_def split: option.splits if_splits prod.splits)

lemma pickSticky_rr: "pickSticky now key p = Inr (r, p') \<Longrightarrow> rr p' = rr p"
  by (auto simp: pickSticky_def Healthy_eq Let_def split: sum.splits if_splits prod.splits)

lemma pickRR_rr: "pickRR now p = Inr (r, p') \<Longrightarrow> rr p' = rr p \<or> rr p' = rr p + 1"
  by (auto simp: pickRR_def Healthy_eq Let_def split: sum.splits if_splits prod.splits)

lemma pick_rr: "pick now key p = Inr (r, p') \<Longrightarrow> rr p' = rr p \<or> strategy p = StrategyRoundRobin \<and> rr p' = rr p + 1"
  unfolding pick_def
  by (auto split: if_splits sum.splits prod.splits option.splits
      dest: pickRR_rr pickLeastConn_rr pickSticky_rr) (metis pickLeastConn_rr pickSticky_rr)+

text \<open>Three selections cannot take the counter out of range.\<close>

definition room :: "nat \<Rightarrow> u64 \<Rightarrow> pool \<Rightarrow> bool" where
  "room m key p \<longleftrightarrow>
     (strategy p = StrategyRoundRobin \<longrightarrow> 0 \<le> sint (rr p) \<and> sint (rr p) + int m < 2 ^ 63) \<and>
     (strategy p = StrategySticky \<longrightarrow> 0 \<le> sint key)"

lemma room_in_range: "room m key p \<Longrightarrow> in_range key p"
  by (simp add: room_def in_range_def)

lemma room_put [simp]: "room m key (put k b p) = room m key p"
  by (simp add: room_def)

lemma Select_room:
  assumes "Select now key p = Inr (r, p')" and "room (Suc m) key p" and "strategy p' = strategy p"
  shows "room m key p'"
proof -
  have "rr p' = rr p \<or> strategy p = StrategyRoundRobin \<and> rr p' = rr p + 1"
  proof -
    obtain hit q where q: "fast_path now key p = (hit, q)" by fastforce
    have sq: "rr q = rr p" "strategy q = strategy p"
      using q by (auto simp: fast_path_def entered_def sticky_hit_def Let_def
          split: option.splits if_splits prod.splits)
    show ?thesis
    proof (cases hit)
      case (Some k)
      with assms(1) q sq show ?thesis by (simp add: Select_eq)
    next
      case None
      then obtain r2 p2 where p2: "pick now key q = Inr (r2, p2)" "rr p' = rr p2"
        using assms(1) q by (auto simp: Select_eq split: sum.splits prod.splits option.splits)
      from pick_rr [OF p2(1)] p2(2) sq show ?thesis by simp
    qed
  qed
  with assms(2,3) sint_Suc [of "rr p"] show ?thesis by (auto simp: room_def)
qed

subsection \<open>Leases while dialling\<close>

text \<open>
  What the dialler relies on: a pool whose operations keep account of the leases held, and that
  has room for a number of selections.
\<close>

locale leasing =
  fixes ops :: "'p lease_ops"
    and keeps :: "'p \<Rightarrow> nat multiset \<Rightarrow> bool"
    and space :: "nat \<Rightarrow> u64 \<Rightarrow> 'p \<Rightarrow> bool"
  assumes select_law: "keeps p L \<Longrightarrow> space (Suc m) key p \<Longrightarrow>
      \<exists>r p'. lo_Select ops now key p = Inr (r, p') \<and> space m key p' \<and>
        (case r of Inl e \<Rightarrow> keeps p' L | Inr k \<Rightarrow> keeps p' (add_mset k L))"
    and success_law: "keeps p L \<Longrightarrow> k \<in># L \<Longrightarrow> keeps (lo_MarkSuccess ops now k p) L"
    and failure_law: "keeps p L \<Longrightarrow> k \<in># L \<Longrightarrow> keeps (lo_MarkFailure ops now k reason p) L"
    and release_law: "keeps p L \<Longrightarrow> k \<in># L \<Longrightarrow> keeps (lo_Release ops k p) (L - {#k#})"
    and failure_space: "space m key (lo_MarkFailure ops now k reason p) = space m key p"
    and release_space: "space m key (lo_Release ops k p) = space m key p"
begin

text \<open>A dial keeps the lease of the connection it returns and no other.\<close>

lemma attempts_account:
  assumes "keeps p L" and "space m key p"
    and "dial_attempts ops say N host port timeout key m lastErr (p, n) = (r, p', n')"
  shows "case r of
      Dialed c k \<Rightarrow> keeps p' (add_mset k L)
    | Stuck k \<Rightarrow> keeps p' (add_mset k L)
    | Dial_Failed e \<Rightarrow> keeps p' L \<and> (0 < m \<longrightarrow> e \<noteq> Last_Error None)
    | Panicked e \<Rightarrow> False"
  using assms
proof (induction m arbitrary: p n lastErr)
  case 0
  then show ?case by auto
next
  case (Suc m)
  obtain r1 p1 where sel: "lo_Select ops (n_now N n) key p = Inr (r1, p1)" and sp: "space m key p1"
    and law: "case r1 of Inl e \<Rightarrow> keeps p1 L | Inr k \<Rightarrow> keeps p1 (add_mset k L)"
    using select_law [OF Suc.prems(1,2)] by blast
  show ?case
  proof (cases r1)
    case (Inl e)
    with Suc.prems(3) sel law show ?thesis by auto
  next
    case (Inr k)
    with law have kp: "keeps p1 (add_mset k L)" by simp
    obtain rc n1 where rc: "connectSOCKS5 N (lo_Addr ops k p1) host port timeout n = (rc, n1)"
      by fastforce
    show ?thesis
    proof (cases rc)
      case (Done c)
      with Suc.prems(3) sel Inr rc success_law [OF kp, of k] show ?thesis by auto
    next
      case Blocked
      with Suc.prems(3) sel Inr rc kp show ?thesis by auto
    next
      case (Failed e)
      let ?p2 = "lo_Release ops k (lo_MarkFailure ops (n_now N n1) k (say e) p1)"
      have "keeps ?p2 L" using release_law [OF failure_law [OF kp, of k], of k] by simp
      moreover have "space m key ?p2" using sp by (simp add: failure_space release_space)
      moreover have run: "dial_attempts ops say N host port timeout key m (Some e) (?p2, n1) = (r, p', n')"
        using Suc.prems(3) sel Inr rc Failed by simp
      ultimately have "case r of
          Dialed c k \<Rightarrow> keeps p' (add_mset k L)
        | Stuck k \<Rightarrow> keeps p' (add_mset k L)
        | Dial_Failed e \<Rightarrow> keeps p' L \<and> (0 < m \<longrightarrow> e \<noteq> Last_Error None)
        | Panicked e \<Rightarrow> False" by (rule Suc.IH)
      with run show ?thesis by (cases m) (auto split: dial_result.splits)
    qed
  qed
qed

end

interpretation pool_leases: leasing pool_ops "\<lambda>p L. held_inv (p, L)" room
proof
  fix p L m key now
  assume inv: "held_inv (p, L)" and rm: "room (Suc m) key p"
  from inv have "pool_inv p" by (simp add: held_inv_def)
  from Select_spec [OF this room_in_range [OF rm]] obtain r p' where
    sel: "Select now key p = Inr (r, p')" "strategy p' = strategy p" by blast
  moreover have "held_inv (pool_step (PSelect now key) (p, L))"
    using inv room_in_range [OF rm] by (rule held_inv_select)
  moreover have "room m key p'" using sel(1) rm sel(2) by (rule Select_room)
  ultimately show "\<exists>r p'. lo_Select pool_ops now key p = Inr (r, p') \<and> room m key p' \<and>
      (case r of Inl e \<Rightarrow> held_inv (p', L) | Inr k \<Rightarrow> held_inv (p', add_mset k L))"
    by (auto simp: pool_ops_def split: sum.splits)
qed (auto simp: pool_ops_def Lease_MarkSuccess_def Lease_MarkFailure_def Lease_Release_def [symmetric]
      intro!: held_inv_lease be_inv_marks held_inv_release,
    simp_all add: Lease_Release_def)

subsection \<open>Addresses\<close>

text \<open>A host as it comes out of a SOCKS address: an IP address in its canonical text.\<close>

definition canonical :: "string \<Rightarrow> string" where
  "canonical host = (case ParseIP host of None \<Rightarrow> host | Some ip \<Rightarrow> IP_String ip)"

lemma uint_word_of_int16: "uint (word_of_int n :: u16) = n mod 65536"
  by (simp add: uint_word_of_int)

lemma read_port_front:
  assumes "buf c @ concat (inp c) = BigEndian16 w @ r"
  shows "\<exists>b cs. read_port h c = (Done (h, uint w), c\<lparr>buf := b, inp := cs\<rparr>) \<and> b @ concat cs = r"
proof -
  obtain b cs where "br_ReadFull Err_Addr_Read 2 c = (Done (BigEndian16 w), c\<lparr>buf := b, inp := cs\<rparr>)"
    and "b @ concat cs = r"
    using br_ReadFull_front [OF assms, of Err_Addr_Read] by auto
  then show ?thesis by (intro exI [of _ b] exI [of _ cs]) (simp add: read_port_def io_bind_def)
qed

text \<open>An address of a fixed width, followed by the port.\<close>

lemma read_addr_port:
  assumes "buf c @ concat (inp c) = a @ BigEndian16 w @ r"
  shows "\<exists>b cs. io_bind (br_ReadFull Err_Addr_Read (length a)) (\<lambda>x. read_port (h x)) c
    = (Done (h a, uint w), c\<lparr>buf := b, inp := cs\<rparr>) \<and> b @ concat cs = r"
proof -
  obtain b cs where a: "br_ReadFull Err_Addr_Read (length a) c = (Done a, c\<lparr>buf := b, inp := cs\<rparr>)"
    and rest: "b @ concat cs = BigEndian16 w @ r"
    using br_ReadFull_front [OF assms, of Err_Addr_Read] by blast
  have "buf (c\<lparr>buf := b, inp := cs\<rparr>) @ concat (inp (c\<lparr>buf := b, inp := cs\<rparr>)) = BigEndian16 w @ r"
    using rest by simp
  from read_port_front [OF this, of "h a"] a show ?thesis by (auto simp: io_bind_def)
qed

lemma To4_width: "To4 a = Some q \<Longrightarrow> length q = 4 \<and> To4 q = Some q \<and> IP_String q = IP_String a"
  by (auto simp: To4_def IP_String_def split: if_splits)

lemma readSocksAddr_domain:
  assumes "buf c @ concat (inp c) = of_nat (length host) # bytes host @ BigEndian16 w @ r" and "length host \<le> 255"
  shows "\<exists>b cs. readSocksAddr 3 c = (Done (host, uint w), c\<lparr>buf := b, inp := cs\<rparr>) \<and> b @ concat cs = r"
proof -
  have "buf c @ concat (inp c) = [of_nat (length host)] @ bytes host @ BigEndian16 w @ r" using assms(1) by simp
  from br_ReadFull_front [OF this, of Err_Addr_Read] obtain b cs where
    one: "br_ReadFull Err_Addr_Read 1 c = (Done [of_nat (length host)], c\<lparr>buf := b, inp := cs\<rparr>)"
    and rest: "b @ concat cs = bytes host @ BigEndian16 w @ r" by auto
  have len: "unat (of_nat (length host) :: u8) = length (bytes host)"
    using assms(2) by (simp add: unat_of_nat take_bit_eq_mod)
  have "buf (c\<lparr>buf := b, inp := cs\<rparr>) @ concat (inp (c\<lparr>buf := b, inp := cs\<rparr>)) = bytes host @ BigEndian16 w @ r"
    using rest by simp
  from read_addr_port [OF this, of text_of] one len show ?thesis
    by (auto simp: readSocksAddr_def io_bind_def)
qed

lemma socks_address_front:
  assumes "request host port = Some req" and "buf c @ concat (inp c) = drop 4 req @ r"
  shows "\<exists>b cs. readSocksAddr (req ! 3) c =
    (Done (canonical host, port mod 65536), c\<lparr>buf := b, inp := cs\<rparr>) \<and> b @ concat cs = r"
proof (cases "ParseIP host")
  case None
  with assms(1) have "length host \<le> 255"
    and "req = [5, 1, 0, 3, of_nat (length host)] @ bytes host @ BigEndian16 (word_of_int port)"
    by (auto simp: request_def Let_def split: if_splits)
  with assms(2) readSocksAddr_domain [of c host "word_of_int port" r] None show ?thesis
    by (simp add: canonical_def uint_word_of_int16)
next
  case (Some ip)
  show ?thesis
  proof (cases "To4 ip")
    case None
    with Some assms(1) have req: "req = [5, 1, 0, 4] @ ip @ BigEndian16 (word_of_int port)"
      by (auto simp: request_def Let_def)
    with assms(2) have "buf c @ concat (inp c) = ip @ BigEndian16 (word_of_int port) @ r" by simp
    from read_addr_port [OF this, of IP_String] Some req ParseIP_length [OF Some] show ?thesis
      by (simp add: canonical_def readSocksAddr_def uint_word_of_int16)
  next
    case (Some q)
    with \<open>ParseIP host = Some ip\<close> assms(1)
    have req: "req = [5, 1, 0, 1] @ q @ BigEndian16 (word_of_int port)"
      by (auto simp: request_def Let_def)
    with assms(2) have "buf c @ concat (inp c) = q @ BigEndian16 (word_of_int port) @ r" by simp
    from read_addr_port [OF this, of IP_String] To4_width [OF Some] req \<open>ParseIP host = Some ip\<close>
    show ?thesis by (simp add: canonical_def readSocksAddr_def uint_word_of_int16)
  qed
qed

subsection \<open>Silent backends\<close>

lemma handshake_silent:
  assumes "concat (inp c) = []" and "silent c" and "writes_ok c \<noteq> 0"
  shows "fst (handshake host port c) = Blocked"
proof -
  have "br_take 2 [] (inp c) = None" unfolding br_take_None append_Nil assms(1) by simp
  with assms(2,3) show ?thesis by (simp add: handshake_def io_bind_def Write_conn_def ReadFull_def)
qed

subsection \<open>Deadlines\<close>

text \<open>The time of the last data of a direction, at first the start of the tunnel.\<close>

definition last_data :: "direction \<Rightarrow> instant \<Rightarrow> (instant \<times> tunnel_event) list \<Rightarrow> instant" where
  "last_data d t0 es = fold (\<lambda>(now, e) t. case e of TData d' n \<Rightarrow> if d' = d then now else t | _ \<Rightarrow> t) es t0"

lemma src_upd [simp]:
  "src_of d (upd_src d' f t) = (if d = d' then f (src_of d t) else src_of d t)"
  "src_of d (upd_dst d' f t) = (if d = d' then src_of d t else f (src_of d t))"
  "src_of d (t\<lparr>tn_copied := x\<rparr>) = src_of d t" "src_of d (t\<lparr>tn_open := y\<rparr>) = src_of d t"
  by (cases d; cases d'; simp add: src_of_def upd_src_def upd_dst_def)+

lemma tunnel_deadlines:
  "ic_read_deadline (src_of d (exec (tunnel_step tcp idle) es (tunnel_start idle t0))) = Some (last_data d t0 es + idle)"
proof (induction es rule: rev_induct)
  case Nil
  show ?case by (cases d) (simp_all add: tunnel_start_def last_data_def idle_Read_begin_def)
next
  case (snoc x es)
  obtain now e where x: "x = (now, e)" by fastforce
  show ?case
    using snoc.IH
    by (cases e) (auto simp: x last_data_def idle_Read_begin_def idle_Read_end_def idle_Write_def CloseWrite_def Let_def)
qed

section \<open>Properties\<close>

text \<open>C7. Dialling through the pool keeps the accounts: whatever the network does, a dial that
  returns a connection holds one slot, of the backend it reports, one that fails has given back
  every slot it took, and only a handshake that never ends keeps a slot without a connection. The
  error of a failed dial is never nil.\<close>

theorem dial_leases_balanced:
  assumes "held_inv (p, L)" and "room 3 key p"
    and "DialViaSocks say N c host port key (p, n) = (r, p', n')"
  shows "case r of
      Dialed cn k \<Rightarrow> held_inv (p', add_mset k L)
    | Stuck k \<Rightarrow> held_inv (p', add_mset k L)
    | Dial_Failed e \<Rightarrow> held_inv (p', L) \<and> e \<noteq> Last_Error None
    | Panicked e \<Rightarrow> False"
  using pool_leases.attempts_account [OF assms(1,2) assms(3) [unfolded DialViaSocks_def]]
  by (simp split: dial_result.splits)

text \<open>A network whose backends refuse, and one whose backends accept and say nothing.\<close>

definition refusing :: "nat net" where
  "refusing = \<lparr>n_now = int, n_dial = (\<lambda>a t n. (Inl ''connection refused'', Suc n)), n_used = (\<lambda>c n. Suc n)\<rparr>"

definition mute :: "nat net" where
  "mute = \<lparr>n_now = int, n_dial = (\<lambda>a t n. (Inr (peer_sends [] True), Suc n)), n_used = (\<lambda>c n. Suc n)\<rparr>"

lemma dial_refusing:
  "dial_attempts ops say refusing host port timeout key m le s = (res, s') \<Longrightarrow>
   (\<exists>e. res = Dial_Failed e) \<or> (\<exists>e. res = Panicked e)"
proof (induction m arbitrary: le s)
  case 0
  then show ?case by auto
next
  case (Suc m)
  obtain p n where s: "s = (p, n)" by fastforce
  have "connectSOCKS5 refusing a host port timeout n = (Failed (Err_Connect ''connection refused''), Suc n)" for a
    by (simp add: connectSOCKS5_def refusing_def)
  with Suc show ?case by (auto simp: s split: sum.splits prod.splits)
qed

lemma held_inv_sample: "held_inv (sample_pool s, {#})"
  using pool_inv_sample [of s] by (simp add: held_inv_def) (simp add: sample_pool_def NewBackend_def upt_rec)

lemma dial_leases_balanced_witness:
  "held_inv (fst (snd (DialViaSocks (\<lambda>e. ''x'') refusing (Default sample_host) ''example.org'' 443 7
     (sample_pool StrategyRoundRobin, 1))), {#})"
proof -
  let ?run = "DialViaSocks (\<lambda>e. ''x'') refusing (Default sample_host) ''example.org'' 443 7
     (sample_pool StrategyRoundRobin, 1)"
  have r: "room 3 7 (sample_pool StrategyRoundRobin)" by (simp add: room_def)
  obtain res p' n' where run: "?run = (res, p', n')" by (metis prod_cases3)
  from dial_leases_balanced [OF held_inv_sample r run] dial_refusing [OF run [unfolded DialViaSocks_def]]
  show ?thesis unfolding run by auto
qed

text \<open>C31. What the client side writes for a target, the server side reads back: the domain name
  as it is, an IP address in its canonical text, and the port modulo 65536, so that a port out of
  range becomes another port.\<close>

theorem socks_address_roundtrip:
  assumes "request host port = Some req" and "buf c @ concat (inp c) = drop 4 req @ r"
  shows "\<exists>b cs. readSocksAddr (req ! 3) c =
    (Done (canonical host, port mod 65536), c\<lparr>buf := b, inp := cs\<rparr>) \<and> b @ concat cs = r"
  using assms by (rule socks_address_front)

lemma socks_address_roundtrip_witness:
  "\<exists>c1. readSocksAddr 3 (peer_sends [[11], bytes ''example.org'', [0x11], [0x70, 22]] False) = (Done (''example.org'', 4464), c1)
     \<and> buf c1 = [22]"
proof -
  let ?c = "peer_sends [[11], bytes ''example.org'', [0x11], [0x70, 22]] False"
  have q: "request ''example.org'' 70000 = Some ([5, 1, 0, 3, 11] @ bytes ''example.org'' @ [0x11, 0x70])"
    by code_simp
  have "buf ?c @ concat (inp ?c) = drop 4 ([5, 1, 0, 3, 11] @ bytes ''example.org'' @ [0x11, 0x70]) @ [22]"
    by (simp add: peer_sends_def)
  from socks_address_roundtrip [OF q this]
  have "\<exists>b cs. readSocksAddr 3 ?c = (Done (canonical ''example.org'', 4464), ?c\<lparr>buf := b, inp := cs\<rparr>) \<and> b @ concat cs = [22]"
    by simp
  moreover have "canonical ''example.org'' = ''example.org''" by code_simp
  moreover have "case readSocksAddr 3 ?c of (r, c1) \<Rightarrow> buf c1 = [22]" by code_simp
  ultimately show ?thesis by auto
qed

text \<open>\<open>DialTimeout\<close> does not bound the handshake: on a backend that accepts the connection and
  then says nothing a dial never returns, and the slot it took stays taken.\<close>

theorem silent_backend_blocks:
  assumes "held_inv (p, L)" and "room 3 key p"
    and "\<And>a t n. \<exists>c. fst (n_dial N a t n) = Inr c \<and> concat (inp c) = [] \<and> silent c \<and> writes_ok c \<noteq> 0"
    and "b \<in> set (backends p)" and "fst (IsSelectable (n_now N n) b)" and "HasCapacity b"
  shows "\<exists>k p' n'. DialViaSocks say N c host port key (p, n) = (Stuck k, p', n') \<and> held_inv (p', add_mset k L)"
proof -
  have inv: "pool_inv p" using assms(1) by (simp add: held_inv_def)
  have rm: "room (Suc 2) key p" using assms(2) by (simp add: numeral_3_eq_3 numeral_2_eq_2)
  from Select_spec [OF inv room_in_range [OF assms(2)]] obtain r1 p1 where
    s: "Select (n_now N n) key p = Inr (r1, p1)" "selection (n_now N n) p r1 p1" by blast
  have "avail (n_now N n) b" using assms(5,6) by (simp add: avail_def selectable_def)
  with s(2) assms(4) have "\<not> isl r1" by (cases r1) (auto simp: selection_def refused_def)
  then obtain k where "r1 = Inr k" by (cases r1) auto
  with s(1) have sel: "Select (n_now N n) key p = Inr (Inr k, p1)" by simp
  have "held_inv (pool_step (PSelect (n_now N n) key) (p, L))"
    using assms(1) room_in_range [OF assms(2)] by (rule held_inv_select)
  with sel have keep: "held_inv (p1, add_mset k L)" by simp
  let ?a = "Addr (backends p1 ! k)" and ?t = "lm_DialTimeout (Limits c)"
  obtain cn n1 where d: "n_dial N ?a ?t n = (Inr cn, n1)" "concat (inp cn) = []" "silent cn" "writes_ok cn \<noteq> 0"
    using assms(3) [of ?a ?t n] by (metis prod.collapse)
  from handshake_silent [OF d(2-4), of host port] obtain c1 where "handshake host port cn = (Blocked, c1)"
    by (metis prod.collapse)
  with d(1) have "connectSOCKS5 N ?a host port ?t n = (Blocked, n_used N c1 n1)"
    by (simp add: connectSOCKS5_def)
  with sel have "DialViaSocks say N c host port key (p, n) = (Stuck k, p1, n_used N c1 n1)"
    unfolding DialViaSocks_def numeral_3_eq_3 by (simp add: pool_ops_def)
  with keep show ?thesis by blast
qed

lemma silent_backend_blocks_witness:
  "\<exists>k p' n'. DialViaSocks (\<lambda>e. ''x'') mute (Default sample_host) ''example.org'' 443 7
     (sample_pool StrategyRoundRobin, 1) = (Stuck k, p', n') \<and> held_inv (p', {#k#})"
proof (rule silent_backend_blocks [OF held_inv_sample])
  show "room 3 7 (sample_pool StrategyRoundRobin)" by (simp add: room_def)
  show "\<exists>c. fst (n_dial mute a t n) = Inr c \<and> concat (inp c) = [] \<and> silent c \<and> writes_ok c \<noteq> 0" for a t n
    by (simp add: mute_def peer_sends_def)
  let ?b = "backends (sample_pool StrategyRoundRobin) ! 0"
  show "?b \<in> set (backends (sample_pool StrategyRoundRobin))" by (rule nth_mem) simp
  show "fst (IsSelectable (n_now mute 1) ?b)" "HasCapacity ?b"
    by (simp_all add: sample_pool_def NewBackend_def IsSelectable_def HasCapacity_def)
qed

text \<open>The idle timeout is per direction: in a possible run of a tunnel, data of one direction
  comes at most the effective idle timeout after the previous data of the same direction (or the
  start), however busy the other direction is. The effective timeout is positive, and at least
  five minutes for a streaming tunnel.\<close>

theorem idle_timeout_per_direction:
  assumes "fst (CopyBidirectional tcp idleTimeout isStreaming maxDuration t0 (es @ [(now, TData d n)]))"
  shows "now - last_data d t0 es \<le> effective_idle idleTimeout isStreaming"
  using assms tunnel_deadlines [of d tcp "effective_idle idleTimeout isStreaming" es t0]
  by (simp add: CopyBidirectional_def Let_def)

text \<open>A download: nothing comes from A, and something from B every 100 seconds.\<close>

lemma idle_timeout_per_direction_witness:
  "fst (CopyBidirectional True (2 * Minute) False 0 0 [(100 * Second, TData B_to_A 1), (200 * Second, TData B_to_A 1)]) \<and>
   \<not> fst (CopyBidirectional True (2 * Minute) False 0 0
       ([(100 * Second, TData B_to_A 1)] @ [(200 * Second, TData A_to_B 1)]))"
proof (intro conjI notI)
  show "fst (CopyBidirectional True (2 * Minute) False 0 0 [(100 * Second, TData B_to_A 1), (200 * Second, TData B_to_A 1)])"
    by code_simp
next
  assume "fst (CopyBidirectional True (2 * Minute) False 0 0
       ([(100 * Second, TData B_to_A 1)] @ [(200 * Second, TData A_to_B 1)]))"
  from idle_timeout_per_direction [OF this] show False
    by (simp add: last_data_def effective_idle_def)
qed

end
