(* ===== verification/Admin.thy ===== *)
theory Admin
  imports Supervisor Tunnel
begin

text \<open>
  The admin API (\<open>internal/admin/admin.go\<close>): the routes of \<open>Handler\<close> and the handler behind each.
  A handler maps the shared state to a reply and the new pool; the times it reads are one instant,
  and it runs without interference. A JSON body is the value given to the encoder, with the keys of the
  struct tags in order (\<open>JObj\<close>) or the keys of a Go map (\<open>JMap\<close>); the text of it is \<open>encoding/json\<close>'s.
\<close>

section \<open>Values sent as JSON\<close>

datatype json =
    JBool bool
  | JNum int
  | JStr string
  | JArr "json list"
  | JObj "(string \<times> json) list"
  | JMap "string \<Rightarrow> json option"

text \<open>A field with \<open>omitempty\<close>.\<close>

definition unless :: "bool \<Rightarrow> string \<times> json \<Rightarrow> (string \<times> json) list" where
  "unless absent f = (if absent then [] else [f])"

definition ProbeInfo_json :: "ProbeInfo \<Rightarrow> json" where
  "ProbeInfo_json i = JObj
     [(''warp'', JStr (Warp i)), (''ip'', JStr (IP i)), (''loc'', JStr (Loc i)), (''latency_ms'', JNum (LatencyMS i))]"

definition Snapshot_json :: "Snapshot \<Rightarrow> json" where
  "Snapshot_json s = JObj (
     [(''id'', JNum (snap_ID s)), (''addr'', JStr (snap_Addr s)),
      (''state'', JStr (snap_State s)), (''admit'', JStr (snap_Admit s))] @
     unless (snap_EgressIPv4 s = '''') (''egress_ipv4'', JStr (snap_EgressIPv4 s)) @
     [(''unique_attempts'', JNum (snap_UniqueTries s)), (''fails'', JNum (snap_Fails s)),
      (''inflight'', JNum (snap_Inflight s)), (''success_total'', JNum (uint (snap_SuccessTotal s))),
      (''fail_total'', JNum (uint (snap_FailTotal s)))] @
     (case snap_LastProbe s of None \<Rightarrow> [] | Some i \<Rightarrow> [(''last_probe'', ProbeInfo_json i)]) @
     unless (snap_LastError s = '''') (''last_error'', JStr (snap_LastError s)) @
     [(''last_change_ms_ago'', JNum (snap_LastChangeAgo s))])"

record HealthResponse =
  hr_Status :: string
  hr_HealthyBackends :: int
  hr_InPool :: int
  hr_Warming :: int
  hr_Parked :: int
  hr_UniqueIPv4 :: int
  hr_CeilingHit :: bool
  hr_TotalBackends :: int
  hr_ActiveConns :: int
  hr_UptimeSec :: int

definition HealthResponse_json :: "HealthResponse \<Rightarrow> json" where
  "HealthResponse_json h = JObj
     [(''status'', JStr (hr_Status h)), (''healthy_backends'', JNum (hr_HealthyBackends h)),
      (''in_pool'', JNum (hr_InPool h)), (''warming'', JNum (hr_Warming h)), (''parked'', JNum (hr_Parked h)),
      (''unique_ipv4'', JNum (hr_UniqueIPv4 h)), (''ceiling_hit'', JBool (hr_CeilingHit h)),
      (''total_backends'', JNum (hr_TotalBackends h)), (''active_conns'', JNum (hr_ActiveConns h)),
      (''uptime_sec'', JNum (hr_UptimeSec h))]"

record MetricsResponse =
  mr_UptimeSec :: int
  mr_HealthyBackends :: int
  mr_InPool :: int
  mr_Warming :: int
  mr_Parked :: int
  mr_UniqueIPv4 :: int
  mr_TotalBackends :: int
  mr_ActiveConns :: int
  mr_Selects :: u64
  mr_SelectFail :: u64
  mr_ProbeSuccess :: u64
  mr_ProbeFailure :: u64
  mr_Strategy :: string
  mr_Mode :: string
  mr_UniqueEffort :: bool
  mr_UniqueStrict :: bool
  mr_Unique :: "(string \<rightharpoonup> json) option"
  mr_Backends :: "Snapshot list"

definition MetricsResponse_json :: "MetricsResponse \<Rightarrow> json" where
  "MetricsResponse_json m = JObj (
     [(''uptime_sec'', JNum (mr_UptimeSec m)), (''healthy_backends'', JNum (mr_HealthyBackends m)),
      (''in_pool'', JNum (mr_InPool m)), (''warming'', JNum (mr_Warming m)), (''parked'', JNum (mr_Parked m)),
      (''unique_ipv4'', JNum (mr_UniqueIPv4 m)), (''total_backends'', JNum (mr_TotalBackends m)),
      (''active_conns'', JNum (mr_ActiveConns m)), (''selects'', JNum (uint (mr_Selects m))),
      (''select_fail'', JNum (uint (mr_SelectFail m))), (''probe_success'', JNum (uint (mr_ProbeSuccess m))),
      (''probe_failure'', JNum (uint (mr_ProbeFailure m))), (''strategy'', JStr (mr_Strategy m)),
      (''mode'', JStr (mr_Mode m)), (''unique_ipv4_effort'', JBool (mr_UniqueEffort m)),
      (''unique_ipv4_strict'', JBool (mr_UniqueStrict m))] @
     (case mr_Unique m of None \<Rightarrow> [] | Some u \<Rightarrow> [(''unique'', JMap u)]) @
     [(''backends'', JArr (map Snapshot_json (mr_Backends m)))])"

text \<open>The map that \<open>UniquenessEngine.SnapshotStats\<close> builds.\<close>

definition stats_map :: "stats_view \<Rightarrow> string \<rightharpoonup> json" where
  "stats_map v =
     [''collisions'' \<mapsto> JNum (uint (Collisions (sv_stats v))),
      ''rereg_attempts'' \<mapsto> JNum (uint (ReregAttempts (sv_stats v))),
      ''rereg_success'' \<mapsto> JNum (uint (ReregSuccess (sv_stats v))),
      ''rereg_fail'' \<mapsto> JNum (uint (ReregFail (sv_stats v))),
      ''admitted_unique'' \<mapsto> JNum (uint (AdmittedUnique (sv_stats v))),
      ''admitted_residual'' \<mapsto> JNum (uint (AdmittedResidual (sv_stats v))),
      ''recheck_runs'' \<mapsto> JNum (uint (RecheckRuns (sv_stats v))),
      ''recheck_collisions'' \<mapsto> JNum (uint (RecheckCollisions (sv_stats v))),
      ''ceiling_hit'' \<mapsto> JBool (sv_ceiling_hit v),
      ''unique_ipv4'' \<mapsto> JNum (int (sv_unique_ipv4 v)),
      ''in_pool'' \<mapsto> JNum (int (sv_in_pool v)),
      ''egress_histogram'' \<mapsto> JMap (map_option JNum \<circ> sv_histogram v),
      ''max_concurrent_reg'' \<mapsto> JNum (sv_max_concurrent_reg v),
      ''recheck_every_ms'' \<mapsto> JNum (sv_recheck_every_ms v)]"

section \<open>State and replies\<close>

text \<open>
  The fields of the struct \<open>State\<close> that do not change; the pool and the limiter it points to are passed to the
  handlers. \<open>UniqueStats\<close> may be nil, and the map it returns may be.
\<close>

record admin_state =
  ad_Cfg :: config
  ad_Started :: instant
  ad_UniqueStats :: "(pool \<Rightarrow> (string \<rightharpoonup> json) option) option"

definition admin_New :: "instant \<Rightarrow> config \<Rightarrow> admin_state" where
  "admin_New now c = \<lparr>ad_Cfg = c, ad_Started = now, ad_UniqueStats = None\<rparr>"

text \<open>The closure \<open>main\<close> installs: the statistics of the supervisor's engine, if it has one.\<close>

definition wire_stats :: "engine option \<Rightarrow> admin_state \<Rightarrow> admin_state" where
  "wire_stats u s = s\<lparr>ad_UniqueStats := Some (\<lambda>p. map_option (\<lambda>e. stats_map (SnapshotStats (ad_Cfg s) e p)) u)\<rparr>"

datatype body = No_Body | Text string | Json json

record reply =
  rp_Code :: int
  rp_ContentType :: "string option"
  rp_Body :: body

abbreviation reply_json :: "int \<Rightarrow> json \<Rightarrow> reply" where
  "reply_json code j \<equiv> \<lparr>rp_Code = code, rp_ContentType = None, rp_Body = Json j\<rparr>"

definition uptime :: "instant \<Rightarrow> admin_state \<Rightarrow> int" where
  "uptime now s = int64_of (Seconds (now - ad_Started s))"

section \<open>Health\<close>

definition healthz :: "admin_state \<Rightarrow> instant \<Rightarrow> ConnLimiter \<Rightarrow> pool \<Rightarrow> reply \<times> pool" where
  "healthz s now l p =
     (let (healthy, p1) = HealthyCount now p;
          (inPool, warming, parked, uniqueIPs) = AdmitStats p1;
          total = length (backends p1);
          status = (if healthy = 0 \<or> inPool = 0 then ''degraded'' else ''ok'');
          ceiling = (uniqueIPs > 0 \<and> inPool \<ge> total \<and> uniqueIPs < inPool);
          ceiling = (case ad_UniqueStats s of
              None \<Rightarrow> ceiling
            | Some f \<Rightarrow> (case f p1 of
                None \<Rightarrow> ceiling
              | Some st \<Rightarrow> if st ''ceiling_hit'' = Some (JBool True) then True else ceiling))
      in (reply_json 200 (HealthResponse_json
            \<lparr>hr_Status = status, hr_HealthyBackends = int healthy, hr_InPool = int inPool,
             hr_Warming = int warming, hr_Parked = int parked, hr_UniqueIPv4 = int uniqueIPs,
             hr_CeilingHit = ceiling, hr_TotalBackends = int total, hr_ActiveConns = Active l,
             hr_UptimeSec = uptime now s\<rparr>), p1))"

definition readyz :: "instant \<Rightarrow> pool \<Rightarrow> reply \<times> pool" where
  "readyz now p =
     (let (healthy, p1) = HealthyCount now p in
      if healthy > 0 then (\<lparr>rp_Code = 200, rp_ContentType = None, rp_Body = Text ''ready''\<rparr>, p1)
      else (\<lparr>rp_Code = 503, rp_ContentType = None, rp_Body = Text ''no healthy backends''\<rparr>, p1))"

section \<open>Metrics\<close>

definition RunMode_string :: "RunMode \<Rightarrow> string" where
  "RunMode_string m = (case m of ModeManaged \<Rightarrow> ''managed'' | ModeAttach \<Rightarrow> ''attach'' | ModeOther s \<Rightarrow> s)"

definition metrics_page :: "admin_state \<Rightarrow> instant \<Rightarrow> ConnLimiter \<Rightarrow> pool \<Rightarrow> reply \<times> pool" where
  "metrics_page s now l p =
     (let (inPool, warming, parked, uniqueIPs) = AdmitStats p;
          unique = (case ad_UniqueStats s of None \<Rightarrow> None | Some f \<Rightarrow> f p);
          (healthy, p1) = HealthyCount now p;
          m = metrics p1
      in (reply_json 200 (MetricsResponse_json
            \<lparr>mr_UptimeSec = uptime now s, mr_HealthyBackends = int healthy, mr_InPool = int inPool,
             mr_Warming = int warming, mr_Parked = int parked, mr_UniqueIPv4 = int uniqueIPs,
             mr_TotalBackends = int (length (backends p1)), mr_ActiveConns = Active l,
             mr_Selects = Selects m, mr_SelectFail = SelectFail m,
             mr_ProbeSuccess = Success m, mr_ProbeFailure = Failure m,
             mr_Strategy = pc_Strategy (config.Pool (ad_Cfg s)), mr_Mode = RunMode_string (config.Mode (ad_Cfg s)),
             mr_UniqueEffort = UniqueEffortActive (ad_Cfg s), mr_UniqueStrict = un_Strict (Uniqueness (ad_Cfg s)),
             mr_Unique = unique, mr_Backends = Snapshots now p1\<rparr>), p1))"

text \<open>
  \<open>prometheus\<close>: a family is its two comment lines and its samples. The samples of a backend carry its ID and its
  address as labels.
\<close>

definition newline :: string where "newline = [CHR 0x0A]"

definition family :: "string \<Rightarrow> string \<Rightarrow> string \<Rightarrow> string list \<Rightarrow> string" where
  "family name kind help samples =
     ''# HELP '' @ name @ '' '' @ help @ newline @
     ''# TYPE '' @ name @ '' '' @ kind @ newline @
     concat (map (\<lambda>l. l @ newline) samples)"

definition sample :: "string \<Rightarrow> int \<Rightarrow> string" where
  "sample name v = name @ '' '' @ int_dec v"

definition labelled :: "string \<Rightarrow> Snapshot \<Rightarrow> string" where
  "labelled name snap =
     name @ ''{id='' @ [CHR 0x22] @ int_dec (snap_ID snap) @ [CHR 0x22] @ '',addr='' @ [CHR 0x22] @ snap_Addr snap @
     [CHR 0x22] @ ''}''"

definition gauge1 :: "string \<Rightarrow> string \<Rightarrow> string \<Rightarrow> int \<Rightarrow> string" where
  "gauge1 name kind help v = family name kind help [sample name v]"

definition per_backend :: "string \<Rightarrow> string \<Rightarrow> string \<Rightarrow> (Snapshot \<Rightarrow> int option) \<Rightarrow> Snapshot list \<Rightarrow> string" where
  "per_backend name kind help f snaps =
     family name kind help
       (concat (map (\<lambda>snap. case f snap of None \<Rightarrow> [] | Some v \<Rightarrow> [sample (labelled name snap) v]) snaps))"

definition prometheus_text :: "admin_state \<Rightarrow> instant \<Rightarrow> ConnLimiter \<Rightarrow> pool \<Rightarrow> string \<times> pool" where
  "prometheus_text s now l p =
     (let (healthy, p1) = HealthyCount now p;
          m = metrics p1;
          (inPool, warming, parked, uniqueIPs) = AdmitStats p1;
          total = length (backends p1);
          snaps = Snapshots now p1
      in (gauge1 ''multiwarp_up'' ''gauge'' ''1 if the proxy is running'' 1 @
          gauge1 ''multiwarp_uptime_seconds'' ''counter'' ''Uptime in seconds'' (uptime now s) @
          gauge1 ''multiwarp_backends_total'' ''gauge'' ''Total configured backends'' (int total) @
          gauge1 ''multiwarp_backends_healthy'' ''gauge'' ''Healthy selectable backends'' (int healthy) @
          gauge1 ''multiwarp_backends_in_pool'' ''gauge'' ''Backends admitted to selector'' (int inPool) @
          gauge1 ''multiwarp_backends_warming'' ''gauge'' ''Backends still warming'' (int warming) @
          gauge1 ''multiwarp_backends_parked'' ''gauge'' ''Backends parked (uniqueness strict)'' (int parked) @
          gauge1 ''multiwarp_unique_ipv4'' ''gauge'' ''Unique egress IPv4 count'' (int uniqueIPs) @
          gauge1 ''multiwarp_active_connections'' ''gauge'' ''Current active data-plane connections'' (Active l) @
          gauge1 ''multiwarp_selects_total'' ''counter'' ''Backend select attempts'' (uint (Selects m)) @
          gauge1 ''multiwarp_select_fail_total'' ''counter'' ''Backend select failures'' (uint (SelectFail m)) @
          gauge1 ''multiwarp_probe_success_total'' ''counter'' ''Health probe successes'' (uint (Success m)) @
          gauge1 ''multiwarp_probe_failure_total'' ''counter'' ''Health probe failures'' (uint (Failure m)) @
          per_backend ''multiwarp_backend_inflight'' ''gauge'' ''Current in-flight requests per backend''
            (\<lambda>snap. Some (snap_Inflight snap)) snaps @
          per_backend ''multiwarp_backend_fails'' ''gauge'' ''Consecutive fail count per backend''
            (\<lambda>snap. Some (snap_Fails snap)) snaps @
          per_backend ''multiwarp_backend_latency_ms'' ''gauge'' ''Last probe latency per backend''
            (\<lambda>snap. map_option LatencyMS (snap_LastProbe snap)) snaps @
          per_backend ''multiwarp_backend_success_total'' ''counter'' ''Total successful upstream dials per backend''
            (\<lambda>snap. Some (uint (snap_SuccessTotal snap))) snaps @
          per_backend ''multiwarp_backend_fail_total'' ''counter'' ''Total failed upstream dials per backend''
            (\<lambda>snap. Some (uint (snap_FailTotal snap))) snaps, p1))"

definition prometheus :: "admin_state \<Rightarrow> instant \<Rightarrow> ConnLimiter \<Rightarrow> pool \<Rightarrow> reply \<times> pool" where
  "prometheus s now l p =
     (let (page, p1) = prometheus_text s now l p in
      (\<lparr>rp_Code = 200, rp_ContentType = Some ''text/plain; version=0.0.4'', rp_Body = Text page\<rparr>, p1))"

definition backends_page :: "instant \<Rightarrow> pool \<Rightarrow> reply" where
  "backends_page now p = reply_json 200 (JArr (map Snapshot_json (Snapshots now p)))"

section \<open>Reconnecting a backend\<close>

record admin_request =
  ar_Method :: string
  ar_Path :: string

definition reconnect_prefix :: string where "reconnect_prefix = ''/v1/reconnect/''"

definition refusal_json :: "string \<Rightarrow> json" where
  "refusal_json e = JMap [''ok'' \<mapsto> JBool False, ''error'' \<mapsto> JStr e]"

text \<open>Slicing the path beyond its end is a panic.\<close>

definition reconnect :: "instant \<Rightarrow> admin_request \<Rightarrow> pool \<Rightarrow> panic + reply \<times> pool" where
  "reconnect now r p =
     (if ar_Method r \<noteq> ''POST'' then Inr (\<lparr>rp_Code = 405, rp_ContentType = None, rp_Body = No_Body\<rparr>, p)
      else if length (ar_Path r) < length reconnect_prefix then Inl Slice_Out_Of_Range
      else
        (case Atoi (drop (length reconnect_prefix) (ar_Path r)) of
           None \<Rightarrow> Inr (reply_json 400 (refusal_json ''bad id''), p)
         | Some i \<Rightarrow>
             if \<not> list_ex (\<lambda>b. ID b = i) (backends p)
             then Inr (reply_json 404 (refusal_json ''unknown id''), p)
             else Inr (reply_json 200 (JMap [''ok'' \<mapsto> JBool True, ''id'' \<mapsto> JNum i, ''action'' \<mapsto> JStr ''reset_state'']),
                       pool_ForceState now i StateUnknown p)))"

section \<open>Routing\<close>

datatype endpoint = E_healthz | E_readyz | E_metrics | E_prometheus | E_backends | E_reconnect

definition admin_routes :: "(string \<times> endpoint) list" where
  "admin_routes =
     [(''/healthz'', E_healthz), (''/readyz'', E_readyz), (''/metrics'', E_metrics),
      (''/metrics/prom'', E_prometheus), (''/backends'', E_backends), (''/v1/reconnect/'', E_reconnect)]"

text \<open>
  \<open>http.ServeMux\<close> on patterns without methods, hosts and wildcards, none of which is a prefix of a subtree pattern
  of another: a pattern ending in a slash matches the paths below it, any other its own path only. A path that is not
  clean, or that lacks the final slash of a pattern, is redirected (\<open>Moved\<close>); \<open>CONNECT\<close> paths are not cleaned.
\<close>

definition HasSuffix :: "string \<Rightarrow> string \<Rightarrow> bool" where
  "HasSuffix s t \<longleftrightarrow> HasPrefix (rev s) (rev t)"

definition mux_matches :: "string \<Rightarrow> string \<Rightarrow> bool" where
  "mux_matches pat path \<longleftrightarrow> pat = path \<or> HasSuffix pat ''/'' \<and> HasPrefix path pat"

definition mux_find :: "(string \<times> endpoint) list \<Rightarrow> string \<Rightarrow> endpoint option" where
  "mux_find routes path = map_option snd (find (\<lambda>(pat, e). mux_matches pat path) routes)"

definition cleanPath :: "string \<Rightarrow> string" where
  "cleanPath path =
     (if path = '''' then ''/''
      else
        (let p = (if HasPrefix path ''/'' then path else CHR ''/'' # path); np = path_Clean p in
         if HasSuffix p ''/'' \<and> np \<noteq> ''/'' then np @ ''/'' else np))"

datatype mux_answer = Served reply | Moved string | Not_Found

definition mux_route :: "(string \<times> endpoint) list \<Rightarrow> admin_request \<Rightarrow> endpoint option + string" where
  "mux_route routes r =
     (let path = (if ar_Method r = ''CONNECT'' then ar_Path r else cleanPath (ar_Path r)) in
      if \<not> HasSuffix path ''/'' \<and> mux_find routes path = None \<and> path @ ''/'' \<in> fst ` set routes
      then Inr (path @ ''/'')
      else if path \<noteq> ar_Path r then Inr path
      else Inl (mux_find routes path))"

definition run_endpoint ::
  "endpoint \<Rightarrow> admin_state \<Rightarrow> instant \<Rightarrow> admin_request \<Rightarrow> ConnLimiter \<Rightarrow> pool \<Rightarrow> panic + reply \<times> pool" where
  "run_endpoint e s now r l p =
     (case e of
        E_healthz \<Rightarrow> Inr (healthz s now l p)
      | E_readyz \<Rightarrow> Inr (readyz now p)
      | E_metrics \<Rightarrow> Inr (metrics_page s now l p)
      | E_prometheus \<Rightarrow> Inr (prometheus s now l p)
      | E_backends \<Rightarrow> Inr (backends_page now p, p)
      | E_reconnect \<Rightarrow> reconnect now r p)"

definition admin_serve ::
  "admin_state \<Rightarrow> instant \<Rightarrow> admin_request \<Rightarrow> ConnLimiter \<Rightarrow> pool \<Rightarrow> panic + mux_answer \<times> pool" where
  "admin_serve s now r l p =
     (case mux_route admin_routes r of
        Inr target \<Rightarrow> Inr (Moved target, p)
      | Inl None \<Rightarrow> Inr (Not_Found, p)
      | Inl (Some e) \<Rightarrow>
          (case run_endpoint e s now r l p of
             Inl x \<Rightarrow> Inl x
           | Inr (rp, p1) \<Rightarrow> Inr (Served rp, p1)))"

section \<open>The listener\<close>

text \<open>
  \<open>Serve\<close> fails if its address does not resolve or cannot be listened on; otherwise it answers requests until its
  listener is gone, and then returns an error too, as \<open>http.Server.Serve\<close> always does. With HTTP/2 enabled the same
  handler also takes h2c. A panic of a handler is recovered by \<open>net/http\<close>: its request gets no answer.
\<close>

datatype admin_end = Bad_Address | Cannot_Listen | Listener_Gone

definition admin_protocols :: "config \<Rightarrow> string list" where
  "admin_protocols c = ''HTTP/1.1'' # (if HTTP2_Enabled c then [''h2c''] else [])"

fun admin_requests ::
  "admin_state \<Rightarrow> (instant \<times> admin_request \<times> ConnLimiter) list \<Rightarrow> pool \<Rightarrow> mux_answer option list \<times> pool" where
  "admin_requests s [] p = ([], p)"
| "admin_requests s ((now, r, l) # rs) p =
     (let (a, p1) = (case admin_serve s now r l p of Inl x \<Rightarrow> (None, p) | Inr (a, p1) \<Rightarrow> (Some a, p1));
          (as, p2) = admin_requests s rs p1
      in (a # as, p2))"

definition admin_Serve ::
  "host \<Rightarrow> (string \<Rightarrow> bool) \<Rightarrow> admin_state \<Rightarrow> (instant \<times> admin_request \<times> ConnLimiter) list \<Rightarrow> pool \<Rightarrow>
   admin_end \<times> mux_answer option list \<times> pool"
where
  "admin_Serve h listen s rs p =
     (if \<not> Resolvable h (ln_Admin (Listen (ad_Cfg s))) then (Bad_Address, [], p)
      else if \<not> listen (ln_Admin (Listen (ad_Cfg s))) then (Cannot_Listen, [], p)
      else (Listener_Gone, admin_requests s rs p))"

section \<open>What a scraper reads\<close>

text \<open>
  What a scraper reads from a page: the lines that are neither empty nor comments, each cut at its last space into
  a name with its labels and a number.
\<close>

definition parse_sample :: "string \<Rightarrow> string \<times> int option" where
  "parse_sample line =
     (case LastIndexByte line (CHR '' '') of
        None \<Rightarrow> (line, None)
      | Some i \<Rightarrow> (take i line, signed_dec (drop (Suc i) line)))"

definition scrape :: "string \<Rightarrow> (string \<times> int option) list" where
  "scrape page = map parse_sample (filter (\<lambda>l. l \<noteq> [] \<and> hd l \<noteq> CHR ''#'') (Split page (CHR 0x0A)))"

definition admitted_as :: "AdmitPhase \<Rightarrow> pool \<Rightarrow> int" where
  "admitted_as ph p = int (length (filter (\<lambda>b. admit b = ph) (backends p)))"

definition of_backends :: "string \<Rightarrow> (backend \<Rightarrow> int) \<Rightarrow> instant \<Rightarrow> backend list \<Rightarrow> (string \<times> int) list" where
  "of_backends name f now bs = map (\<lambda>b. (labelled name (Snapshot_of now b), f b)) bs"

definition true_samples :: "admin_state \<Rightarrow> instant \<Rightarrow> ConnLimiter \<Rightarrow> pool \<Rightarrow> (string \<times> int) list" where
  "true_samples s now l p =
     [(''multiwarp_up'', 1),
      (''multiwarp_uptime_seconds'', uptime now s),
      (''multiwarp_backends_total'', int (length (backends p))),
      (''multiwarp_backends_healthy'', int (length (filter (selectable now) (backends p)))),
      (''multiwarp_backends_in_pool'', admitted_as AdmitInPool p),
      (''multiwarp_backends_warming'', admitted_as AdmitWarming p),
      (''multiwarp_backends_parked'', admitted_as AdmitParked p),
      (''multiwarp_unique_ipv4'', int (card (egress_ips (backends p)))),
      (''multiwarp_active_connections'', Active l),
      (''multiwarp_selects_total'', uint (Selects (metrics p))),
      (''multiwarp_select_fail_total'', uint (SelectFail (metrics p))),
      (''multiwarp_probe_success_total'', uint (Success (metrics p))),
      (''multiwarp_probe_failure_total'', uint (Failure (metrics p)))] @
     of_backends ''multiwarp_backend_inflight'' inflight now (backends p) @
     of_backends ''multiwarp_backend_fails'' fails now (backends p) @
     of_backends ''multiwarp_backend_latency_ms'' (\<lambda>b. LatencyMS (the (lastProbe b))) now
       (filter (\<lambda>b. lastProbe b \<noteq> None) (backends p)) @
     of_backends ''multiwarp_backend_success_total'' (\<lambda>b. uint (successTotal b)) now (backends p) @
     of_backends ''multiwarp_backend_fail_total'' (\<lambda>b. uint (failTotal b)) now (backends p)"

text \<open>A line that is a sample, and a text without line breaks.\<close>

definition one_line :: "string \<Rightarrow> bool" where
  "one_line s \<longleftrightarrow> \<not> List.member s (CHR 0x0A)"

definition good_line :: "string \<Rightarrow> bool" where
  "good_line l \<longleftrightarrow> l \<noteq> [] \<and> hd l \<noteq> CHR ''#'' \<and> CHR 0x0A \<notin> set l"

section \<open>Lemmas on the endpoints\<close>

lemma HealthyCount_eq: "HealthyCount now p = (length (healthy_ix now p), polled now p)"
proof -
  have "length (filter (selectable now) (map ((!) (backends p)) [0..<length (backends p)])) = length (healthy_ix now p)"
    by (simp add: healthy_ix_def filter_map comp_def)
  then show ?thesis by (simp add: HealthyCount_def selectable_def [abs_def] polled_def map_nth)
qed

lemma healthy_ix_empty: "healthy_ix now p = [] \<longleftrightarrow> (\<forall>b \<in> set (backends p). \<not> selectable now b)"
  by (auto simp: healthy_ix_def filter_empty_conv set_conv_nth)

lemma endpoint_pool:
  "snd (healthz s now l p) = polled now p" "snd (readyz now p) = polled now p"
  "snd (metrics_page s now l p) = polled now p" "snd (prometheus s now l p) = polled now p"
  by (simp_all add: healthz_def readyz_def metrics_page_def prometheus_def prometheus_text_def
      HealthyCount_eq Let_def split: prod.splits)

text \<open>Routing of the literal paths, and of a reconnect path with a number.\<close>

lemma fixed_routes [simp]:
  "mux_route admin_routes \<lparr>ar_Method = m, ar_Path = ''/readyz''\<rparr> = Inl (Some E_readyz)"
  "mux_route admin_routes \<lparr>ar_Method = m, ar_Path = ''/healthz''\<rparr> = Inl (Some E_healthz)"
  by (simp_all add: mux_route_def admin_routes_def mux_find_def mux_matches_def HasSuffix_def HasPrefix_def
      cleanPath_def path_Clean_def)

lemma reconnect_route:
  assumes "mux_route admin_routes r = Inl (Some E_reconnect)"
  shows "HasPrefix (ar_Path r) reconnect_prefix"
proof -
  have "mux_find admin_routes (ar_Path r) = Some E_reconnect"
    using assms by (auto simp: mux_route_def Let_def split: if_splits)
  then show ?thesis
    by (auto simp: mux_find_def admin_routes_def mux_matches_def HasSuffix_def HasPrefix_def reconnect_prefix_def
        dest!: sym [where t = "ar_Path r"] split: if_splits)
qed

lemma reconnect_no_panic:
  "HasPrefix (ar_Path r) reconnect_prefix \<Longrightarrow>
     \<exists>rp. reconnect now r p = Inr (rp, p) \<or>
       ar_Method r = ''POST'' \<and> (\<exists>i. reconnect now r p = Inr (rp, pool_ForceState now i StateUnknown p))"
  by (auto simp: reconnect_def HasPrefix_def split: option.split)

lemma int_dec_chars: "c \<in> set (int_dec n) \<Longrightarrow> is_digit c \<or> c = CHR ''-''"
  by (auto simp: int_dec_def dest: nat_dec_set split: if_splits)

lemma int_dec_segment:
  "CHR ''/'' \<notin> set (int_dec n)" "int_dec n \<noteq> ''.''" "int_dec n \<noteq> ''..''" "int_dec n \<noteq> []"
proof -
  show "CHR ''/'' \<notin> set (int_dec n)" using int_dec_chars [of "CHR ''/''" n] by (auto simp: is_digit_def less_eq_char_def)
  have "CHR ''.'' \<notin> set (int_dec n)" using int_dec_chars [of "CHR ''.''" n] by (auto simp: is_digit_def less_eq_char_def)
  then show "int_dec n \<noteq> ''.''" "int_dec n \<noteq> ''..''" by auto
  show "int_dec n \<noteq> []" by (simp add: int_dec_def)
qed

lemma reconnect_path_clean: "cleanPath (reconnect_prefix @ int_dec i) = reconnect_prefix @ int_dec i"
proof -
  note d = int_dec_segment [of i]
  have last: "\<not> HasPrefix (rev (int_dec i) @ s) ''/''" for s
  proof -
    have "rev (int_dec i) \<noteq> []" "hd (rev (int_dec i)) \<in> set (int_dec i)"
      using d(4) hd_in_set [of "rev (int_dec i)"] by simp_all
    then show ?thesis using d(1) by (cases "rev (int_dec i)") (auto simp: HasPrefix_def)
  qed
  have split: "Split (reconnect_prefix @ int_dec i) (CHR ''/'') = [[], ''v1'', ''reconnect'', int_dec i]"
    using Split_single [OF d(1)] by (simp add: reconnect_prefix_def)
  then show ?thesis
    using last d by (simp add: cleanPath_def path_Clean_def HasSuffix_def) (simp add: reconnect_prefix_def HasPrefix_def)
qed

lemma reconnect_number_route:
  "mux_route admin_routes \<lparr>ar_Method = m, ar_Path = reconnect_prefix @ int_dec i\<rparr> = Inl (Some E_reconnect)"
  by (simp add: mux_route_def reconnect_path_clean)
    (simp add: mux_find_def admin_routes_def mux_matches_def HasSuffix_def HasPrefix_def reconnect_prefix_def)

lemma held_inv_polled: "held_inv (p, L) \<Longrightarrow> held_inv (polled now p, L)"
  using leases.inv_step [of "(p, L)" "PHealthyCount now"] by (simp add: HealthyCount_eq)

lemma held_inv_ForceState: "held_inv (p, L) \<Longrightarrow> held_inv (pool_ForceState now i st p, L)"
  using leases.inv_step [of "(p, L)" "PForceState now i st"] by simp

lemma run_endpoint_pool:
  assumes "e \<noteq> E_reconnect"
  shows "\<exists>rp p'. run_endpoint e s now r l p = Inr (rp, p') \<and> (p' = p \<or> p' = polled now p)"
proof -
  have *: "\<exists>rp p'. q = (rp :: reply, p') \<and> (p' = p \<or> p' = polled now p)"
    if "snd q = polled now p" for q
    using that by (cases q) simp
  show ?thesis
    using assms by (cases e) (auto simp: run_endpoint_def endpoint_pool intro!: *)
qed

text \<open>No request makes a handler panic.\<close>

lemma admin_serve_returns: "\<exists>a p'. admin_serve s now r l p = Inr (a, p')"
proof (cases "mux_route admin_routes r")
  case (Inl e)
  show ?thesis
  proof (cases "e = Some E_reconnect")
    case True
    with Inl reconnect_no_panic [OF reconnect_route, of r now p] show ?thesis
      by (auto simp: admin_serve_def run_endpoint_def)
  next
    case False
    with Inl run_endpoint_pool [of _ s now r l p] show ?thesis by (cases e) (force simp: admin_serve_def)+
  qed
qed (simp add: admin_serve_def)

section \<open>Lemmas on the exposition format\<close>

lemma signed_dec_int_dec: "signed_dec (int_dec n) = Some n"
proof (cases "n < 0")
  case False
  obtain c s where cs: "nat_dec (nat n) = c # s" by (cases "nat_dec (nat n)") auto
  then have "c \<noteq> CHR ''-''" "c \<noteq> CHR ''+''" using nat_dec_no_sep(7,8) [of "nat n"] by auto
  then have "signed_dec (nat_dec (nat n)) = map_option int (parse_dec (nat_dec (nat n)))" by (simp add: cs)
  with False show ?thesis by (simp add: int_dec_def)
qed (simp add: int_dec_def)

lemma int_dec_no_space: "CHR '' '' \<notin> set (int_dec n)" "CHR 0x0A \<notin> set (int_dec n)"
  using int_dec_chars [of "CHR '' ''" n] int_dec_chars [of "CHR 0x0A" n] by (auto simp: is_digit_def less_eq_char_def)

lemma parse_sample_sample [simp]: "parse_sample (sample name v) = (name, Some v)"
  by (simp add: parse_sample_def sample_def LastIndexByte_fresh int_dec_no_space signed_dec_int_dec)

lemma scrape_Nil [simp]: "scrape [] = []"
  by (simp add: scrape_def)

lemma scrape_comment: "CHR 0x0A \<notin> set l \<Longrightarrow> scrape (CHR ''#'' # l @ newline @ rest) = scrape rest"
  using Split_fresh [of "CHR 0x0A" "CHR ''#'' # l" rest] by (simp add: scrape_def newline_def)

lemma scrape_lines:
  "\<forall>l \<in> set ls. good_line l \<Longrightarrow> scrape (concat (map (\<lambda>l. l @ newline) ls) @ rest) = map parse_sample ls @ scrape rest"
  by (induction ls) (auto simp: scrape_def newline_def good_line_def Split_fresh)

lemma scrape_family:
  assumes "CHR 0x0A \<notin> set (name @ kind @ help)" and "\<forall>l \<in> set ls. good_line l"
  shows "scrape (family name kind help ls @ rest) = map parse_sample ls @ scrape rest"
proof -
  have "family name kind help ls @ rest =
      CHR ''#'' # ('' HELP '' @ name @ '' '' @ help) @ newline @
      (CHR ''#'' # ('' TYPE '' @ name @ '' '' @ kind) @ newline @ concat (map (\<lambda>l. l @ newline) ls) @ rest)"
    by (simp add: family_def)
  moreover have "CHR 0x0A \<notin> set ('' HELP '' @ name @ '' '' @ help)" "CHR 0x0A \<notin> set ('' TYPE '' @ name @ '' '' @ kind)"
    using assms(1) by simp_all
  ultimately show ?thesis
    using scrape_comment scrape_lines [OF assms(2)] by metis
qed

lemma scrape_gauge1:
  "good_line name \<Longrightarrow> one_line kind \<Longrightarrow> one_line help \<Longrightarrow>
     scrape (gauge1 name kind help v @ rest) = (name, Some v) # scrape rest"
  unfolding gauge1_def by (subst scrape_family) (auto simp: good_line_def int_dec_no_space sample_def parse_sample_def LastIndexByte_fresh signed_dec_int_dec one_line_def)

lemma scrape_per_backend:
  assumes "good_line name" and "one_line kind" and "one_line help" and "\<forall>b \<in> set bs. CHR 0x0A \<notin> set (Addr b)"
  shows "scrape (per_backend name kind help f (map (Snapshot_of now) bs) @ rest) =
    map (apsnd Some) (of_backends name (\<lambda>b. the (f (Snapshot_of now b))) now
      (filter (\<lambda>b. f (Snapshot_of now b) \<noteq> None) bs)) @ scrape rest"
proof -
  let ?ls = "\<lambda>bs. concat (map (\<lambda>snap. case f snap of None \<Rightarrow> [] | Some v \<Rightarrow> [sample (labelled name snap) v])
      (map (Snapshot_of now) bs))"
  have "\<forall>l \<in> set (?ls bs). good_line l"
    using assms(1,4)
    by (auto simp: good_line_def sample_def labelled_def int_dec_no_space Snapshot_of_def
        split: option.splits)
  moreover have "map parse_sample (?ls bs) = map (apsnd Some)
      (of_backends name (\<lambda>b. the (f (Snapshot_of now b))) now (filter (\<lambda>b. f (Snapshot_of now b) \<noteq> None) bs))"
    by (induction bs) (auto simp: of_backends_def split: option.splits)
  ultimately show ?thesis
    using assms(1,2,3) unfolding per_backend_def by (subst scrape_family) (auto simp: good_line_def one_line_def)
qed

lemma AdmitStats_eq:
  "AdmitStats p = (length (filter (\<lambda>b. admit b = AdmitInPool) (backends p)),
     length (filter (\<lambda>b. admit b = AdmitWarming) (backends p)),
     length (filter (\<lambda>b. admit b = AdmitParked) (backends p)), card (egress_ips (backends p)))"
proof -
  let ?s = "fold count_admit (backends p) \<lparr>as_inPool = 0, as_warming = 0, as_parked = 0, as_ips = []\<rparr>"
  have "card (egress_ips (backends p)) = length (as_ips ?s)"
    using fold_count_admit(4,5) [where bs = "backends p"] distinct_card [of "as_ips ?s"] by simp
  then show ?thesis by (simp add: AdmitStats_def Let_def fold_count_admit)
qed

lemma healthy_count: "length (healthy_ix now p) = length (filter (selectable now) (backends p))"
  using HealthyCount_eq [of now p] by (simp add: HealthyCount_def selectable_def [abs_def])

lemma snap_fields:
  "snap_Inflight (Snapshot_of now b) = inflight b" "snap_Fails (Snapshot_of now b) = fails b"
  "snap_LastProbe (Snapshot_of now b) = lastProbe b" "snap_SuccessTotal (Snapshot_of now b) = successTotal b"
  "snap_FailTotal (Snapshot_of now b) = failTotal b"
  by (simp_all add: Snapshot_of_def)

lemma good_names [simp]:
  "good_line ''multiwarp_up''" "good_line ''multiwarp_uptime_seconds''" "good_line ''multiwarp_backends_total''"
  "good_line ''multiwarp_backends_healthy''" "good_line ''multiwarp_backends_in_pool''"
  "good_line ''multiwarp_backends_warming''" "good_line ''multiwarp_backends_parked''"
  "good_line ''multiwarp_unique_ipv4''" "good_line ''multiwarp_active_connections''"
  "good_line ''multiwarp_selects_total''" "good_line ''multiwarp_select_fail_total''"
  "good_line ''multiwarp_probe_success_total''" "good_line ''multiwarp_probe_failure_total''"
  "good_line ''multiwarp_backend_inflight''" "good_line ''multiwarp_backend_fails''"
  "good_line ''multiwarp_backend_latency_ms''" "good_line ''multiwarp_backend_success_total''"
  "good_line ''multiwarp_backend_fail_total''"
  by (simp_all add: good_line_def)

lemma one_line_texts:
  "one_line ''gauge''" "one_line ''counter''"
  "one_line ''1 if the proxy is running''"
  "one_line ''Uptime in seconds''"
  "one_line ''Total configured backends''"
  "one_line ''Healthy selectable backends''"
  "one_line ''Backends admitted to selector''"
  "one_line ''Backends still warming''"
  "one_line ''Backends parked (uniqueness strict)''"
  "one_line ''Unique egress IPv4 count''"
  "one_line ''Current active data-plane connections''"
  "one_line ''Backend select attempts''"
  "one_line ''Backend select failures''"
  "one_line ''Health probe successes''"
  "one_line ''Health probe failures''"
  "one_line ''Current in-flight requests per backend''"
  "one_line ''Consecutive fail count per backend''"
  "one_line ''Last probe latency per backend''"
  "one_line ''Total successful upstream dials per backend''"
  "one_line ''Total failed upstream dials per backend''"
  by code_simp+

section \<open>Properties\<close>

text \<open>No request to the admin API panics or disturbs the accounts of the pool: the slots taken stay those of the
  leases out. A request that is not a \<open>POST\<close> at most polls the backends.\<close>

theorem admin_keeps_accounts:
  assumes "held_inv (p, L)"
  shows "\<exists>a p'. admin_serve s now r l p = Inr (a, p') \<and> held_inv (p', L) \<and>
    (ar_Method r \<noteq> ''POST'' \<longrightarrow> p' = p \<or> p' = polled now p)"
proof (cases "mux_route admin_routes r")
  case (Inr u)
  with assms show ?thesis by (simp add: admin_serve_def)
next
  case (Inl e)
  show ?thesis
  proof (cases "e = Some E_reconnect")
    case True
    from reconnect_no_panic [OF reconnect_route, of r now p] Inl True obtain rp where
      "reconnect now r p = Inr (rp, p) \<or>
       ar_Method r = ''POST'' \<and> (\<exists>i. reconnect now r p = Inr (rp, pool_ForceState now i StateUnknown p))"
      by auto
    then show ?thesis
      using Inl True assms held_inv_ForceState by (auto simp: admin_serve_def run_endpoint_def)
  next
    case False
    then show ?thesis
      using Inl assms held_inv_polled [OF assms, of now] run_endpoint_pool [of _ s now r l p]
      by (cases e) (force simp: admin_serve_def)+
  qed
qed

lemma admin_keeps_accounts_witness:
  "\<exists>a p'. admin_serve (admin_New 0 sample_config) 7 \<lparr>ar_Method = ''GET'', ar_Path = ''/metrics''\<rparr>
      (NewConnLimiter 10 5 0) (sample_pool StrategySticky) = Inr (a, p') \<and> held_inv (p', {#}) \<and>
    (p' = sample_pool StrategySticky \<or> p' = polled 7 (sample_pool StrategySticky))"
  using admin_keeps_accounts [OF held_inv_sample, of "admin_New 0 sample_config" 7
      "\<lparr>ar_Method = ''GET'', ar_Path = ''/metrics''\<rparr>" "NewConnLimiter 10 5 0" StrategySticky]
  by simp



text \<open>\<open>POST /v1/reconnect/<id>\<close> makes a member of the pool selectable at once, whatever its state, and leaves
  the other backends alone. It keeps the failure count: when the backend had reached its limit, the next failure opens
  its circuit again.\<close>

theorem reconnect_one_failure_away:
  assumes "pool_inv p" and "Get i p = Some k" and "in_int64 i"
    and "admit (backends p ! k) = AdmitInPool" and "MaxFails (backends p ! k) \<le> fails (backends p ! k) + 1"
  shows "\<exists>rp p'. admin_serve s now \<lparr>ar_Method = ''POST'', ar_Path = reconnect_prefix @ int_dec i\<rparr> l p =
      Inr (Served rp, p') \<and> rp_Code rp = 200 \<and>
    (\<forall>j. j \<noteq> k \<longrightarrow> backends p' ! j = backends p ! j) \<and>
    selectable now (backends p' ! k) \<and> fails (backends p' ! k) = fails (backends p ! k) \<and>
    state (backends (Lease_MarkFailure later k why p') ! k) = StateCircuitOpen"
proof -
  let ?b = "backends p ! k" and ?p' = "pool_ForceState now i StateUnknown p"
  have k: "k < length (backends p)" "ID ?b = i" using pool_inv_Get [OF assms(1,2)] by simp_all
  then have "list_ex (\<lambda>b. ID b = i) (backends p)" by (auto simp: list_ex_iff)
  then obtain rp where rp: "admin_serve s now \<lparr>ar_Method = ''POST'', ar_Path = reconnect_prefix @ int_dec i\<rparr> l p =
      Inr (Served rp, ?p')" "rp_Code rp = 200"
    using assms(3) by (simp add: admin_serve_def reconnect_number_route run_endpoint_def reconnect_def Atoi_int_dec)
  have p': "?p' = put k (?b\<lparr>state := StateUnknown, lastChange := now\<rparr>) p"
    using assms(2) by (simp add: pool_ForceState_def at_id_def ForceState_def)
  have "selectable now (?b\<lparr>state := StateUnknown, lastChange := now\<rparr>)"
    using assms(4) by (simp add: selectable_iff)
  with rp k assms(5) show ?thesis
    by (intro exI [of _ rp] exI [of _ ?p'])
      (simp add: p' Lease_MarkFailure_def MarkFailure_def markFailureLocked_def Let_def)
qed

lemma reconnect_one_failure_away_witness:
  "\<exists>rp p'. admin_serve (admin_New 0 sample_config) 7
      \<lparr>ar_Method = ''POST'', ar_Path = reconnect_prefix @ int_dec 1\<rparr> (NewConnLimiter 10 5 0)
      (Lease_MarkFailure 6 1 ''b'' (Lease_MarkFailure 5 1 ''a'' (sample_pool StrategyRoundRobin))) = Inr (Served rp, p') \<and>
    rp_Code rp = 200 \<and> selectable 7 (backends p' ! 1) \<and> fails (backends p' ! 1) = 2 \<and>
    state (backends (Lease_MarkFailure 8 1 ''c'' p') ! 1) = StateCircuitOpen"
proof -
  let ?p = "Lease_MarkFailure 6 1 ''b'' (Lease_MarkFailure 5 1 ''a'' (sample_pool StrategyRoundRobin))"
  have "pool_inv ?p"
    using pool_inv_sample [of StrategyRoundRobin]
    by (auto simp: Lease_MarkFailure_def pool_inv_nth intro!: inv_intros)
  moreover have "Get 1 ?p = Some 1" "admit (backends ?p ! 1) = AdmitInPool" "fails (backends ?p ! 1) = 2"
    "MaxFails (backends ?p ! 1) = 3"
    by code_simp+
  ultimately show ?thesis
    using reconnect_one_failure_away [of ?p 1 1 "admin_New 0 sample_config" 7 "NewConnLimiter 10 5 0" 8 "''c''"]
    by (auto simp: in_int64_def)
qed

text \<open>C33: A scraper that reads the page of \<open>/metrics/prom\<close> gets back the true figures of the polled pool, in order:
  the totals, then for every family a sample of each backend (with a probe, for the latency), provided no backend
  address contains a line break.\<close>

theorem prometheus_scraped:
  assumes "\<forall>b \<in> set (backends p). CHR 0x0A \<notin> set (Addr b)"
  shows "\<exists>rp page p'. prometheus s now l p = (rp, p') \<and> rp_Body rp = Text page \<and> p' = polled now p \<and>
    scrape page = map (apsnd Some) (true_samples s now l p')"
proof -
  let ?page = "fst (prometheus_text s now l p)"
  have pool: "snd (prometheus_text s now l p) = polled now p"
    by (simp add: prometheus_text_def HealthyCount_eq Let_def split: prod.splits)
  have addr: "\<forall>b \<in> set (backends (polled now p)). CHR 0x0A \<notin> set (Addr b)" using assms by simp
  have hc: "length (healthy_ix now p) = length (filter (selectable now) (backends (polled now p)))"
    using healthy_count [of now "polled now p"] by simp
  have some: "of_backends name (\<lambda>b. the (map_option LatencyMS (lastProbe b))) now (filter (\<lambda>b. lastProbe b \<noteq> None) bs) =
      of_backends name (\<lambda>b. LatencyMS (the (lastProbe b))) now (filter (\<lambda>b. lastProbe b \<noteq> None) bs)" for name bs
    by (auto simp: of_backends_def)
  note backend_samples = scrape_per_backend [OF _ _ _ addr]
    scrape_per_backend [OF _ _ _ addr, where rest = "[]", simplified append_Nil2 scrape_Nil]
  have "scrape ?page = map (apsnd Some) (true_samples s now l (polled now p))"
    unfolding prometheus_text_def HealthyCount_eq AdmitStats_eq Let_def prod.case Snapshots_def fst_conv true_samples_def
    by (simp only: scrape_gauge1 backend_samples good_names one_line_texts)
      (simp add: hc admitted_as_def some snap_fields del: polled_frame not_None_eq)
  then show ?thesis
    using pool by (cases "prometheus_text s now l p") (simp add: prometheus_def)
qed

lemma prometheus_scraped_witness:
  "\<exists>rp page. prometheus (admin_New 0 sample_config) (3 * Second) (NewConnLimiter 10 5 0)
      (sample_pool StrategySticky) = (rp, polled (3 * Second) (sample_pool StrategySticky)) \<and>
    rp_Body rp = Text page \<and> length (scrape page) = 25 \<and> scrape page ! 2 = (''multiwarp_backends_total'', Some 3)"
proof -
  have "\<forall>b \<in> set (backends (sample_pool StrategySticky)). CHR 0x0A \<notin> set (Addr b)"
    by (simp add: sample_pool_def NewBackend_def)
  from prometheus_scraped [OF this, of "admin_New 0 sample_config" "3 * Second" "NewConnLimiter 10 5 0"]
  obtain rp page where
    p: "prometheus (admin_New 0 sample_config) (3 * Second) (NewConnLimiter 10 5 0) (sample_pool StrategySticky) =
        (rp, polled (3 * Second) (sample_pool StrategySticky))" "rp_Body rp = Text page"
      "scrape page = map (apsnd Some) (true_samples (admin_New 0 sample_config) (3 * Second) (NewConnLimiter 10 5 0)
        (polled (3 * Second) (sample_pool StrategySticky)))"
    by auto
  have "map lastProbe (backends (polled (3 * Second) (sample_pool StrategySticky))) = [None, None, None]"
    by (simp add: sample_pool_def NewBackend_def)
  then have "filter (\<lambda>b. lastProbe b \<noteq> None) (backends (polled (3 * Second) (sample_pool StrategySticky))) = []"
    by (auto simp: filter_empty_conv map_eq_Cons_conv)
  then show ?thesis using p by (simp add: true_samples_def of_backends_def)
qed

end
