(* ===== verification/Socks5.thy ===== *)
theory Socks5
  imports Tunnel
begin

text \<open>
  Model of \<open>internal/proxy/socks5.go\<close>: what the SOCKS5 server reads from a client and answers,
  the handling of one connection with its limiter and backend leases, and the draining of the
  server at shutdown. The accept loop is in \<open>Process\<close>.
\<close>

section \<open>The client's side\<close>

fun containsMethod :: "u8 list \<Rightarrow> u8 \<Rightarrow> bool" where
  "containsMethod [] m = False"
| "containsMethod (v # vs) m = (if v = m then True else containsMethod vs m)"

text \<open>How a client is turned away: by closing, or with a reply code first.\<close>

datatype refusal = Hang_Up | Reject u8

text \<open>Greeting, method selection and, when credentials are configured, RFC 1929.\<close>

definition read_greeting :: "(refusal, u8 list) cio" where
  "read_greeting =
     io_bind (br_ReadFull Hang_Up 2) (\<lambda>hdr.
     if hdr ! 0 \<noteq> 5 then io_fail Hang_Up
     else br_ReadFull Hang_Up (unat (hdr ! 1)))"

text \<open>A length byte and that many bytes.\<close>

definition read_counted :: "(refusal, u8 list) cio" where
  "read_counted = io_bind (br_ReadFull Hang_Up 1) (\<lambda>l. br_ReadFull Hang_Up (unat (l ! 0)))"

definition negotiate :: "ProxyAuth \<Rightarrow> u8 list \<Rightarrow> (refusal, unit) cio" where
  "negotiate auth methods =
     (if pa_enabled auth then
        (if \<not> containsMethod methods 2 then io_fail (Reject 0xFF)
         else
           io_bind (Write_conn Hang_Up [5, 2]) (\<lambda>_.
           io_bind (br_ReadFull Hang_Up 1) (\<lambda>ver.
           io_bind read_counted (\<lambda>user.
           io_bind read_counted (\<lambda>pass.
           if Check auth (text_of user) (text_of pass) \<noteq> None then io_fail (Reject 1)
           else Write_conn Hang_Up [1, 0])))))
      else
        (if \<not> containsMethod methods 0 then io_fail (Reject 0xFF)
         else Write_conn Hang_Up [5, 0]))"

text \<open>An address that cannot be read is answered with code 4, whatever went wrong.\<close>

definition refuse_with :: "refusal \<Rightarrow> ('e, 'a) cio \<Rightarrow> (refusal, 'a) cio" where
  "refuse_with r m c =
     (case m c of
        (Done x, c1) \<Rightarrow> (Done x, c1)
      | (Failed e, c1) \<Rightarrow> (Failed r, c1)
      | (Blocked, c1) \<Rightarrow> (Blocked, c1))"

definition read_request :: "(refusal, string \<times> int) cio" where
  "read_request =
     io_bind (br_ReadFull Hang_Up 4) (\<lambda>req.
     if req ! 0 \<noteq> 5 then io_fail Hang_Up
     else if req ! 1 \<noteq> 1 then io_fail (Reject 7)
     else refuse_with (Reject 4) (readSocksAddr (req ! 3)))"

definition socks_dialogue :: "ProxyAuth \<Rightarrow> (refusal, string \<times> int) cio" where
  "socks_dialogue auth =
     io_bind read_greeting (\<lambda>methods. io_bind (negotiate auth methods) (\<lambda>_. read_request))"

text \<open>\<open>replyReject\<close> drops a write error.\<close>

definition replyReject :: "conn \<Rightarrow> u8 \<Rightarrow> conn" where
  "replyReject c rep = snd (Write_conn () [5, rep, 0, 1, 0, 0, 0, 0, 0, 0] c)"

section \<open>One connection\<close>

text \<open>
  Where a handler is: it has returned and closed the client's connection, it waits for the
  client or for a backend's handshake for ever, or it copies between the client and the upstream
  connection. A handler that waits or copies holds its leases.
\<close>

datatype handler =
    Returned conn
  | Reading_Client conn ConnLease
  | Dialling conn nat ConnLease
  | Copying conn conn nat ConnLease
  | Crashed panic

text \<open>The limiter, the pool and the network, which all handlers share.\<close>

type_synonym 'n shared = "ConnLimiter \<times> pool \<times> 'n"

definition refuse :: "refusal \<Rightarrow> conn \<Rightarrow> conn" where
  "refuse r c = (case r of Hang_Up \<Rightarrow> c | Reject rep \<Rightarrow> replyReject c rep)"

definition socks_handle ::
  "(sock_error \<Rightarrow> string) \<Rightarrow> 'n net \<Rightarrow> config \<Rightarrow> ProxyAuth \<Rightarrow> string option \<Rightarrow> conn \<Rightarrow> 'n shared \<Rightarrow>
   handler \<times> 'n shared"
where
  "socks_handle say N cfg auth peer c = (\<lambda>(cl, p, n).
     case Acquire (n_now N n) peer cl of
       (Inl e, cl1) \<Rightarrow> (Returned (Close (replyReject c 1)), (cl1, p, n))
     | (Inr lease, cl1) \<Rightarrow>
         (case socks_dialogue auth c of
            (Blocked, c1) \<Rightarrow> (Reading_Client c1 lease, (cl1, p, n_used N c1 n))
          | (Failed r, c1) \<Rightarrow>
              (Returned (Close (refuse r c1)), (ConnLease_Release lease cl1, p, n_used N c1 n))
          | (Done (host, port), c1) \<Rightarrow>
              (case DialViaSocks say N cfg host port (StickyKey peer) (p, n_used N c1 n) of
                 (Panicked e, (p1, n1)) \<Rightarrow> (Crashed e, (cl1, p1, n1))
               | (Stuck k, (p1, n1)) \<Rightarrow> (Dialling c1 k lease, (cl1, p1, n1))
               | (Dial_Failed e, (p1, n1)) \<Rightarrow>
                   (Returned (Close (replyReject c1 1)), (ConnLease_Release lease cl1, p1, n1))
               | (Dialed up k, (p1, n1)) \<Rightarrow>
                   (Copying (snd (Write_conn () [5, 0, 0, 1, 0, 0, 0, 0, 0, 0] c1)) up k lease,
                    (cl1, p1, n1)))))"

text \<open>The deferred calls of a handler whose copy is over.\<close>

definition socks_finish :: "handler \<Rightarrow> 'n shared \<Rightarrow> handler \<times> 'n shared" where
  "socks_finish h = (\<lambda>(cl, p, n).
     case h of
       Copying c up k lease \<Rightarrow>
         (Returned (Close c), (ConnLease_Release lease cl, Lease_Release k p, n))
     | _ \<Rightarrow> (h, (cl, p, n)))"

text \<open>
  What the copy reads from the client: it uses the socket, not the buffered reader.
\<close>

definition forwarded :: "conn \<Rightarrow> u8 list" where
  "forwarded c = concat (inp c)"

section \<open>Draining\<close>

datatype drained = Drained instant | Drain_Timeout instant

definition drain_timeout :: "config \<Rightarrow> duration" where
  "drain_timeout c =
     (let d = ct_DrainTimeout (Control c) in if d \<le> 0 then 30 * Second else d)"

text \<open>
  The loop from its \<open>i\<close>-th look at the counter on, \<open>active\<close> being the counter over time: it
  looks every 100 ms until the deadline. When a tick and the deadline are both ready \<open>select\<close> takes
  either, here the deadline if \<open>tie\<close>.
\<close>

function drain_loop :: "(instant \<Rightarrow> int) \<Rightarrow> bool \<Rightarrow> instant \<Rightarrow> duration \<Rightarrow> nat \<Rightarrow> drained" where
  "drain_loop active tie t0 D i =
     (if active (t0 + int i * (100 * Millisecond)) \<le> 0 then Drained (t0 + int i * (100 * Millisecond))
      else if D < int (Suc i) * (100 * Millisecond) \<or> D = int (Suc i) * (100 * Millisecond) \<and> tie
      then Drain_Timeout (t0 + max D (int i * (100 * Millisecond)))
      else drain_loop active tie t0 D (Suc i))"
  by auto
termination
  by (relation "measure (\<lambda>(active, tie, t0, D, i). nat (D - int i * (100 * Millisecond)))") auto

declare drain_loop.simps [simp del]

definition drain :: "config \<Rightarrow> (instant \<Rightarrow> int) \<Rightarrow> bool \<Rightarrow> instant \<Rightarrow> drained" where
  "drain c active tie t0 = drain_loop active tie t0 (drain_timeout c) 0"

section \<open>Lemmas\<close>

subsection \<open>A client that follows the protocol\<close>

lemma containsMethod_iff [simp]: "containsMethod mths m \<longleftrightarrow> m \<in> set mths"
  by (induction mths) auto

text \<open>A stage that has read a front of the client's stream and written nothing.\<close>

definition has_read :: "conn \<Rightarrow> conn \<Rightarrow> u8 list \<Rightarrow> bool" where
  "has_read c c1 r \<longleftrightarrow> pending c1 = r \<and> wrote c1 = wrote c \<and> writes_ok c1 = writes_ok c"

lemma br_ReadFull_reads:
  assumes "pending c = t @ r" and "length t = n"
  shows "\<exists>c1. br_ReadFull e n c = (Done t, c1) \<and> has_read c c1 r"
proof -
  obtain b cs where "br_ReadFull e n c = (Done t, c\<lparr>buf := b, inp := cs\<rparr>)" "b @ concat cs = r"
    using br_ReadFull_front [of c t r e] assms by (auto simp: pending_def)
  then show ?thesis by (intro exI [of _ "c\<lparr>buf := b, inp := cs\<rparr>"]) (simp add: has_read_def pending_def)
qed

lemma length_byte: "n \<le> 255 \<Longrightarrow> unat (of_nat n :: u8) = n"
  by (simp add: unat_of_nat take_bit_eq_mod)

lemma read_greeting_reads:
  assumes "pending c = [5, of_nat (length mths)] @ mths @ r" and "length mths \<le> 255"
  shows "\<exists>c1. read_greeting c = (Done mths, c1) \<and> has_read c c1 r"
proof -
  obtain c1 where c1: "br_ReadFull Hang_Up 2 c = (Done [5, of_nat (length mths)], c1)" "has_read c c1 (mths @ r)"
    using br_ReadFull_reads [OF assms(1), of 2 Hang_Up] by auto
  then have "pending c1 = mths @ r" by (simp add: has_read_def)
  from br_ReadFull_reads [OF this refl, of Hang_Up] obtain c2 where
    "br_ReadFull Hang_Up (length mths) c1 = (Done mths, c2)" "has_read c1 c2 r" by blast
  with c1 assms(2) show ?thesis
    by (intro exI [of _ c2]) (simp add: read_greeting_def io_bind_def length_byte has_read_def)
qed

lemma read_counted_reads:
  assumes "pending c = of_nat (length x) # x @ r" and "length x \<le> 255"
  shows "\<exists>c1. read_counted c = (Done x, c1) \<and> has_read c c1 r"
proof -
  have "pending c = [of_nat (length x)] @ x @ r" using assms(1) by simp
  from br_ReadFull_reads [OF this, of 1 Hang_Up] obtain c1 where
    c1: "br_ReadFull Hang_Up 1 c = (Done [of_nat (length x)], c1)" "has_read c c1 (x @ r)" by auto
  then have "pending c1 = x @ r" by (simp add: has_read_def)
  from br_ReadFull_reads [OF this refl, of Hang_Up] obtain c2 where
    "br_ReadFull Hang_Up (length x) c1 = (Done x, c2)" "has_read c1 c2 r" by blast
  with c1 assms(2) show ?thesis
    by (intro exI [of _ c2]) (simp add: read_counted_def io_bind_def length_byte has_read_def)
qed

text \<open>The credentials as RFC 1929 sends them.\<close>

definition login :: "ProxyAuth \<Rightarrow> u8 list" where
  "login auth =
     (if pa_enabled auth then
        [1, of_nat (length (pa_username auth))] @ bytes (pa_username auth) @
        [of_nat (length (pa_password auth))] @ bytes (pa_password auth)
      else [])"

definition method_of :: "ProxyAuth \<Rightarrow> u8" where
  "method_of auth = (if pa_enabled auth then 2 else 0)"

definition answer :: "ProxyAuth \<Rightarrow> u8 list" where
  "answer auth = (if pa_enabled auth then [5, 2, 1, 0] else [5, 0])"

lemma negotiate_reads:
  assumes "pending c = login auth @ r" and "method_of auth \<in> set mths" and "2 \<le> writes_ok c"
    and "length (pa_username auth) \<le> 255" and "length (pa_password auth) \<le> 255"
  shows "\<exists>c1. negotiate auth mths c = (Done (), c1) \<and> pending c1 = r \<and> wrote c1 = wrote c @ answer auth"
proof (cases "pa_enabled auth")
  case False
  with assms show ?thesis
    by (simp add: negotiate_def login_def method_of_def answer_def Write_conn_def)
next
  case True
  let ?u = "bytes (pa_username auth)" and ?p = "bytes (pa_password auth)"
  let ?w = "c\<lparr>writes_ok := writes_ok c - 1, wrote := wrote c @ [5, 2]\<rparr>"
  have w: "Write_conn Hang_Up [5, 2] c = (Done (), ?w)" using assms(3) by (simp add: Write_conn_def)
  have "pending ?w = [1] @ of_nat (length ?u) # ?u @ of_nat (length ?p) # ?p @ r"
    using assms(1) True by (simp add: login_def)
  from br_ReadFull_reads [OF this, of 1 Hang_Up] obtain c1 where c1: "br_ReadFull Hang_Up 1 ?w = (Done [1], c1)"
    "has_read ?w c1 (of_nat (length ?u) # ?u @ of_nat (length ?p) # ?p @ r)" by auto
  then have "pending c1 = of_nat (length ?u) # ?u @ of_nat (length ?p) # ?p @ r" by (simp add: has_read_def)
  from read_counted_reads [OF this] obtain c2 where c2: "read_counted c1 = (Done ?u, c2)"
    "has_read c1 c2 (of_nat (length ?p) # ?p @ r)" using assms(4) by auto
  then have "pending c2 = of_nat (length ?p) # ?p @ r" by (simp add: has_read_def)
  from read_counted_reads [OF this] obtain c3 where c3: "read_counted c2 = (Done ?p, c3)"
    "has_read c2 c3 r" using assms(5) by auto
  have ok: "Check auth (text_of ?u) (text_of ?p) = None" by (simp add: Check_def)
  have c3w: "writes_ok c3 \<noteq> 0" "wrote c3 = wrote c @ [5, 2]" "pending c3 = r"
    using c1(2) c2(2) c3(2) assms(3) by (simp_all add: has_read_def)
  let ?z = "c3\<lparr>writes_ok := writes_ok c3 - 1, wrote := wrote c3 @ [1, 0]\<rparr>"
  have "negotiate auth mths c = (Done (), ?z)"
    using True assms(2) w c1(1) c2(1) c3(1) ok c3w(1)
    by (simp add: negotiate_def method_of_def io_bind_def Write_conn_def)
  with c3w True show ?thesis by (simp add: answer_def)
qed

lemma read_request_reads:
  assumes "request host port = Some req" and "pending c = req @ r"
  shows "\<exists>c1. read_request c = (Done (canonical host, port mod 65536), c1) \<and> has_read c c1 r"
proof -
  obtain atyp where req: "req = [5, 1, 0, atyp] @ drop 4 req"
    using assms(1) by (auto simp: request_def Let_def split: option.splits if_splits)
  then have "pending c = [5, 1, 0, atyp] @ drop 4 req @ r" using assms(2) by (metis append.assoc)
  from br_ReadFull_reads [OF this, of 4 Hang_Up] obtain c1 where c1: "br_ReadFull Hang_Up 4 c = (Done [5, 1, 0, atyp], c1)"
    "has_read c c1 (drop 4 req @ r)" by auto
  then have "buf c1 @ concat (inp c1) = drop 4 req @ r" by (simp add: has_read_def pending_def)
  from socks_address_front [OF assms(1) this] obtain b cs where
    a: "readSocksAddr (req ! 3) c1 = (Done (canonical host, port mod 65536), c1\<lparr>buf := b, inp := cs\<rparr>)" "b @ concat cs = r"
    by blast
  have "req ! 3 = atyp" by (subst req) simp
  with a c1 show ?thesis
    by (intro exI [of _ "c1\<lparr>buf := b, inp := cs\<rparr>"])
      (simp add: read_request_def io_bind_def refuse_with_def has_read_def pending_def)
qed

text \<open>The bytes of a client: greeting, credentials, request.\<close>

definition client_hello :: "ProxyAuth \<Rightarrow> u8 list \<Rightarrow> u8 list \<Rightarrow> u8 list" where
  "client_hello auth mths req = [5, of_nat (length mths)] @ mths @ login auth @ req"

lemma dialogue_reads:
  assumes "pending c = client_hello auth mths req @ r" and "request host port = Some req"
    and "method_of auth \<in> set mths" and "length mths \<le> 255" and "2 \<le> writes_ok c"
    and "length (pa_username auth) \<le> 255" and "length (pa_password auth) \<le> 255"
  shows "\<exists>c1. socks_dialogue auth c = (Done (canonical host, port mod 65536), c1) \<and>
     pending c1 = r \<and> wrote c1 = wrote c @ answer auth"
proof -
  have "pending c = [5, of_nat (length mths)] @ mths @ login auth @ req @ r"
    using assms(1) by (simp add: client_hello_def)
  from read_greeting_reads [OF this assms(4)] obtain c1 where
    c1: "read_greeting c = (Done mths, c1)" "has_read c c1 (login auth @ req @ r)" by blast
  then have p1: "pending c1 = login auth @ req @ r" "2 \<le> writes_ok c1" using assms(5) by (simp_all add: has_read_def)
  from negotiate_reads [OF p1(1) assms(3) p1(2) assms(6,7)] obtain c2 where
    c2: "negotiate auth mths c1 = (Done (), c2)" "pending c2 = req @ r" "wrote c2 = wrote c1 @ answer auth" by blast
  from read_request_reads [OF assms(2) c2(2)] obtain c3 where
    c3: "read_request c2 = (Done (canonical host, port mod 65536), c3)" "has_read c2 c3 r" by blast
  with c1 c2 show ?thesis
    by (intro exI [of _ c3]) (simp add: socks_dialogue_def io_bind_def has_read_def)
qed

subsection \<open>What an accepted client has sent\<close>

lemma byte_of_length: "length x = unat (b :: u8) \<Longrightarrow> of_nat (length x) = b"
  by simp

lemma read_greeting_Done:
  assumes "read_greeting c = (Done mths, c1)"
  shows "pending c = [5, of_nat (length mths)] @ mths @ pending c1"
proof -
  obtain hdr c0 where h: "br_ReadFull Hang_Up 2 c = (Done hdr, c0)" "hdr ! 0 = 5"
    "br_ReadFull Hang_Up (unat (hdr ! 1)) c0 = (Done mths, c1)"
    using assms unfolding read_greeting_def by (auto elim!: io_bind_Done split: if_splits)
  from br_ReadFull_Done [OF h(1)] br_ReadFull_Done [OF h(3)] h(2)
  have "pending c = hdr @ mths @ pending c1" "hdr = [5, hdr ! 1]" "of_nat (length mths) = hdr ! 1"
    by (auto intro!: nth_equalityI simp: less_Suc_eq numeral_2_eq_2)
  then show ?thesis by metis
qed

lemma read_counted_Done:
  assumes "read_counted c = (Done x, c1)"
  shows "pending c = of_nat (length x) # x @ pending c1"
proof -
  obtain l c0 where l: "br_ReadFull Hang_Up 1 c = (Done l, c0)" "br_ReadFull Hang_Up (unat (l ! 0)) c0 = (Done x, c1)"
    using assms unfolding read_counted_def by (auto elim!: io_bind_Done)
  from br_ReadFull_Done [OF l(1)] br_ReadFull_Done [OF l(2)]
  have "pending c = l @ x @ pending c1" "l = [l ! 0]" "of_nat (length x) = l ! 0"
    by (auto intro!: nth_equalityI)
  then show ?thesis by (metis append_Cons append_Nil)
qed

lemma negotiate_Done:
  assumes "negotiate auth mths c = (Done u, c1)" and "pa_enabled auth"
  shows "2 \<in> set mths \<and> (\<exists>ver. pending c =
    ver # of_nat (length (pa_username auth)) # bytes (pa_username auth) @
    of_nat (length (pa_password auth)) # bytes (pa_password auth) @ pending c1)"
proof -
  have two: "2 \<in> set mths" using assms by (auto simp: negotiate_def split: if_splits)
  with assms obtain c0 ver c2 user c3 pass c4 u' where
    s: "Write_conn Hang_Up [5, 2] c = (Done u', c0)" "br_ReadFull Hang_Up 1 c0 = (Done ver, c2)"
      "read_counted c2 = (Done user, c3)" "read_counted c3 = (Done pass, c4)"
      "Check auth (text_of user) (text_of pass) = None" "Write_conn Hang_Up [1, 0] c4 = (Done u, c1)"
    unfolding negotiate_def by (auto elim!: io_bind_Done split: if_splits)
  from s(5) assms(2) have "text_of user = pa_username auth" "text_of pass = pa_password auth"
    by (simp_all add: Check_def split: if_splits)
  then have up: "user = bytes (pa_username auth)" "pass = bytes (pa_password auth)" by (metis bytes_text_of)+
  from br_ReadFull_Done [OF s(2)] have "pending c0 = ver @ pending c2" "ver = [ver ! 0]"
    by (auto intro!: nth_equalityI)
  then have "pending c = ver ! 0 # pending c2" using Write_conn_Done [OF s(1)] by (metis append_Cons append_Nil)
  with two read_counted_Done [OF s(3)] read_counted_Done [OF s(4)] Write_conn_Done [OF s(6)] up show ?thesis by auto
qed

subsection \<open>Bytes beyond the buffer\<close>

text \<open>Once the socket has been read to its end, everything else is in the buffer.\<close>

lemma br_ReadFull_exhausted: "br_ReadFull e n c = (r, c1) \<Longrightarrow> inp c = [] \<Longrightarrow> inp c1 = []"
  by (auto simp: br_ReadFull_def split: option.splits if_splits)

lemma br_ReadFull_single:
  "br_ReadFull e n c = (Done t, c1) \<Longrightarrow> buf c = [] \<Longrightarrow> inp c = [x] \<Longrightarrow> 0 < n \<Longrightarrow> inp c1 = []"
  by (auto simp: br_ReadFull_def split: option.splits if_splits)

lemma Write_conn_exhausted: "Write_conn e bs c = (r, c1) \<Longrightarrow> inp c1 = inp c"
  by (auto simp: Write_conn_def split: if_splits)

lemma snd_exhausted:
  "inp c = [] \<Longrightarrow> inp (snd (br_ReadFull e n c)) = []" "inp c = [] \<Longrightarrow> inp (snd (Write_conn e bs c)) = []"
  "inp c = [] \<Longrightarrow> inp (snd (io_fail e' c)) = []" "inp c = [] \<Longrightarrow> inp (snd (io_return z c)) = []"
  by (metis br_ReadFull_exhausted prod.collapse, metis Write_conn_exhausted prod.collapse) simp_all

lemma snd_bind_exhausted:
  "inp c = [] \<Longrightarrow> (\<And>c. inp c = [] \<Longrightarrow> inp (snd (m c)) = []) \<Longrightarrow>
   (\<And>x c. inp c = [] \<Longrightarrow> inp (snd (f x c)) = []) \<Longrightarrow> inp (snd (io_bind m f c)) = []"
  by (simp add: io_bind_def split: prod.split io_res.split) (metis snd_conv)

lemma rest_exhausted:
  assumes "inp c = []"
  shows "inp (snd (negotiate auth mths c)) = []" and "inp (snd (read_request c)) = []"
proof -
  have counted: "inp c = [] \<Longrightarrow> inp (snd (read_counted c)) = []" for c
    unfolding read_counted_def by (intro snd_bind_exhausted snd_exhausted)
  show "inp (snd (negotiate auth mths c)) = []"
    unfolding negotiate_def using assms
    by (auto intro!: snd_bind_exhausted snd_exhausted counted)
  have addr: "inp c = [] \<Longrightarrow> inp (snd (readSocksAddr atyp c)) = []" for atyp c
    unfolding readSocksAddr_def read_port_def by (auto intro!: snd_bind_exhausted snd_exhausted)
  have "inp c = [] \<Longrightarrow> inp (snd (refuse_with (Reject 4) (readSocksAddr atyp) c)) = []" for atyp c
    using addr [of c atyp]
    by (cases "readSocksAddr atyp c") (auto simp: refuse_with_def split: io_res.split)
  then show "inp (snd (read_request c)) = []"
    unfolding read_request_def using assms by (auto intro!: snd_bind_exhausted snd_exhausted)
qed

lemma dialogue_exhausts:
  assumes "socks_dialogue auth c = (Done t, c1)" and "buf c = []" and "inp c = [x]"
  shows "inp c1 = []"
proof -
  obtain mths c2 u c3 where s: "read_greeting c = (Done mths, c2)" "negotiate auth mths c2 = (Done u, c3)"
    "read_request c3 = (Done t, c1)"
    using assms(1) unfolding socks_dialogue_def by (auto elim!: io_bind_Done)
  obtain hdr c0 where h: "br_ReadFull Hang_Up 2 c = (Done hdr, c0)"
    "br_ReadFull Hang_Up (unat (hdr ! 1)) c0 = (Done mths, c2)"
    using s(1) unfolding read_greeting_def by (auto elim!: io_bind_Done split: if_splits)
  have "inp c0 = []" using br_ReadFull_single [OF h(1) assms(2,3)] by simp
  then have "inp c2 = []" using h(2) by (rule br_ReadFull_exhausted [rotated])
  from rest_exhausted(1) [OF this, of auth mths] s(2) have "inp c3 = []" by simp
  from rest_exhausted(2) [OF this] s(3) show ?thesis by simp
qed

subsection \<open>Accounts of a handler\<close>

text \<open>The leases a handler holds at the point where it is.\<close>

fun handler_holds :: "handler \<Rightarrow> ConnLease multiset \<times> nat multiset" where
  "handler_holds (Returned c) = ({#}, {#})"
| "handler_holds (Reading_Client c lease) = ({#lease#}, {#})"
| "handler_holds (Dialling c k lease) = ({#lease#}, {#k#})"
| "handler_holds (Copying c up k lease) = ({#lease#}, {#k#})"
| "handler_holds (Crashed e) = ({#}, {#})"

text \<open>The accounts of the limiter and of the pool, given what all handlers hold.\<close>

definition accounts :: "'n shared \<Rightarrow> ConnLease multiset \<times> nat multiset \<Rightarrow> bool" where
  "accounts = (\<lambda>(cl, p, n) (L, M). lim_inv (cl, L) \<and> held_inv (p, M))"

definition both :: "ConnLease multiset \<times> nat multiset \<Rightarrow> ConnLease multiset \<times> nat multiset \<Rightarrow>
  ConnLease multiset \<times> nat multiset" where
  "both x y = (fst x + fst y, snd x + snd y)"

text \<open>What is true of every handler that serves one request after its limiter lease.\<close>

lemma dial_accounts:
  assumes "held_inv (p, M)" and "room 3 key p"
    and "DialViaSocks say N cfg host port key (p, n) = (r, p', n')"
  shows "case r of
      Dialed cn k \<Rightarrow> held_inv (p', add_mset k M)
    | Stuck k \<Rightarrow> held_inv (p', add_mset k M)
    | Dial_Failed e \<Rightarrow> held_inv (p', M)
    | Panicked e \<Rightarrow> False"
  using pool_leases.attempts_account [OF assms(1,2) assms(3) [unfolded DialViaSocks_def]]
  by (simp split: dial_result.splits)

lemma release_accounts:
  "lim_inv (cl, add_mset lease L) \<Longrightarrow> lim_inv (ConnLease_Release lease cl, L)"
  "held_inv (p, add_mset k M) \<Longrightarrow> held_inv (Lease_Release k p, M)"
  using lim_inv_release [of cl "add_mset lease L" lease] held_inv_release [of p "add_mset k M" k] by simp_all

subsection \<open>The drain loop\<close>

lemma drain_loop_ends:
  "int i * (100 * Millisecond) \<le> D \<Longrightarrow>
   case drain_loop active tie t0 D i of
     Drained t \<Rightarrow> t0 \<le> t \<and> t \<le> t0 + D \<and> active t \<le> 0
   | Drain_Timeout t \<Rightarrow> t = t0 + D"
proof (induction active tie t0 D i rule: drain_loop.induct)
  case (1 active tie t0 D i)
  show ?case
  proof (cases "active (t0 + int i * (100 * Millisecond)) \<le> 0")
    case True
    with 1(2) show ?thesis by (subst drain_loop.simps) simp
  next
    case busy: False
    show ?thesis
    proof (cases "D < int (Suc i) * (100 * Millisecond) \<or> D = int (Suc i) * (100 * Millisecond) \<and> tie")
      case True
      with busy 1(2) show ?thesis by (subst drain_loop.simps) simp
    next
      case False
      then have "int (Suc i) * (100 * Millisecond) \<le> D" by linarith
      from 1(1) [OF busy False this] busy False show ?thesis by (subst drain_loop.simps) simp
    qed
  qed
qed

lemma drain_ends:
  "case drain c active tie t0 of
     Drained t \<Rightarrow> t0 \<le> t \<and> t \<le> t0 + drain_timeout c \<and> active t \<le> 0
   | Drain_Timeout t \<Rightarrow> t = t0 + drain_timeout c"
  unfolding drain_def by (rule drain_loop_ends) (simp add: drain_timeout_def Let_def)

lemma drain_busy:
  assumes "\<forall>t. t0 \<le> t \<and> t \<le> t0 + drain_timeout c \<longrightarrow> 0 < active t"
  shows "drain c active tie t0 = Drain_Timeout (t0 + drain_timeout c)"
  using drain_ends [where c = c and active = active and tie = tie and ?t0.0 = t0] assms by (force split: drained.splits)

lemma handle_accounts:
  assumes "accounts (cl, p, n) (L, M)" and "int (size L) + 1 < 2 ^ 63" and "room 3 (StickyKey peer) p"
    and "socks_handle say N cfg auth peer c (cl, p, n) = (h, s')"
  shows "accounts s' (both (handler_holds h) (L, M)) \<and> (\<forall>e. h \<noteq> Crashed e)"
proof -
  have inv: "lim_inv (cl, L)" "held_inv (p, M)" using assms(1) by (simp_all add: accounts_def)
  obtain a cl1 where acq: "Acquire (n_now N n) peer cl = (a, cl1)" by fastforce
  note lim = lim_inv_acquire(1) [OF inv(1) assms(2) acq]
  show ?thesis
  proof (cases a)
    case (Inl e)
    with assms(4) acq lim inv(2) show ?thesis by (auto simp: socks_handle_def accounts_def both_def)
  next
    case (Inr lease)
    with lim have l: "lim_inv (cl1, add_mset lease L)" by simp
    obtain q c1 where d: "socks_dialogue auth c = (q, c1)" by fastforce
    show ?thesis
    proof (cases q)
      case Blocked
      with assms(4) acq Inr d l inv(2) show ?thesis
        by (auto simp: socks_handle_def accounts_def both_def)
    next
      case (Failed r)
      with assms(4) acq Inr d release_accounts(1) [OF l] inv(2) show ?thesis
        by (auto simp: socks_handle_def accounts_def both_def)
    next
      case (Done t)
      obtain host port where t: "t = (host, port)" by fastforce
      obtain r p1 n1 where dl: "DialViaSocks say N cfg host port (StickyKey peer) (p, n_used N c1 n) = (r, p1, n1)"
        by (metis prod_cases3)
      note da = dial_accounts [OF inv(2) assms(3) dl]
      from assms(4) acq Inr d Done t dl da l release_accounts(1) [OF l] show ?thesis
        by (auto simp: socks_handle_def accounts_def both_def split: dial_result.splits)
    qed
  qed
qed

lemma finish_accounts:
  "accounts s (both (handler_holds h) (L, M)) \<Longrightarrow>
   accounts (snd (socks_finish h s)) (both (handler_holds (fst (socks_finish h s))) (L, M))"
  by (cases h; cases s) (auto simp: socks_finish_def accounts_def both_def intro: release_accounts)

section \<open>Shutdown of the process\<close>

text \<open>
  \<open>main\<close> cancels the context when the signal arrives at \<open>t\<close>, which closes the listeners and
  starts the drains, sleeps for half a second and returns, which ends the process.
\<close>

definition process_exit :: "instant \<Rightarrow> instant" where
  "process_exit t = t + 500 * Millisecond"

section \<open>Properties\<close>

text \<open>C12. With credentials configured, the server gets to the request of a client, and so to a
  dial, only if the client offered the user/password method and sent exactly the configured
  credentials.\<close>

theorem socks_auth_required:
  assumes "socks_dialogue (NewProxyAuth user pass) c = (Done target, c1)"
    and "user \<noteq> ''''" and "pass \<noteq> ''''"
  shows "\<exists>mths ver req. 2 \<in> set mths \<and>
    pending c = [5, of_nat (length mths)] @ mths @
      ver # of_nat (length user) # bytes user @ of_nat (length pass) # bytes pass @ req"
proof -
  obtain mths c2 u c3 where s: "read_greeting c = (Done mths, c2)"
    "negotiate (NewProxyAuth user pass) mths c2 = (Done u, c3)"
    using assms(1) unfolding socks_dialogue_def by (auto elim!: io_bind_Done)
  from negotiate_Done [OF s(2)] read_greeting_Done [OF s(1)] assms(2,3) show ?thesis
    by (auto simp: NewProxyAuth_def)
qed

definition tls_client :: conn where
  "tls_client = peer_sends
     [client_hello (NewProxyAuth ''alice'' ''s3cret'') [0, 2]
        ([5, 1, 0, 3, 11] @ bytes ''example.org'' @ [1, 187]) @ [22, 3, 1]] False"

lemma tls_request: "request ''example.org'' 443 = Some ([5, 1, 0, 3, 11] @ bytes ''example.org'' @ [1, 187])"
  by code_simp

lemma canonical_example: "canonical ''example.org'' = ''example.org''"
  by code_simp

lemma tls_dialogue:
  "\<exists>c1. socks_dialogue (NewProxyAuth ''alice'' ''s3cret'') tls_client = (Done (''example.org'', 443), c1)"
proof -
  let ?a = "NewProxyAuth ''alice'' ''s3cret''"
  have "pending tls_client = client_hello ?a [0, 2] ([5, 1, 0, 3, 11] @ bytes ''example.org'' @ [1, 187]) @ [22, 3, 1]"
    by (simp add: tls_client_def peer_sends_def pending_def)
  from dialogue_reads [OF this tls_request] show ?thesis
    by (auto simp: method_of_def NewProxyAuth_def tls_client_def peer_sends_def canonical_example)
qed

lemma socks_auth_required_witness:
  "\<exists>mths ver req. 2 \<in> set mths \<and> pending tls_client = [5, of_nat (length mths)] @ mths @
     ver # of_nat (length ''alice'') # bytes ''alice'' @ of_nat (length ''s3cret'') # bytes ''s3cret'' @ req"
proof -
  obtain c1 where "socks_dialogue (NewProxyAuth ''alice'' ''s3cret'') tls_client = (Done (''example.org'', 443), c1)"
    using tls_dialogue by blast
  then show ?thesis by (rule socks_auth_required) simp_all
qed

text \<open>C32. A client that follows the protocol with the right credentials is always accepted,
  however its bytes are cut into chunks: the server answers method and status, and dials the
  host of the request, in canonical form, at its port modulo 65536.\<close>

theorem socks_client_accepted:
  assumes "pending c = client_hello auth mths req @ early" and "request host port = Some req"
    and "method_of auth \<in> set mths" and "length mths \<le> 255" and "2 \<le> writes_ok c"
    and "length (pa_username auth) \<le> 255" and "length (pa_password auth) \<le> 255"
  shows "\<exists>c1. socks_dialogue auth c = (Done (canonical host, port mod 65536), c1) \<and>
    pending c1 = early \<and> wrote c1 = wrote c @ answer auth"
  using assms by (rule dialogue_reads)

lemma socks_client_accepted_witness:
  "\<exists>c1. socks_dialogue (NewProxyAuth [] []) (peer_sends [[5], [1, 0, 5, 1, 0, 1, 10], [0, 0, 1, 0, 80, 71]] False)
     = (Done (''10.0.0.1'', 80), c1) \<and> pending c1 = [71]"
proof -
  let ?c = "peer_sends [[5], [1, 0, 5, 1, 0, 1, 10], [0, 0, 1, 0, 80, 71]] False"
  have q: "request ''10.0.0.1'' 80 = Some [5, 1, 0, 1, 10, 0, 0, 1, 0, 80]" by code_simp
  have "pending ?c = client_hello (NewProxyAuth [] []) [0] [5, 1, 0, 1, 10, 0, 0, 1, 0, 80] @ [71]"
    by (simp add: pending_def peer_sends_def client_hello_def login_def NewProxyAuth_def)
  moreover have "canonical ''10.0.0.1'' = ''10.0.0.1''" by code_simp
  ultimately show ?thesis
    using socks_client_accepted [OF _ q, of ?c "NewProxyAuth [] []" "[0]" "[71]"]
    by (auto simp: method_of_def NewProxyAuth_def peer_sends_def)
qed

text \<open>C37. What a client sends in the segment of its request, beyond the request, is lost: it stays
  in the buffered reader, and the copy reads the socket.\<close>

theorem early_data_lost:
  assumes "inp c = [client_hello auth mths req @ early]" and "buf c = []" and "request host port = Some req"
    and "method_of auth \<in> set mths" and "length mths \<le> 255" and "2 \<le> writes_ok c"
    and "length (pa_username auth) \<le> 255" and "length (pa_password auth) \<le> 255"
  shows "\<exists>c1. socks_dialogue auth c = (Done (canonical host, port mod 65536), c1) \<and>
    buf c1 = early \<and> forwarded c1 = []"
proof -
  have "pending c = client_hello auth mths req @ early" using assms(1,2) by (simp add: pending_def)
  from dialogue_reads [OF this assms(3-)] obtain c1 where
    c1: "socks_dialogue auth c = (Done (canonical host, port mod 65536), c1)" "pending c1 = early" by blast
  moreover have "inp c1 = []" by (rule dialogue_exhausts [OF c1(1) assms(2,1)])
  ultimately show ?thesis by (simp add: pending_def forwarded_def)
qed

lemma early_data_lost_witness:
  "\<exists>c1. socks_dialogue (NewProxyAuth ''alice'' ''s3cret'') tls_client = (Done (''example.org'', 443), c1) \<and>
     buf c1 = [22, 3, 1] \<and> forwarded c1 = []"
proof -
  have "\<exists>c1. socks_dialogue (NewProxyAuth ''alice'' ''s3cret'') tls_client = (Done (canonical ''example.org'', 443 mod 65536), c1) \<and>
     buf c1 = [22, 3, 1] \<and> forwarded c1 = []"
    by (rule early_data_lost [OF _ _ tls_request, where mths = "[0, 2]"])
      (simp_all add: tls_client_def peer_sends_def method_of_def NewProxyAuth_def)
  then show ?thesis by (simp add: canonical_example)
qed

text \<open>The accounts of the limiter and of the pool are right whatever a client and the network
  do: a handler that has returned holds nothing, one that waits for the client holds its limiter
  lease, one that dials or copies holds both leases, and the end of the copy gives both back.\<close>

theorem socks_handler_accounts:
  assumes "accounts (cl, p, n) (L, M)" and "int (size L) + 1 < 2 ^ 63" and "room 3 (StickyKey peer) p"
    and "socks_handle say N cfg auth peer c (cl, p, n) = (h, s')"
  shows "accounts s' (both (handler_holds h) (L, M)) \<and> (\<forall>e. h \<noteq> Crashed e) \<and>
    accounts (snd (socks_finish h s')) (both (handler_holds (fst (socks_finish h s'))) (L, M))"
  using handle_accounts [OF assms] finish_accounts [of s' h L M] by simp

lemma socks_handler_accounts_witness:
  "\<exists>h s'. socks_handle (\<lambda>e. ''x'') refusing (Default sample_host) (NewProxyAuth [] []) (Some ''10.0.0.9:5000'')
      (peer_sends [] True) (NewConnLimiter 10 2 0, sample_pool StrategyRoundRobin, 0) = (h, s') \<and>
    accounts s' (both (handler_holds h) ({#}, {#}))"
proof -
  obtain h s' where run: "socks_handle (\<lambda>e. ''x'') refusing (Default sample_host) (NewProxyAuth [] []) (Some ''10.0.0.9:5000'')
      (peer_sends [] True) (NewConnLimiter 10 2 0, sample_pool StrategyRoundRobin, 0) = (h, s')"
    by (meson prod.exhaust)
  have a: "accounts (NewConnLimiter 10 2 0, sample_pool StrategyRoundRobin, 0 :: nat) ({#}, {#})"
    using lim_inv_New held_inv_sample by (simp add: accounts_def)
  have r: "room 3 (StickyKey (Some ''10.0.0.9:5000'')) (sample_pool StrategyRoundRobin)" by (simp add: room_def)
  from socks_handler_accounts [OF a _ r run] run show ?thesis by simp
qed

text \<open>Draining ends within the drain timeout, and reports success only when no handler is
  running. But the process does not wait for it: when connections stay busy, the drain would last
  until its timeout, and the process exits half a second after the signal.\<close>

theorem shutdown_cuts_drain:
  assumes "\<forall>u. t \<le> u \<and> u \<le> t + drain_timeout c \<longrightarrow> 0 < active u"
    and "500 * Millisecond < drain_timeout c"
  shows "drain c active tie t = Drain_Timeout (t + drain_timeout c) \<and> process_exit t < t + drain_timeout c \<and>
    (case drain c active' tie t of
       Drained u \<Rightarrow> t \<le> u \<and> u \<le> t + drain_timeout c \<and> active' u \<le> 0
     | Drain_Timeout u \<Rightarrow> u = t + drain_timeout c)"
  using drain_busy [OF assms(1)] assms(2) drain_ends [where c = c and active = active' and tie = tie and ?t0.0 = t] by (simp add: process_exit_def)

lemma shutdown_cuts_drain_witness:
  "drain (Default sample_host) (\<lambda>u. 1) False 0 = Drain_Timeout (30 * Second) \<and> process_exit 0 < 30 * Second"
  using shutdown_cuts_drain [where t = 0 and c = "Default sample_host" and active = "\<lambda>u. 1" and tie = False]
  by (simp add: drain_timeout_def Default_def)

end
