(* ===== verification/Http_Proxy.thy ===== *)
theory Http_Proxy
  imports Socks5
begin

text \<open>
  Model of \<open>internal/proxy/http_proxy.go\<close>: CONNECT tunnels, plain requests with the rewriting of
  their target, the error replies, and draining. Reading and writing HTTP messages is
  \<open>net/http\<close>, the parameter \<open>http_lib\<close>; \<open>net/url\<close> is modelled as far as the rewriting depends
  on it.
\<close>

section \<open>URLs\<close>

text \<open>
  A URL as \<open>ReadRequest\<close> parses it from a request line: no fragment, no opaque part. The user
  information and the host are kept as they are printed.
\<close>

record url =
  u_Scheme :: string
  u_User :: "string option"
  u_Host :: string
  u_Path :: string
  u_RawPath :: string
  u_ForceQuery :: bool
  u_RawQuery :: string

definition unreserved :: "char \<Rightarrow> bool" where
  "unreserved c \<longleftrightarrow>
     CHR ''a'' \<le> c \<and> c \<le> CHR ''z'' \<or> is_digit c \<or> CHR ''A'' \<le> c \<and> c \<le> CHR ''Z'' \<or>
     c = CHR ''-'' \<or> c = CHR ''_'' \<or> c = CHR ''.'' \<or> c = CHR ''~''"

text \<open>\<open>shouldEscape\<close> in the mode \<open>encodePath\<close>, \<open>escape\<close>, and \<open>unescape\<close> (\<open>None\<close> is its error).\<close>

definition shouldEscape :: "char \<Rightarrow> bool" where
  "shouldEscape c \<longleftrightarrow> \<not> unreserved c \<and> c \<notin> set ''$&+,/:;=@''"

definition upper_hex :: "nat \<Rightarrow> char" where
  "upper_hex n = (if n < 10 then char_of (n + 48) else char_of (n + 55))"

fun escape_path :: "string \<Rightarrow> string" where
  "escape_path [] = []"
| "escape_path (c # s) =
     (if shouldEscape c
      then CHR ''%'' # upper_hex (of_char c div 16) # upper_hex (of_char c mod 16) # escape_path s
      else c # escape_path s)"

fun unescape_path :: "string \<Rightarrow> string option" where
  "unescape_path [] = Some []"
| "unescape_path (c # s) =
     (if c = CHR ''%'' then
        (case s of
           a # b # t \<Rightarrow>
             (case (hex_val a, hex_val b) of
                (Some x, Some y) \<Rightarrow> map_option ((#) (char_of (16 * x + y))) (unescape_path t)
              | _ \<Rightarrow> None)
         | _ \<Rightarrow> None)
      else map_option ((#) c) (unescape_path s))"

definition validEncoded :: "string \<Rightarrow> bool" where
  "validEncoded s \<longleftrightarrow>
     list_all (\<lambda>c. c \<in> set (CHR 0x27 # ''!$&()*+,;=:@[]%'') \<or> \<not> shouldEscape c) s"

definition EscapedPath :: "url \<Rightarrow> string" where
  "EscapedPath u =
     (if u_RawPath u \<noteq> '''' \<and> validEncoded (u_RawPath u) \<and> unescape_path (u_RawPath u) = Some (u_Path u)
      then u_RawPath u
      else if u_Path u = ''*'' then ''*''
      else escape_path (u_Path u))"

definition query_part :: "url \<Rightarrow> string" where
  "query_part u = (if u_ForceQuery u \<or> u_RawQuery u \<noteq> '''' then ''?'' @ u_RawQuery u else '''')"

definition RequestURI :: "url \<Rightarrow> string" where
  "RequestURI u = (let p = EscapedPath u in (if p = '''' then ''/'' else p) @ query_part u)"

definition URL_String :: "url \<Rightarrow> string" where
  "URL_String u =
     (let path = EscapedPath u in
      (if u_Scheme u \<noteq> '''' then u_Scheme u @ '':'' else '''') @
      (if u_Scheme u \<noteq> '''' \<or> u_Host u \<noteq> '''' \<or> u_User u \<noteq> None then
         (if u_Host u \<noteq> '''' \<or> u_Path u \<noteq> '''' \<or> u_User u \<noteq> None then ''//'' else '''') @
         (case u_User u of None \<Rightarrow> '''' | Some ui \<Rightarrow> ui @ ''@'') @ u_Host u
       else '''') @
      (if path \<noteq> '''' \<and> hd path \<noteq> CHR ''/'' \<and> u_Host u \<noteq> '''' then ''/'' else '''') @
      path @ query_part u)"

section \<open>Requests\<close>

text \<open>Headers by canonical name; \<open>Get\<close> is the first value.\<close>

type_synonym header = "string \<rightharpoonup> string list"

record http_request =
  rq_Method :: string
  rq_URL :: url
  rq_Host :: string
  rq_RequestURI :: string
  rq_Header :: header

definition Header_Get :: "header \<Rightarrow> string \<Rightarrow> string" where
  "Header_Get h k = (case h k of Some (v # vs) \<Rightarrow> v | _ \<Rightarrow> '''')"

text \<open>The absolute form of the target becomes the origin form.\<close>

definition rewrite_target :: "http_request \<Rightarrow> http_request" where
  "rewrite_target r =
     (let target = URL_String (rq_URL r) in
      if HasPrefix target ''http://'' then
        (let rest = TrimPrefix target ''http://'' in
         case Index rest ''/'' of
           Some slash \<Rightarrow>
             (let path = drop slash rest in
              r\<lparr>rq_URL := (rq_URL r)\<lparr>u_Path := (if path = '''' then ''/'' else path), u_RawQuery := ''''\<rparr>,
                rq_Host := take slash rest\<rparr>)
         | None \<Rightarrow> r\<lparr>rq_URL := (rq_URL r)\<lparr>u_Path := ''/''\<rparr>, rq_Host := rest\<rparr>)
      else r)"

text \<open>The request as it is forwarded.\<close>

definition strip_proxy_headers :: "http_request \<Rightarrow> http_request" where
  "strip_proxy_headers r =
     r\<lparr>rq_RequestURI := '''',
       rq_Header := (rq_Header r)(''Proxy-Authorization'' := None, ''Proxy-Connection'' := None,
         ''Connection'' := Some [''close''])\<rparr>"

section \<open>Replies\<close>

definition crlf :: string where "crlf = [CHR 0x0D, CHR 0x0A]"

definition Write_text :: "conn \<Rightarrow> string \<Rightarrow> conn" where
  "Write_text c s = snd (Write_conn () (bytes s) c)"

definition reply407 :: "conn \<Rightarrow> conn" where
  "reply407 c =
     (let body = ''Proxy Authentication Required'' in
      Write_text c
        (''HTTP/1.1 407 Proxy Authentication Required'' @ crlf @
         ''Proxy-Authenticate: Basic realm='' @ [CHR 0x22] @ ''go-multi-warp'' @ [CHR 0x22] @ crlf @
         ''Content-Length: '' @ int_dec (int (length body)) @ crlf @
         ''Connection: close'' @ crlf @ crlf @ body))"

definition reply502 :: "string \<Rightarrow> conn \<Rightarrow> conn" where
  "reply502 msg c =
     (let body = ''Bad Gateway: '' @ msg in
      Write_text c
        (''HTTP/1.1 502 Bad Gateway'' @ crlf @
         ''Content-Length: '' @ int_dec (int (length body)) @ crlf @
         ''Connection: close'' @ crlf @ crlf @ body))"

section \<open>One connection\<close>

text \<open>
  A response with its head and the chunks of its body; \<open>rs_endless\<close> marks a body that does not
  end, as an event stream. \<open>Response.Write\<close> writes the head and the whole body, which is then read.
\<close>

record http_response =
  rs_Header :: header
  rs_head :: "u8 list"
  rs_body :: "u8 list list"
  rs_endless :: bool

definition Response_Write :: "http_response \<Rightarrow> (unit, http_response) cio" where
  "Response_Write rs =
     io_bind (Write_conn () (rs_head rs @ concat (rs_body rs))) (\<lambda>_ c.
       if rs_endless rs then (Blocked, c) else (Done (rs\<lparr>rs_body := []\<rparr>), c))"

record http_lib =
  hl_ReadRequest :: "(unit, http_request) cio"
  hl_WriteRequest :: "http_request \<Rightarrow> (unit, unit) cio"
  hl_ReadResponse :: "(unit, http_response) cio"

text \<open>
  Where a handler is. \<open>H_Exchanging\<close> is one that does not come back from the exchange of a plain
  request and its response; \<open>H_Copying\<close> has the idle timeout, the streaming flag and the cap of
  its copy.
\<close>

datatype http_handler =
    H_Returned conn
  | H_Reading conn ConnLease
  | H_Dialling conn nat ConnLease
  | H_Exchanging conn conn nat ConnLease
  | H_Copying conn conn nat ConnLease duration bool duration
  | H_Crashed panic

text \<open>
  The handlers of a request get the limiter's lease to say what the handler as a whole holds;
  \<open>h_end\<close> is the return of \<open>handle\<close> with its deferred calls.
\<close>

definition h_end :: "ConnLease \<Rightarrow> conn \<Rightarrow> 'n shared \<Rightarrow> http_handler \<times> 'n shared" where
  "h_end lease c = (\<lambda>(cl, p, n). (H_Returned (Close c), (ConnLease_Release lease cl, p, n)))"

definition handleConnect ::
  "(sock_error \<Rightarrow> string) \<Rightarrow> (dial_error \<Rightarrow> string) \<Rightarrow> 'n net \<Rightarrow> config \<Rightarrow> ConnLease \<Rightarrow> u64 \<Rightarrow>
   http_request \<Rightarrow> conn \<Rightarrow> 'n shared \<Rightarrow> http_handler \<times> 'n shared"
where
  "handleConnect say sayd N cfg lease skey req c = (\<lambda>(cl, p, n).
     case proxy_SplitHostPort (rq_Host req) 443 of
       Inl e \<Rightarrow> h_end lease (reply502 ''bad host'' c) (cl, p, n)
     | Inr (host, port) \<Rightarrow>
         (case DialViaSocks say N cfg host port skey (p, n) of
            (Panicked e, (p1, n1)) \<Rightarrow> (H_Crashed e, (cl, p1, n1))
          | (Stuck k, (p1, n1)) \<Rightarrow> (H_Dialling c k lease, (cl, p1, n1))
          | (Dial_Failed e, (p1, n1)) \<Rightarrow> h_end lease (reply502 (sayd e) c) (cl, p1, n1)
          | (Dialed up k, (p1, n1)) \<Rightarrow>
              (H_Copying (Write_text c (''HTTP/1.1 200 Connection Established'' @ crlf @ crlf)) up k lease
                 (lm_IOTimeout (Limits cfg)) True (st_MaxStreamDuration (Streaming cfg)),
               (cl, p1, n1))))"

text \<open>A plain request once its upstream connection is there, with the lease of the backend.\<close>

definition exchange ::
  "http_lib \<Rightarrow> config \<Rightarrow> ConnLease \<Rightarrow> http_request \<Rightarrow> conn \<Rightarrow> conn \<Rightarrow> nat \<Rightarrow> 'n shared \<Rightarrow>
   http_handler \<times> 'n shared"
where
  "exchange H cfg lease req c up k = (\<lambda>(cl, p, n).
     let give_up = (\<lambda>c. h_end lease c (cl, Lease_Release k p, n)) in
     case hl_WriteRequest H (strip_proxy_headers req) up of
       (Blocked, up1) \<Rightarrow> (H_Exchanging c up1 k lease, (cl, p, n))
     | (Failed e, up1) \<Rightarrow> give_up (reply502 ''write request'' c)
     | (Done u, up1) \<Rightarrow>
         (case hl_ReadResponse H up1 of
            (Blocked, up2) \<Rightarrow> (H_Exchanging c up2 k lease, (cl, p, n))
          | (Failed e, up2) \<Rightarrow> give_up (reply502 ''bad upstream response'' c)
          | (Done rs, up2) \<Rightarrow>
              (case Response_Write rs c of
                 (Blocked, c1) \<Rightarrow> (H_Exchanging c1 up2 k lease, (cl, p, n))
               | (Failed e, c1) \<Rightarrow> give_up c1
               | (Done rs', c1) \<Rightarrow>
                   (H_Copying c1 up2 k lease (st_IdleTimeout (Streaming cfg))
                      (HasPrefix (Header_Get (rs_Header rs') ''Content-Type'') ''text/event-stream'')
                      (st_MaxStreamDuration (Streaming cfg)),
                    (cl, p, n)))))"

definition handlePlain ::
  "(sock_error \<Rightarrow> string) \<Rightarrow> (dial_error \<Rightarrow> string) \<Rightarrow> 'n net \<Rightarrow> http_lib \<Rightarrow> config \<Rightarrow> ConnLease \<Rightarrow> u64 \<Rightarrow>
   http_request \<Rightarrow> conn \<Rightarrow> 'n shared \<Rightarrow> http_handler \<times> 'n shared"
where
  "handlePlain say sayd N H cfg lease skey req0 c = (\<lambda>(cl, p, n).
     let req = rewrite_target req0 in
     case proxy_SplitHostPort (rq_Host req) 80 of
       Inl e \<Rightarrow> h_end lease (reply502 ''bad host'' c) (cl, p, n)
     | Inr (host, port) \<Rightarrow>
         (case DialViaSocks say N cfg host port skey (p, n) of
            (Panicked e, (p1, n1)) \<Rightarrow> (H_Crashed e, (cl, p1, n1))
          | (Stuck k, (p1, n1)) \<Rightarrow> (H_Dialling c k lease, (cl, p1, n1))
          | (Dial_Failed e, (p1, n1)) \<Rightarrow> h_end lease (reply502 (sayd e) c) (cl, p1, n1)
          | (Dialed up k, (p1, n1)) \<Rightarrow> exchange H cfg lease req c up k (cl, p1, n1)))"

definition http_handle ::
  "(sock_error \<Rightarrow> string) \<Rightarrow> (dial_error \<Rightarrow> string) \<Rightarrow> 'n net \<Rightarrow> http_lib \<Rightarrow> config \<Rightarrow> ProxyAuth \<Rightarrow>
   string option \<Rightarrow> conn \<Rightarrow> 'n shared \<Rightarrow> http_handler \<times> 'n shared"
where
  "http_handle say sayd N H cfg auth peer c = (\<lambda>(cl, p, n).
     case Acquire (n_now N n) peer cl of
       (Inl e, cl1) \<Rightarrow> (H_Returned (Close (reply502 ''upstream limit'' c)), (cl1, p, n))
     | (Inr lease, cl1) \<Rightarrow>
         (case hl_ReadRequest H c of
            (Blocked, c1) \<Rightarrow> (H_Reading c1 lease, (cl1, p, n_used N c1 n))
          | (Failed e, c1) \<Rightarrow> h_end lease (reply502 ''bad request'' c1) (cl1, p, n_used N c1 n)
          | (Done req, c1) \<Rightarrow>
              (let s1 = (cl1, p, n_used N c1 n) in
               if CheckHTTPHeader auth (Header_Get (rq_Header req) ''Proxy-Authorization'') \<noteq> None
               then h_end lease (reply407 c1) s1
               else if rq_Method req = ''CONNECT''
               then handleConnect say sayd N cfg lease (StickyKey peer) req c1 s1
               else handlePlain say sayd N H cfg lease (StickyKey peer) req c1 s1)))"

definition http_finish :: "http_handler \<Rightarrow> 'n shared \<Rightarrow> http_handler \<times> 'n shared" where
  "http_finish h = (\<lambda>(cl, p, n).
     case h of
       H_Copying c up k lease idle streaming cap \<Rightarrow> h_end lease c (cl, Lease_Release k p, n)
     | _ \<Rightarrow> (h, (cl, p, n)))"

text \<open>
  The second connection of the copy of a plain request: it reads what is left of the body of the response and writes to
  the upstream connection; closing it closes the body. A \<open>Read\<close> returns a chunk, or the end (\<open>None\<close>).
\<close>

record bodyWrapper =
  bw_body :: "u8 list list"
  bw_conn :: conn

definition bw_Read :: "bodyWrapper \<Rightarrow> u8 list option \<times> bodyWrapper" where
  "bw_Read bw = (case bw_body bw of [] \<Rightarrow> (None, bw) | x # xs \<Rightarrow> (Some x, bw\<lparr>bw_body := xs\<rparr>))"

definition bw_Write :: "u8 list \<Rightarrow> bodyWrapper \<Rightarrow> bool \<times> bodyWrapper" where
  "bw_Write bs bw = (case Write_conn () bs (bw_conn bw) of (res, c) \<Rightarrow> (res = Done (), bw\<lparr>bw_conn := c\<rparr>))"

definition bw_Close :: "bodyWrapper \<Rightarrow> bodyWrapper" where
  "bw_Close bw = bw\<lparr>bw_body := []\<rparr>"

text \<open>A history of the copy in which the data that comes from the wrapper is what its \<open>Read\<close> returns.\<close>

fun bw_serves :: "bodyWrapper \<Rightarrow> (instant \<times> tunnel_event) list \<Rightarrow> bool" where
  "bw_serves bw [] = True"
| "bw_serves bw ((now, TData B_to_A n) # es) =
     (case bw_Read bw of (None, bw1) \<Rightarrow> False | (Some x, bw1) \<Rightarrow> n = length x \<and> bw_serves bw1 es)"
| "bw_serves bw ((now, TCap) # es) = bw_serves (bw_Close bw) es"
| "bw_serves bw (e # es) = bw_serves bw es"

definition plain_copy ::
  "bodyWrapper \<Rightarrow> duration \<Rightarrow> bool \<Rightarrow> duration \<Rightarrow> instant \<Rightarrow> (instant \<times> tunnel_event) list \<Rightarrow> bool \<times> tunnel"
where
  "plain_copy bw idle streaming cap now es =
     (case CopyBidirectional False idle streaming cap now es of (ok, t) \<Rightarrow> (ok \<and> bw_serves bw es, t))"

text \<open>The drain of this server is the same code as that of the SOCKS5 server.\<close>

definition http_drain :: "config \<Rightarrow> (instant \<Rightarrow> int) \<Rightarrow> bool \<Rightarrow> instant \<Rightarrow> drained" where
  "http_drain c active tie t0 = drain_loop active tie t0 (drain_timeout c) 0"

section \<open>Lemmas\<close>

subsection \<open>Accounts of a handler\<close>

fun http_holds :: "http_handler \<Rightarrow> ConnLease multiset \<times> nat multiset" where
  "http_holds (H_Returned c) = ({#}, {#})"
| "http_holds (H_Reading c lease) = ({#lease#}, {#})"
| "http_holds (H_Dialling c k lease) = ({#lease#}, {#k#})"
| "http_holds (H_Exchanging c up k lease) = ({#lease#}, {#k#})"
| "http_holds (H_Copying c up k lease idle streaming cap) = ({#lease#}, {#k#})"
| "http_holds (H_Crashed e) = ({#}, {#})"

text \<open>A handler that is where \<open>h\<close> says, in a state whose accounts are right.\<close>

definition sound :: "ConnLease multiset \<times> nat multiset \<Rightarrow> http_handler \<times> 'n shared \<Rightarrow> bool" where
  "sound others = (\<lambda>(h, s). accounts s (both (http_holds h) others) \<and> (\<forall>e. h \<noteq> H_Crashed e))"

lemma sound_end:
  "lim_inv (cl, add_mset lease L) \<Longrightarrow> held_inv (p, M) \<Longrightarrow> sound (L, M) (h_end lease c (cl, p, n))"
  using release_accounts(1) [of cl lease L]
  by (simp add: sound_def h_end_def accounts_def both_def)

lemma sound_holding:
  "lim_inv (cl, add_mset lease L) \<Longrightarrow> held_inv (p, add_mset k M) \<Longrightarrow> http_holds h = ({#lease#}, {#k#}) \<Longrightarrow>
   sound (L, M) (h, (cl, p, n))"
  by (cases h) (auto simp: sound_def accounts_def both_def)

lemma exchange_sound:
  assumes "lim_inv (cl, add_mset lease L)" and "held_inv (p, add_mset k M)"
  shows "sound (L, M) (exchange H cfg lease req c up k (cl, p, n))"
proof -
  note give_up = sound_end [OF assms(1) release_accounts(2) [OF assms(2)]]
  show ?thesis
    unfolding exchange_def Let_def prod.case
    by (auto split: prod.split io_res.split intro: give_up sound_holding [OF assms])
qed

text \<open>The common shape of the two kinds of request: dial, then go on with the connection.\<close>

lemma dialled_sound:
  assumes "lim_inv (cl, add_mset lease L)" and "held_inv (p, M)" and "room 3 skey p"
    and "\<And>up k p1 n1. held_inv (p1, add_mset k M) \<Longrightarrow> sound (L, M) (go up k (cl, p1, n1))"
  shows "sound (L, M)
    (case DialViaSocks say N cfg host port skey (p, n) of
       (Panicked e, (p1, n1)) \<Rightarrow> (H_Crashed e, (cl, p1, n1))
     | (Stuck k, (p1, n1)) \<Rightarrow> (H_Dialling c k lease, (cl, p1, n1))
     | (Dial_Failed e, (p1, n1)) \<Rightarrow> h_end lease (reply502 (sayd e) c) (cl, p1, n1)
     | (Dialed up k, (p1, n1)) \<Rightarrow> go up k (cl, p1, n1))"
proof -
  obtain r p1 n1 where d: "DialViaSocks say N cfg host port skey (p, n) = (r, p1, n1)"
    by (metis prod_cases3)
  from dial_accounts [OF assms(2,3) d] show ?thesis
    unfolding d by (cases r) (auto intro: sound_end [OF assms(1)] sound_holding [OF assms(1)] assms(4))
qed

lemma handleConnect_sound:
  assumes "lim_inv (cl, add_mset lease L)" and "held_inv (p, M)" and "room 3 skey p"
  shows "sound (L, M) (handleConnect say sayd N cfg lease skey req c (cl, p, n))"
  unfolding handleConnect_def prod.case
  by (auto split: sum.split intro!: dialled_sound [OF assms] sound_end [OF assms(1,2)] intro: sound_holding [OF assms(1)])

lemma handlePlain_sound:
  assumes "lim_inv (cl, add_mset lease L)" and "held_inv (p, M)" and "room 3 skey p"
  shows "sound (L, M) (handlePlain say sayd N H cfg lease skey req c (cl, p, n))"
  unfolding handlePlain_def Let_def prod.case
  by (auto split: sum.split intro!: dialled_sound [OF assms] sound_end [OF assms(1,2)] intro: exchange_sound [OF assms(1)])

lemma http_handle_sound:
  assumes "accounts (cl, p, n) (L, M)" and "int (size L) + 1 < 2 ^ 63" and "room 3 (StickyKey peer) p"
  shows "sound (L, M) (http_handle say sayd N H cfg auth peer c (cl, p, n))"
proof -
  have inv: "lim_inv (cl, L)" "held_inv (p, M)" using assms(1) by (simp_all add: accounts_def)
  obtain a cl1 where acq: "Acquire (n_now N n) peer cl = (a, cl1)" by fastforce
  note lim = lim_inv_acquire(1) [OF inv(1) assms(2) acq]
  show ?thesis
  proof (cases a)
    case (Inl e)
    with acq lim inv(2) show ?thesis by (simp add: http_handle_def sound_def accounts_def both_def)
  next
    case (Inr lease)
    with lim have l: "lim_inv (cl1, add_mset lease L)" by simp
    obtain q c1 where q: "hl_ReadRequest H c = (q, c1)" by fastforce
    show ?thesis
    proof (cases q)
      case Blocked
      with acq Inr q l inv(2) show ?thesis by (simp add: http_handle_def sound_def accounts_def both_def)
    next
      case (Failed e)
      with acq Inr q sound_end [OF l inv(2)] show ?thesis by (simp add: http_handle_def)
    next
      case (Done req)
      with acq Inr q show ?thesis
        by (simp add: http_handle_def Let_def sound_end [OF l inv(2)] handleConnect_sound [OF l inv(2) assms(3)]
            handlePlain_sound [OF l inv(2) assms(3)])
    qed
  qed
qed

lemma http_finish_sound: "sound others (h, s) \<Longrightarrow> sound others (http_finish h s)"
proof (cases s)
  case (fields cl p n)
  assume s: "sound others (h, s)"
  obtain L M where o: "others = (L, M)" by fastforce
  show ?thesis
  proof (cases h)
    case (H_Copying c up k lease idle streaming cap)
    with s fields o have "lim_inv (cl, add_mset lease L)" "held_inv (p, add_mset k M)"
      by (simp_all add: sound_def accounts_def both_def)
    from sound_end [OF this(1) release_accounts(2) [OF this(2)]] show ?thesis
      by (simp add: http_finish_def fields H_Copying o)
  qed (use s fields in \<open>simp_all add: http_finish_def\<close>)
qed

subsection \<open>Query strings\<close>

lemma upper_hex_no_query:
  assumes "n < 16"
  shows "upper_hex n \<noteq> CHR ''?''" and "CHR ''?'' \<noteq> upper_hex n"
proof -
  have "list_all (\<lambda>n. upper_hex n \<noteq> CHR ''?'') [0..<16]" by code_simp
  with assms show "upper_hex n \<noteq> CHR ''?''" by (simp add: list_all_iff)
  then show "CHR ''?'' \<noteq> upper_hex n" by (rule not_sym)
qed

lemma escape_path_no_query: "CHR ''?'' \<notin> set (escape_path s)"
proof (induction s)
  case (Cons c s)
  have "of_char c div 16 < (16 :: nat)" "of_char c mod 16 < (16 :: nat)"
    using nat_of_char_less_256 [of c] by (simp_all add: less_mult_imp_div_less)
  note hex = this [THEN upper_hex_no_query(2)]
  have q: "shouldEscape (CHR ''?'')" by code_simp
  show ?case
  proof (cases "shouldEscape c")
    case True
    with Cons hex show ?thesis by simp
  next
    case False
    with q have "CHR ''?'' \<noteq> c" by blast
    with False Cons show ?thesis by simp
  qed
qed simp

lemma validEncoded_no_query: "validEncoded s \<Longrightarrow> CHR ''?'' \<notin> set s"
proof
  assume "validEncoded s" "CHR ''?'' \<in> set s"
  then have "CHR ''?'' \<in> set (CHR 0x27 # ''!$&()*+,;=:@[]%'') \<or> \<not> shouldEscape (CHR ''?'')"
    unfolding validEncoded_def list_all_iff by blast
  moreover have "CHR ''?'' \<notin> set (CHR 0x27 # ''!$&()*+,;=:@[]%'') \<and> shouldEscape (CHR ''?'')"
    by code_simp
  ultimately show False by blast
qed

lemma EscapedPath_no_query: "CHR ''?'' \<notin> set (EscapedPath u)"
  using escape_path_no_query [of "u_Path u"] validEncoded_no_query [of "u_RawPath u"]
  by (auto simp: EscapedPath_def)

section \<open>Properties\<close>

text \<open>The accounts of the limiter and of the pool are right whatever a client, the network and
  the messages are: a handler that has returned holds nothing, a handler that waits for a message,
  dials, exchanges or copies holds its leases, and the end of the copy gives both back.\<close>

theorem http_handler_accounts:
  assumes "accounts (cl, p, n) (L, M)" and "int (size L) + 1 < 2 ^ 63" and "room 3 (StickyKey peer) p"
    and "http_handle say sayd N H cfg auth peer c (cl, p, n) = (h, s')"
    and "http_finish h s' = (h2, s2)"
  shows "accounts s' (both (http_holds h) (L, M)) \<and> (\<forall>e. h \<noteq> H_Crashed e) \<and>
    accounts s2 (both (http_holds h2) (L, M))"
  using http_handle_sound [OF assms(1-3), of say sayd N H cfg auth c]
    http_finish_sound [of "(L, M)" h s'] assms(4,5)
  by (simp add: sound_def)

text \<open>A library that reads the same request from every connection, and a plain request.\<close>

definition one_request :: "http_request \<Rightarrow> http_response \<Rightarrow> http_lib" where
  "one_request r rs =
     \<lparr>hl_ReadRequest = (\<lambda>c. (Done r, c)), hl_WriteRequest = (\<lambda>r c. (Done (), c)),
      hl_ReadResponse = (\<lambda>c. (Done rs, c))\<rparr>"

definition search_request :: http_request where
  "search_request =
     \<lparr>rq_Method = ''GET'',
      rq_URL = \<lparr>u_Scheme = ''http'', u_User = None, u_Host = ''example.org'', u_Path = ''/find'', u_RawPath = '''',
        u_ForceQuery = False, u_RawQuery = ''q=warp''\<rparr>,
      rq_Host = ''example.org'', rq_RequestURI = ''http://example.org/find?q=warp'', rq_Header = Map.empty\<rparr>"

definition event_stream :: http_response where
  "event_stream =
     \<lparr>rs_Header = [''Content-Type'' \<mapsto> [''text/event-stream'']], rs_head = [72], rs_body = [[1], [2]],
      rs_endless = True\<rparr>"

lemma http_handler_accounts_witness:
  "\<exists>h s'. http_handle (\<lambda>e. ''x'') (\<lambda>e. ''y'') refusing (one_request search_request event_stream) (Default sample_host)
      (NewProxyAuth [] []) (Some ''10.0.0.9:5000'') (peer_sends [] True)
      (NewConnLimiter 10 2 0, sample_pool StrategyRoundRobin, 0) = (h, s') \<and>
    accounts s' (both (http_holds h) ({#}, {#}))"
proof -
  obtain h s' where run: "http_handle (\<lambda>e. ''x'') (\<lambda>e. ''y'') refusing (one_request search_request event_stream)
      (Default sample_host) (NewProxyAuth [] []) (Some ''10.0.0.9:5000'') (peer_sends [] True)
      (NewConnLimiter 10 2 0, sample_pool StrategyRoundRobin, 0) = (h, s')"
    by (meson prod.exhaust)
  obtain h2 s2 where fin: "http_finish h s' = (h2, s2)" by (meson prod.exhaust)
  have a: "accounts (NewConnLimiter 10 2 0, sample_pool StrategyRoundRobin, 0 :: nat) ({#}, {#})"
    using lim_inv_New held_inv_sample by (simp add: accounts_def)
  have r: "room 3 (StickyKey (Some ''10.0.0.9:5000'')) (sample_pool StrategyRoundRobin)" by (simp add: room_def)
  from http_handler_accounts [OF a _ r run fin] run show ?thesis by simp
qed

text \<open>C38. A plain request whose target is an absolute URL with a path is forwarded without its
  query: the question mark ends up escaped in the path, as the target that is written has none.\<close>

theorem plain_requests_lose_query:
  assumes "HasPrefix (URL_String (rq_URL r)) ''http://''"
    and "Index (TrimPrefix (URL_String (rq_URL r)) ''http://'') ''/'' \<noteq> None"
    and "\<not> u_ForceQuery (rq_URL r)"
  shows "CHR ''?'' \<notin> set (RequestURI (rq_URL (strip_proxy_headers (rewrite_target r))))"
proof -
  obtain slash where s: "Index (TrimPrefix (URL_String (rq_URL r)) ''http://'') ''/'' = Some slash"
    using assms(2) by auto
  have "query_part (rq_URL (rewrite_target r)) = ''''"
    using assms(1,3) s by (simp add: rewrite_target_def Let_def query_part_def)
  with EscapedPath_no_query [of "rq_URL (rewrite_target r)"] show ?thesis
    by (auto simp: RequestURI_def strip_proxy_headers_def Let_def)
qed

lemma plain_requests_lose_query_witness:
  "RequestURI (rq_URL (strip_proxy_headers (rewrite_target search_request))) = ''/find%3Fq=warp'' \<and>
   CHR ''?'' \<notin> set (RequestURI (rq_URL (strip_proxy_headers (rewrite_target search_request))))"
proof
  show "RequestURI (rq_URL (strip_proxy_headers (rewrite_target search_request))) = ''/find%3Fq=warp''"
    by code_simp
  have "HasPrefix (URL_String (rq_URL search_request)) ''http://''"
    "Index (TrimPrefix (URL_String (rq_URL search_request)) ''http://'') ''/'' \<noteq> None"
    "\<not> u_ForceQuery (rq_URL search_request)" by code_simp+
  then show "CHR ''?'' \<notin> set (RequestURI (rq_URL (strip_proxy_headers (rewrite_target search_request))))"
    by (rule plain_requests_lose_query)
qed



text \<open>
  The copy after a complete response has nothing left to copy to the client. All it does is to wait for the client: it is
  over when the client has closed, has been silent for the idle timeout or, when streaming, at the cap. The slot and the
  lease are held until then, and the upstream connection is not shut down when the client is done.
\<close>

lemma exhausted_body: "bw_serves bw es \<Longrightarrow> bw_body bw = [] \<Longrightarrow> (now, TData B_to_A n) \<notin> set es"
  by (induction bw es rule: bw_serves.induct) (auto simp: bw_Read_def bw_Close_def)

lemma tunnel_without_tcp:
  assumes "\<forall>now n. (now, TData B_to_A n) \<notin> set es"
  shows "tn_copied (exec (tunnel_step False idle) es t) B_to_A = tn_copied t B_to_A"
    and "ic_write_closed (tn_b (exec (tunnel_step False idle) es t)) = ic_write_closed (tn_b t)"
    and "tn_open (exec (tunnel_step False idle) es t) A_to_B \<longleftrightarrow>
      tn_open t A_to_B \<and> (\<forall>u. (u, TEnd A_to_B) \<notin> set es \<and> (u, TCap) \<notin> set es)"
proof -
  have "tn_copied (exec (tunnel_step False idle) es t) B_to_A = tn_copied t B_to_A \<and>
      ic_write_closed (tn_b (exec (tunnel_step False idle) es t)) = ic_write_closed (tn_b t) \<and>
      (tn_open (exec (tunnel_step False idle) es t) A_to_B \<longleftrightarrow>
        tn_open t A_to_B \<and> (\<forall>u. (u, TEnd A_to_B) \<notin> set es \<and> (u, TCap) \<notin> set es))"
    using assms
  proof (induction es arbitrary: t)
    case (Cons x es)
    obtain now e where x: "x = (now, e)" by fastforce
    show ?case
    proof (cases e)
      case (TData d n)
      with Cons.prems x have "d = A_to_B" by (cases d) auto
      with TData Cons x show ?thesis
        by (simp add: Let_def upd_src_def upd_dst_def idle_Read_begin_def idle_Read_end_def idle_Write_def)
    next
      case (TEnd d)
      with Cons x show ?thesis by (cases d) (auto simp: Let_def upd_dst_def)
    next
      case TCap
      with Cons x show ?thesis by auto
    qed
  qed simp
  then show "tn_copied (exec (tunnel_step False idle) es t) B_to_A = tn_copied t B_to_A"
    and "ic_write_closed (tn_b (exec (tunnel_step False idle) es t)) = ic_write_closed (tn_b t)"
    and "tn_open (exec (tunnel_step False idle) es t) A_to_B \<longleftrightarrow>
      tn_open t A_to_B \<and> (\<forall>u. (u, TEnd A_to_B) \<notin> set es \<and> (u, TCap) \<notin> set es)" by blast+
qed

theorem plain_copy_waits_for_client:
  assumes "Response_Write rs c = (Done rs', c1)"
    and "plain_copy \<lparr>bw_body = rs_body rs', bw_conn = up\<rparr> idle streaming cap t0 es = (True, t)"
  shows "tn_copied t B_to_A = 0 \<and> \<not> ic_write_closed (tn_b t) \<and>
    (tn_open t A_to_B \<longleftrightarrow> (\<forall>u. (u, TEnd A_to_B) \<notin> set es \<and> (u, TCap) \<notin> set es))"
proof -
  have "rs_body rs' = []"
    using assms(1) by (auto simp: Response_Write_def io_bind_def split: prod.splits io_res.splits if_splits)
  moreover have serves: "bw_serves \<lparr>bw_body = rs_body rs', bw_conn = up\<rparr> es"
      and t: "t = exec (tunnel_step False (effective_idle idle streaming)) es
        (tunnel_start (effective_idle idle streaming) t0)"
    using assms(2) by (auto simp: plain_copy_def CopyBidirectional_def Let_def)
  ultimately have no: "\<forall>now n. (now, TData B_to_A n) \<notin> set es" using exhausted_body by fastforce
  show ?thesis
    unfolding t tunnel_without_tcp [OF no]
    by (simp add: tunnel_start_def upd_src_def idle_Read_begin_def fresh_idle_def)
qed

text \<open>A response of two bytes, and a client that stays connected: the handler is there for five minutes.\<close>

definition two_bytes :: http_response where
  "two_bytes = event_stream\<lparr>rs_endless := False\<rparr>"

lemma plain_copy_waits_for_client_witness:
  "tn_open (snd (plain_copy \<lparr>bw_body = [], bw_conn = peer_sends [] True\<rparr> (5 * Minute) False 0 0
     [(1, TEnd B_to_A), (299 * Second, TData A_to_B 1)])) A_to_B"
proof -
  have w: "Response_Write two_bytes (peer_sends [] True) =
      (Done (two_bytes\<lparr>rs_body := []\<rparr>), snd (Response_Write two_bytes (peer_sends [] True)))"
    by (simp add: Response_Write_def two_bytes_def event_stream_def io_bind_def Write_conn_def peer_sends_def)
  have run: "plain_copy \<lparr>bw_body = rs_body (two_bytes\<lparr>rs_body := []\<rparr>), bw_conn = peer_sends [] True\<rparr> (5 * Minute) False 0 0
      [(1, TEnd B_to_A), (299 * Second, TData A_to_B 1)] =
      (True, snd (plain_copy \<lparr>bw_body = [], bw_conn = peer_sends [] True\<rparr> (5 * Minute) False 0 0
        [(1, TEnd B_to_A), (299 * Second, TData A_to_B 1)]))"
    by (simp add: plain_copy_def CopyBidirectional_def Let_def effective_idle_def lifetime_cap_def tunnel_start_def
        upd_src_def upd_dst_def src_of_def idle_Read_begin_def fresh_idle_def CloseWrite_def)
  from plain_copy_waits_for_client [OF w run] show ?thesis by simp
qed

end
