(* ===== verification/Process.thy ===== *)
theory Process
  imports Http_Proxy Supervisor
begin

text \<open>
  The whole process at work: the goroutines of all connections of both servers, run in any interleaving with each other
  and with the goroutines of the prober, the supervisor, the uniqueness engine and the admin API. A step is one call on
  the shared limiter or pool; the theory \<open>Interleaving\<close> takes those with more than one atomic access apart. The handlers
  of \<open>Socks5\<close> and \<open>Http_Proxy\<close> run alone are paths of this machine.
\<close>

section \<open>The goroutine of a connection\<close>

text \<open>
  Where it is: between \<open>Accept\<close> and the limiter, with the client, before a selection with a number of attempts left, at
  a backend, after a failed dial, copying, and on its way out. The stages carry what the goroutine holds: the lease of
  the limiter, and the position of the backend whose slot it has.
\<close>

datatype stage =
    Accepted
  | Serving ConnLease
  | Selecting ConnLease nat
  | Connecting ConnLease nat nat
  | Releasing ConnLease nat nat
  | Relaying ConnLease nat
  | Closing ConnLease
  | Leaving

text \<open>One step of it on its stage, the limiter and the pool, whatever its client and its backend do.\<close>

type_synonym local_state = "stage \<times> ConnLimiter \<times> pool"

inductive stage_step :: "string option \<Rightarrow> local_state \<Rightarrow> local_state \<Rightarrow> bool" for peer :: "string option" where
  limit_refused:
    "Acquire now peer cl = (Inl e, cl') \<Longrightarrow> stage_step peer (Accepted, cl, p) (Leaving, cl', p)"
| limit_granted:
    "Acquire now peer cl = (Inr l, cl') \<Longrightarrow> stage_step peer (Accepted, cl, p) (Serving l, cl', p)"
| client_fails: "stage_step peer (Serving l, cl, p) (Closing l, cl, p)"
| client_asks: "stage_step peer (Serving l, cl, p) (Selecting l 3, cl, p)"
| attempts_spent: "stage_step peer (Selecting l 0, cl, p) (Closing l, cl, p)"
| no_backend:
    "Select now (StickyKey peer) p = Inr (Inl e, p') \<Longrightarrow>
     stage_step peer (Selecting l (Suc m), cl, p) (Closing l, cl, p')"
| backend_selected:
    "Select now (StickyKey peer) p = Inr (Inr k, p') \<Longrightarrow>
     stage_step peer (Selecting l (Suc m), cl, p) (Connecting l m k, cl, p')"
| connect_fails:
    "stage_step peer (Connecting l m k, cl, p) (Releasing l m k, cl, Lease_MarkFailure now k why p)"
| slot_released:
    "stage_step peer (Releasing l m k, cl, p) (Selecting l m, cl, Lease_Release k p)"
| connect_succeeds:
    "stage_step peer (Connecting l m k, cl, p) (Relaying l k, cl, Lease_MarkSuccess now k p)"
| relay_ends: "stage_step peer (Relaying l k, cl, p) (Closing l, cl, Lease_Release k p)"
| lease_released: "stage_step peer (Closing l, cl, p) (Leaving, ConnLease_Release l cl, p)"

inductive_cases stage_stepE: "stage_step peer (g, cl, p) (g', cl', p')"

text \<open>A selection that panics takes the process down.\<close>

definition stage_panics :: "string option \<Rightarrow> local_state \<Rightarrow> bool" where
  "stage_panics peer = (\<lambda>(g, cl, p). \<exists>l m now e. g = Selecting l (Suc m) \<and> Select now (StickyKey peer) p = Inl e)"

section \<open>The process\<close>

text \<open>
  The shared limiter and pool, the connections each server counts, their goroutines, and whether the servers still
  accept. A goroutine has the server and the peer of its connection.
\<close>

datatype server = Socks_Server | HTTP_Server

text \<open>There are two servers: sums over them are sums over both.\<close>

instantiation server :: enum
begin

definition enum_server :: "server list" where
  "enum_server = [Socks_Server, HTTP_Server]"

definition enum_all_server :: "(server \<Rightarrow> bool) \<Rightarrow> bool" where
  "enum_all_server P \<longleftrightarrow> P Socks_Server \<and> P HTTP_Server"

definition enum_ex_server :: "(server \<Rightarrow> bool) \<Rightarrow> bool" where
  "enum_ex_server P \<longleftrightarrow> P Socks_Server \<or> P HTTP_Server"

instance
proof
  show univ: "(UNIV :: server set) = set Enum.enum"
    by (auto simp: enum_server_def intro: server.exhaust)
  show "distinct (Enum.enum :: server list)" by (simp add: enum_server_def)
  show "Enum.enum_all P \<longleftrightarrow> Ball UNIV P" and "Enum.enum_ex P \<longleftrightarrow> Bex UNIV P" for P :: "server \<Rightarrow> bool"
    by (auto simp: univ enum_server_def enum_all_server_def enum_ex_server_def)
qed

end

type_synonym goroutine = "server \<times> string option \<times> stage"

record process =
  pr_limiter :: ConnLimiter
  pr_pool :: pool
  pr_active :: "server \<Rightarrow> int"
  pr_handlers :: "goroutine multiset"
  pr_accepting :: bool

definition process_start :: "instant \<Rightarrow> config \<Rightarrow> process" where
  "process_start now c =
     (let st = NewState c (New now c) in
      \<lparr>pr_limiter = ps_Limiter st, pr_pool = ps_Pool st, pr_active = (\<lambda>_. 0), pr_handlers = {#}, pr_accepting = True\<rparr>)"

text \<open>The steps of the connections' goroutines, the last of which leaves the count of its server.\<close>

inductive work_step :: "process \<Rightarrow> process \<Rightarrow> bool" where
  work: "pr_handlers s = add_mset (v, peer, g) H \<Longrightarrow>
     stage_step peer (g, pr_limiter s, pr_pool s) (g', cl', p') \<Longrightarrow>
     work_step s (s\<lparr>pr_limiter := cl', pr_pool := p', pr_handlers := add_mset (v, peer, g') H\<rparr>)"
| leave: "pr_handlers s = add_mset (v, peer, Leaving) H \<Longrightarrow>
     work_step s (s\<lparr>pr_active := (pr_active s)(v := i64 (pr_active s v - 1)), pr_handlers := H\<rparr>)"

text \<open>
  What \<open>Accept\<close> returns, and the accept loop of a server, which is the same code in both: a connection is counted and
  gets its goroutine, an error is skipped, and when the listener is closed the server goes on to drain (\<open>True\<close>). \<open>Serve\<close>
  fails if its address does not resolve or cannot be listened on.
\<close>

datatype accept_result = Conn "string option" | Accept_Error | Listener_Closed

definition spawn :: "server \<Rightarrow> string option \<Rightarrow> process \<Rightarrow> process" where
  "spawn v peer s = s\<lparr>pr_active := (pr_active s)(v := i64 (pr_active s v + 1)),
     pr_handlers := add_mset (v, peer, Accepted) (pr_handlers s)\<rparr>"

fun accept_loop :: "server \<Rightarrow> accept_result list \<Rightarrow> process \<Rightarrow> bool \<times> process" where
  "accept_loop v [] s = (False, s)"
| "accept_loop v (Conn peer # rs) s = accept_loop v rs (spawn v peer s)"
| "accept_loop v (Accept_Error # rs) s = accept_loop v rs s"
| "accept_loop v (Listener_Closed # rs) s = (True, s)"

definition Serve_addr :: "server \<Rightarrow> config \<Rightarrow> string" where
  "Serve_addr v c = (case v of Socks_Server \<Rightarrow> ln_Socks5 (Listen c) | HTTP_Server \<Rightarrow> ln_HTTP (Listen c))"

definition Serve ::
  "server \<Rightarrow> host \<Rightarrow> (string \<Rightarrow> bool) \<Rightarrow> config \<Rightarrow> accept_result list \<Rightarrow> process \<Rightarrow> (bool \<times> process) option"
where
  "Serve v h listen c rs s =
     (if \<not> Resolvable h (Serve_addr v c) then None
      else if \<not> listen (Serve_addr v c) then None
      else Some (accept_loop v rs s))"

definition Socks5_Serve ::
  "host \<Rightarrow> (string \<Rightarrow> bool) \<Rightarrow> config \<Rightarrow> accept_result list \<Rightarrow> process \<Rightarrow> (bool \<times> process) option"
where "Socks5_Serve = Serve Socks_Server"

definition HTTPProxy_Serve ::
  "host \<Rightarrow> (string \<Rightarrow> bool) \<Rightarrow> config \<Rightarrow> accept_result list \<Rightarrow> process \<Rightarrow> (bool \<times> process) option"
where "HTTPProxy_Serve = Serve HTTP_Server"

text \<open>
  A connection is accepted (there are never \<open>2 ^ 63\<close> of them). The other steps: the listeners close, and the prober,
  the supervisor, the uniqueness engine and the admin API apply an operation to a backend, slots apart, or count.
\<close>

inductive accept_step :: "process \<Rightarrow> process \<Rightarrow> bool" where
  accept: "pr_accepting s \<Longrightarrow> int (size (pr_handlers s)) + 1 < 2 ^ 63 \<Longrightarrow>
     accept_step s (spawn v peer s)"

inductive_simps accept_step_iff: "accept_step s s'"

fun background :: "be_event \<Rightarrow> bool" where
  "background EvTryAcquire = False"
| "background EvRelease = False"
| "background _ = True"

inductive other_step :: "process \<Rightarrow> process \<Rightarrow> bool" where
  close_listeners: "other_step s (s\<lparr>pr_accepting := False\<rparr>)"
| touch: "background e \<Longrightarrow> k < length (backends (pr_pool s)) \<Longrightarrow>
     other_step s (s\<lparr>pr_pool := put k (be_step now e (backends (pr_pool s) ! k)) (pr_pool s)\<rparr>)"
| count_probe: "other_step s (s\<lparr>pr_pool := (pr_pool s)\<lparr>metrics := m\<rparr>\<rparr>)"

inductive_simps other_step_iff: "other_step s s'"

text \<open>The histories of a process started at \<open>t\<close>, with the connections accepted and the steps worked so far.\<close>

inductive history :: "instant \<Rightarrow> config \<Rightarrow> nat \<Rightarrow> nat \<Rightarrow> process \<Rightarrow> bool" for t c where
  started: "history t c 0 0 (process_start t c)"
| accepted: "history t c a w s \<Longrightarrow> accept_step s s' \<Longrightarrow> history t c (Suc a) w s'"
| worked: "history t c a w s \<Longrightarrow> work_step s s' \<Longrightarrow> history t c a (Suc w) s'"
| others: "history t c a w s \<Longrightarrow> other_step s s' \<Longrightarrow> history t c a w s'"

section \<open>What the goroutines hold\<close>

fun stage_holds :: "stage \<Rightarrow> ConnLease multiset \<times> nat multiset" where
  "stage_holds (Serving l) = ({#l#}, {#})"
| "stage_holds (Selecting l m) = ({#l#}, {#})"
| "stage_holds (Connecting l m k) = ({#l#}, {#k#})"
| "stage_holds (Releasing l m k) = ({#l#}, {#k#})"
| "stage_holds (Relaying l k) = ({#l#}, {#k#})"
| "stage_holds (Closing l) = ({#l#}, {#})"
| "stage_holds _ = ({#}, {#})"

definition leases_of :: "goroutine multiset \<Rightarrow> ConnLease multiset" where
  "leases_of H = \<Sum>\<^sub># (image_mset (\<lambda>(v, peer, g). fst (stage_holds g)) H)"

definition slots_of :: "goroutine multiset \<Rightarrow> nat multiset" where
  "slots_of H = \<Sum>\<^sub># (image_mset (\<lambda>(v, peer, g). snd (stage_holds g)) H)"

definition served_by :: "server \<Rightarrow> goroutine multiset \<Rightarrow> nat" where
  "served_by v H = size (filter_mset (\<lambda>h. fst h = v) H)"

lemma holds_add [simp]:
  "leases_of (add_mset (v, peer, g) H) = fst (stage_holds g) + leases_of H"
  "slots_of (add_mset (v, peer, g) H) = snd (stage_holds g) + slots_of H"
  "served_by u (add_mset (v, peer, g) H) = (if v = u then 1 else 0) + served_by u H"
  "leases_of {#} = {#}" "slots_of {#} = {#}" "served_by u {#} = 0"
  by (simp_all add: leases_of_def slots_of_def served_by_def)

lemma served_all: "(\<Sum>v\<in>UNIV. served_by v H) = size H"
proof (induction H)
  case (add h H)
  then show ?case by (cases h) (simp add: UNIV_enum enum_server_def, metis server.exhaust)
qed simp

lemma size_leases: "size (leases_of H) \<le> size H"
proof (induction H)
  case (add h H)
  then show ?case by (cases h; cases "snd (snd h)") auto
qed simp

lemma served_size: "served_by v H \<le> size H"
  by (simp add: served_by_def size_filter_mset_lesseq)

lemma served_count: "int (size H) + 1 < 2 ^ 63 \<Longrightarrow> i64 (int (served_by v H) + 1) = 1 + int (served_by v H)"
  using served_size [of v H] by (subst i64_id) simp_all

definition process_inv :: "process \<Rightarrow> bool" where
  "process_inv s \<longleftrightarrow> lim_inv (pr_limiter s, leases_of (pr_handlers s)) \<and>
     held_inv (pr_pool s, slots_of (pr_handlers s)) \<and>
     int (size (pr_handlers s)) < 2 ^ 63 \<and> (\<forall>v. pr_active s v = int (served_by v (pr_handlers s)))"

lemma acquire_keeps:
  assumes "lim_inv (cl, L)" and "int (size L) + 1 < 2 ^ 63"
  shows "Acquire now peer cl = (Inl e, cl') \<Longrightarrow> lim_inv (cl', L)"
    and "Acquire now peer cl = (Inr l, cl') \<Longrightarrow> lim_inv (cl', add_mset l L)"
  using lim_inv_acquire(1) [OF assms, of now peer] by fastforce+

lemma select_keeps:
  assumes "held_inv (p, M)"
  shows "Select now key p = Inr (Inl e, p') \<Longrightarrow> held_inv (p', M)"
    and "Select now key p = Inr (Inr k, p') \<Longrightarrow> held_inv (p', add_mset k M)"
proof -
  have "pool_inv p" using assms by (simp add: held_inv_def)
  then have "held_inv (p', case r of Inl e \<Rightarrow> M | Inr k \<Rightarrow> add_mset k M)" if "Select now key p = Inr (r, p')" for r
    using Select_returns [OF _ that] held_inv_selection [OF assms] by blast
  then show "Select now key p = Inr (Inl e, p') \<Longrightarrow> held_inv (p', M)"
    and "Select now key p = Inr (Inr k, p') \<Longrightarrow> held_inv (p', add_mset k M)" by fastforce+
qed

lemma marks_keep:
  assumes "held_inv (p, add_mset k M)"
  shows "held_inv (Lease_MarkFailure now k why p, add_mset k M)"
    and "held_inv (Lease_MarkSuccess now k p, add_mset k M)"
  using assms pool_leases.failure_law [OF assms, of k] pool_leases.success_law [OF assms, of k]
  by (simp_all add: pool_ops_def)

lemma stage_step_keeps:
  assumes "stage_step peer (g, cl, p) (g', cl', p')"
    and "lim_inv (cl, fst (stage_holds g) + L)" and "held_inv (p, snd (stage_holds g) + M)"
    and "int (size L) + 1 < 2 ^ 63"
  shows "lim_inv (cl', fst (stage_holds g') + L) \<and> held_inv (p', snd (stage_holds g') + M)"
  using assms
  by (cases rule: stage_stepE)
    (auto intro: acquire_keeps [OF _ assms(4)] select_keeps marks_keep release_accounts)

lemma background_frame:
  assumes "background e"
  shows "ID (be_step now e b) = ID b" and "inflight (be_step now e b) = inflight b"
    and "be_guard (now, e) b"
  using assms by (cases e; simp add: MarkProbeFail_def IncUniqueAttempt_def Let_def markFailureLocked_def)+

lemma background_keeps:
  assumes "held_inv (p, M)" and "background e" and "k < length (backends p)"
  shows "held_inv (put k (be_step now e (backends p ! k)) p, M)"
proof -
  have "pool_inv p" using assms(1) by (simp add: held_inv_def)
  then have b: "be_inv (backends p ! k)" using assms(3) by (rule pool_inv_nth)
  from be_inv_step [OF b background_frame(3) [OF assms(2), of now]]
  have "be_inv (be_step now e (backends p ! k))" by simp
  with assms show ?thesis by (intro held_inv_put) (simp_all add: background_frame)
qed

lemma work_step_keeps:
  assumes "work_step s s'" and "process_inv s"
  shows "process_inv s'"
  using assms
proof (induction rule: work_step.induct)
  case (work s v peer g H g' cl' p')
  have "size (leases_of H) \<le> size H" by (rule size_leases)
  then have "int (size (leases_of H)) + 1 < 2 ^ 63" using work by (simp add: process_inv_def)
  from stage_step_keeps [OF work(2) _ _ this, of "slots_of H"] work(1,3) show ?case
    by (auto simp: process_inv_def)
next
  case (leave s v peer H)
  with served_size [of v H] show ?case by (auto simp: process_inv_def)
qed

lemma accept_step_keeps:
  assumes "accept_step s s'" and "process_inv s"
  shows "process_inv s'"
  using assms by (auto simp: accept_step_iff process_inv_def spawn_def served_count)

text \<open>The accept loop makes accept steps only.\<close>

lemma accept_loop_steps:
  assumes "pr_accepting s" and "int (size (pr_handlers s)) + int (length rs) < 2 ^ 63"
  shows "accept_step\<^sup>*\<^sup>* s (snd (accept_loop v rs s))"
  using assms
proof (induction v rs s rule: accept_loop.induct)
  case (2 v peer rs s)
  then have "accept_step s (spawn v peer s)" by (intro accept) simp_all
  moreover have "accept_step\<^sup>*\<^sup>* (spawn v peer s) (snd (accept_loop v rs (spawn v peer s)))"
    using 2 by (simp add: spawn_def)
  ultimately show ?case by simp
qed simp_all

lemma other_step_keeps: "other_step s s' \<Longrightarrow> process_inv s \<Longrightarrow> process_inv s'"
  by (induction rule: other_step.induct) (simp_all add: process_inv_def background_keeps)

lemma process_inv_start: "process_inv (process_start now c)"
  by (simp add: process_inv_def process_start_def NewState_def lim_inv_New held_inv_New)

lemma history_inv: "history t c a w s \<Longrightarrow> process_inv s"
  by (induction rule: history.induct)
    (auto intro: process_inv_start work_step_keeps accept_step_keeps other_step_keeps)

section \<open>What no step changes\<close>

text \<open>The limits of the limiter, and the constant fields of a backend.\<close>

definition limits_of :: "ConnLimiter \<Rightarrow> int \<times> int \<times> int" where
  "limits_of cl = (maxGlobal cl, maxPerIP cl, maxRPS cl)"

definition constants :: "backend \<Rightarrow> int \<times> string \<times> int \<times> duration \<times> duration \<times> int" where
  "constants b = (ID b, Addr b, MaxFails b, FailTimeout b, OpenAfter b, MaxInflight b)"

definition roster :: "pool \<Rightarrow> (int \<times> string \<times> int \<times> duration \<times> duration \<times> int) list \<times> (int \<rightharpoonup> nat)" where
  "roster p = (map constants (backends p), index p)"

lemma limits_of_ops [simp]:
  "limits_of (snd (Acquire now peer cl)) = limits_of cl" "limits_of (ConnLease_Release l cl) = limits_of cl"
  by (auto simp: limits_of_def Acquire_def ConnLease_Release_def Let_def set_ip_def split: option.split)

text \<open>Fields of a backend that no operation of a connection touches.\<close>

locale untouched =
  fixes field :: "backend \<Rightarrow> 'f"
  assumes poll_law [simp]: "field (poll now b) = field b"
    and take_law [simp]: "field (take_slot b) = field b"
    and release_law [simp]: "field (Release b) = field b"
    and failure_law [simp]: "field (MarkFailure now why b) = field b"
    and success_law [simp]: "field (MarkSuccess now b) = field b"
begin

lemma put_map: "field b = field (backends p ! k) \<Longrightarrow> map field (backends (put k b p)) = map field (backends p)"
  by (simp add: map_update list_update_same_conv)
     (metis list_update_beyond list_update_id map_update not_le)

lemma Select_map:
  assumes "pool_inv p" and "Select now key p = Inr (r, p')"
  shows "map field (backends p') = map field (backends p)"
proof -
  have eq: "map field bs = map field (map (poll now) bs)" for bs by simp
  have "selection now p r p'" using Select_returns [OF assms] by simp
  moreover have "map field (backends p') = map field (backends p)"
    if "map (poll now) (backends p') = (map (poll now) (backends p))[k := take_slot (poll now (backends p ! k))]"
      "k < length (backends p)" for k
    unfolding eq [of "backends p'"] that(1) using that(2)
    by (simp add: map_update comp_def list_update_same_conv)
  moreover have "map field (backends p') = map field (backends p)"
    if "map (poll now) (backends p') = map (poll now) (backends p)"
    unfolding eq [of "backends p'"] that by simp
  ultimately show ?thesis
    by (auto simp: selection_def granted_def refused_def split: sum.splits)
qed

lemma stage_step_map:
  assumes "stage_step peer (g, cl, p) (g', cl', p')" and "pool_inv p"
  shows "map field (backends p') = map field (backends p)"
  using assms
  by (cases rule: stage_stepE)
    (auto simp: Lease_MarkFailure_def Lease_MarkSuccess_def Lease_Release_def simp del: put_frame
      intro: Select_map put_map)

end

interpretation fixed: untouched constants
  by unfold_locales
    (simp_all add: constants_def take_slot_def Release_def MarkFailure_def markFailureLocked_def MarkSuccess_def Let_def)

interpretation admission: untouched admit
  by unfold_locales
    (simp_all add: take_slot_def Release_def MarkFailure_def markFailureLocked_def MarkSuccess_def Let_def)

lemma constants_background: "background e \<Longrightarrow> constants (be_step now e b) = constants b"
  by (cases e) (simp_all add: constants_def be_defs Let_def IsSelectable_frame [unfolded IsSelectable_def])

lemma roster_put: "constants b = constants (backends p ! k) \<Longrightarrow> roster (put k b p) = roster p"
  unfolding roster_def using fixed.put_map [of b p k] by simp

lemma stage_step_index:
  assumes "stage_step peer (g, cl, p) (g', cl', p')" and "pool_inv p"
  shows "index p' = index p"
  using assms Select_returns
  by (cases rule: stage_stepE) (auto simp: Lease_MarkFailure_def Lease_MarkSuccess_def Lease_Release_def)

lemma stage_step_roster:
  assumes "stage_step peer (g, cl, p) (g', cl', p')" and "pool_inv p"
  shows "roster p' = roster p" and "limits_of cl' = limits_of cl"
proof -
  show "limits_of cl' = limits_of cl"
    using assms(1) by (cases rule: stage_stepE) (auto dest: arg_cong [where f = "\<lambda>x. limits_of (snd x)"])
  show "roster p' = roster p"
    using fixed.stage_step_map [OF assms] stage_step_index [OF assms] by (simp add: roster_def)
qed

lemma history_roster:
  "history t c a w s \<Longrightarrow> roster (pr_pool s) = roster (New t c) \<and>
     limits_of (pr_limiter s) = (lm_MaxConnGlobal (Limits c), lm_MaxConnPerIP (Limits c), lm_MaxRPSPerIP (Limits c))"
proof (induction rule: history.induct)
  case started
  then show ?case by (simp add: process_start_def NewState_def limits_of_def NewConnLimiter_def)
next
  case (accepted a w s s')
  then show ?case by (auto simp: accept_step_iff spawn_def)
next
  case (worked a w s s')
  have "pool_inv (pr_pool s)" using history_inv [OF worked(1)] by (simp add: process_inv_def held_inv_def)
  with worked(2,3) show ?case by (cases rule: work_step.cases) (auto dest: stage_step_roster)
next
  case (others a w s s')
  from others(2,3) show ?case
    by (cases rule: other_step.cases)
      (auto simp: roster_put constants_background, simp_all add: roster_def)
qed

section \<open>Progress\<close>

text \<open>The steps a goroutine has left at most.\<close>

fun rank :: "stage \<Rightarrow> nat" where
  "rank Accepted = 14"
| "rank (Serving l) = 13"
| "rank (Selecting l m) = 3 * m + 3"
| "rank (Connecting l m k) = 3 * m + 5"
| "rank (Releasing l m k) = 3 * m + 4"
| "rank (Relaying l k) = 3"
| "rank (Closing l) = 2"
| "rank Leaving = 1"

definition work_left :: "goroutine multiset \<Rightarrow> nat" where
  "work_left H = (\<Sum>(v, peer, g) \<in># H. rank g)"

lemma work_left_add [simp]: "work_left (add_mset (v, peer, g) H) = rank g + work_left H" "work_left {#} = 0"
  by (simp_all add: work_left_def)

lemma stage_step_rank: "stage_step peer (g, cl, p) (g', cl', p') \<Longrightarrow> rank g' < rank g"
  by (cases rule: stage_stepE) auto

lemma work_step_left: "work_step s s' \<Longrightarrow> work_left (pr_handlers s') < work_left (pr_handlers s)"
  by (induction rule: work_step.induct) (auto dest: stage_step_rank)

lemma history_work: "history t c a w s \<Longrightarrow> w + work_left (pr_handlers s) \<le> 14 * a"
proof (induction rule: history.induct)
  case (worked a w s s')
  then show ?case using work_step_left [OF worked(2)] by simp
qed (auto simp: process_start_def Let_def spawn_def accept_step_iff other_step_iff)

lemma stage_progress:
  assumes "g \<noteq> Leaving" and "\<not> stage_panics peer (g, cl, p)"
  shows "\<exists>x. stage_step peer (g, cl, p) x"
proof (cases g)
  case Accepted
  obtain r cl' where "Acquire 0 peer cl = (r, cl')" by fastforce
  with Accepted show ?thesis by (cases r) (blast intro: stage_step.intros)+
next
  case (Selecting l m)
  show ?thesis
  proof (cases m)
    case (Suc j)
    with assms(2) Selecting obtain r p' where "Select 0 (StickyKey peer) p = Inr (r, p')"
      by (cases "Select 0 (StickyKey peer) p") (auto simp: stage_panics_def)
    with Selecting Suc show ?thesis by (cases r) (blast intro: stage_step.intros)+
  qed (use Selecting in \<open>auto intro: stage_step.intros\<close>)
qed (use assms(1) in \<open>auto intro: stage_step.intros\<close>)

section \<open>The handlers are paths of the machine\<close>

abbreviation stage_path :: "string option \<Rightarrow> local_state \<Rightarrow> local_state \<Rightarrow> bool" where
  "stage_path peer \<equiv> (stage_step peer)\<^sup>*\<^sup>*"

text \<open>The stage a handler is at, with the limiter and the pool as it has left them.\<close>

fun shows_as :: "string option \<Rightarrow> handler \<Rightarrow> local_state \<Rightarrow> bool" where
  "shows_as peer (Returned c) (g, cl, p) \<longleftrightarrow> g = Leaving"
| "shows_as peer (Reading_Client c l) (g, cl, p) \<longleftrightarrow> g = Serving l"
| "shows_as peer (Dialling c k l) (g, cl, p) \<longleftrightarrow> (\<exists>m. g = Connecting l m k)"
| "shows_as peer (Copying c up k l) (g, cl, p) \<longleftrightarrow> g = Relaying l k"
| "shows_as peer (Crashed e) x \<longleftrightarrow> stage_panics peer x"

fun http_shows_as :: "string option \<Rightarrow> http_handler \<Rightarrow> local_state \<Rightarrow> bool" where
  "http_shows_as peer (H_Returned c) (g, cl, p) \<longleftrightarrow> g = Leaving"
| "http_shows_as peer (H_Reading c l) (g, cl, p) \<longleftrightarrow> g = Serving l"
| "http_shows_as peer (H_Dialling c k l) (g, cl, p) \<longleftrightarrow> (\<exists>m. g = Connecting l m k)"
| "http_shows_as peer (H_Exchanging c up k l) (g, cl, p) \<longleftrightarrow> g = Relaying l k"
| "http_shows_as peer (H_Copying c up k l idle streaming cap) (g, cl, p) \<longleftrightarrow> g = Relaying l k"
| "http_shows_as peer (H_Crashed e) x \<longleftrightarrow> stage_panics peer x"

lemmas path_step = converse_rtranclp_into_rtranclp [where r = "stage_step peer" for peer]

lemma path_closes: "stage_path peer (Closing l, cl, p) (Leaving, ConnLease_Release l cl, p)"
  by (rule r_into_rtranclp) (rule lease_released)

lemma path_relay_ends: "stage_path peer (Relaying l k, cl, p) (Leaving, ConnLease_Release l cl, Lease_Release k p)"
  by (rule path_step [OF relay_ends path_closes])

lemma path_client_fails: "stage_path peer (Serving l, cl, p) (Leaving, ConnLease_Release l cl, p)"
  by (rule path_step [OF client_fails path_closes])

lemma attempts_path:
  assumes "dial_attempts pool_ops say N host port timeout (StickyKey peer) m le (p, n) = (r, p', n')"
  shows "case r of
      Dialed c k \<Rightarrow> stage_path peer (Selecting l m, cl, p) (Relaying l k, cl, p')
    | Dial_Failed e \<Rightarrow> stage_path peer (Selecting l m, cl, p) (Closing l, cl, p')
    | Stuck k \<Rightarrow> (\<exists>j. stage_path peer (Selecting l m, cl, p) (Connecting l j k, cl, p'))
    | Panicked e \<Rightarrow> (\<exists>g. stage_path peer (Selecting l m, cl, p) (g, cl, p') \<and> stage_panics peer (g, cl, p'))"
  using assms
proof (induction m arbitrary: le p n)
  case 0
  then show ?case by (auto intro!: r_into_rtranclp attempts_spent)
next
  case (Suc m)
  show ?case
  proof (cases "Select (n_now N n) (StickyKey peer) p")
    case (Inl e)
    then have "stage_panics peer (Selecting l (Suc m), cl, p)" by (auto simp: stage_panics_def)
    with Inl Suc.prems show ?thesis by (auto simp: pool_ops_def)
  next
    case (Inr x)
    obtain q p1 where x: "x = (q, p1)" by fastforce
    show ?thesis
    proof (cases q)
      case (Inl e)
      with Suc.prems Inr x show ?thesis by (auto simp: pool_ops_def intro!: r_into_rtranclp intro: no_backend)
    next
      case (Inr k)
      with \<open>Select (n_now N n) (StickyKey peer) p = Inr x\<close> x
      have sel: "Select (n_now N n) (StickyKey peer) p = Inr (Inr k, p1)" by simp
      note first = path_step [OF backend_selected [OF sel]]
      obtain rc n1 where rc: "connectSOCKS5 N (lo_Addr pool_ops k p1) host port timeout n = (rc, n1)"
        by fastforce
      show ?thesis
      proof (cases rc)
        case (Done c)
        with Suc.prems sel rc have "r = Dialed c k" "p' = Lease_MarkSuccess (n_now N n1) k p1"
          by (auto simp: pool_ops_def)
        then show ?thesis
          using first [OF r_into_rtranclp [where r = "stage_step peer", OF connect_succeeds]] by simp
      next
        case Blocked
        with Suc.prems sel rc have "r = Stuck k" "p' = p1" by (auto simp: pool_ops_def)
        then show ?thesis by (auto intro!: first)
      next
        case (Failed e)
        let ?p2 = "Lease_Release k (Lease_MarkFailure (n_now N n1) k (say e) p1)"
        have run: "dial_attempts pool_ops say N host port timeout (StickyKey peer) m (Some e) (?p2, n1) = (r, p', n')"
          using Suc.prems sel rc Failed by (simp add: pool_ops_def)
        have "stage_path peer (Selecting l (Suc m), cl, p) (Selecting l m, cl, ?p2)"
          by (rule first, rule path_step [OF connect_fails], rule r_into_rtranclp, rule slot_released)
        then have "stage_path peer (Selecting l m, cl, ?p2) y \<Longrightarrow> stage_path peer (Selecting l (Suc m), cl, p) y" for y
          by (rule rtranclp_trans)
        with Suc.IH [OF run] show ?thesis by (auto split: dial_result.splits)
      qed
    qed
  qed
qed

text \<open>From the request to the end of a dial.\<close>

lemma dial_path:
  assumes "DialViaSocks say N cfg host port (StickyKey peer) (p, n) = (r, p', n')"
  shows "case r of
      Dialed c k \<Rightarrow> stage_path peer (Serving l, cl, p) (Relaying l k, cl, p')
    | Dial_Failed e \<Rightarrow> stage_path peer (Serving l, cl, p) (Leaving, ConnLease_Release l cl, p')
    | Stuck k \<Rightarrow> (\<exists>j. stage_path peer (Serving l, cl, p) (Connecting l j k, cl, p'))
    | Panicked e \<Rightarrow> (\<exists>g. stage_path peer (Serving l, cl, p) (g, cl, p') \<and> stage_panics peer (g, cl, p'))"
proof -
  have "stage_path peer (Selecting l 3, cl, p) y \<Longrightarrow> stage_path peer (Serving l, cl, p) y" for y
    by (rule path_step [OF client_asks])
  moreover have "stage_path peer (Selecting l 3, cl, p) (Closing l, cl, p') \<Longrightarrow>
      stage_path peer (Selecting l 3, cl, p) (Leaving, ConnLease_Release l cl, p')"
    by (rule rtranclp_trans [OF _ path_closes])
  ultimately show ?thesis
    using attempts_path [OF assms [unfolded DialViaSocks_def], of l cl]
    by (auto split: dial_result.splits) 
qed

definition at_path :: "string option \<Rightarrow> local_state \<Rightarrow> http_handler \<times> 'n shared \<Rightarrow> bool" where
  "at_path peer x = (\<lambda>(h, cl', p', n'). \<exists>g. stage_path peer x (g, cl', p') \<and> http_shows_as peer h (g, cl', p'))"

lemma at_path_prefix: "stage_path peer x y \<Longrightarrow> at_path peer y r \<Longrightarrow> at_path peer x r"
  by (cases r) (auto simp: at_path_def intro: rtranclp_trans)

lemma at_path_end: "stage_path peer (g, cl, p) (Closing l, cl', p') \<Longrightarrow> at_path peer (g, cl, p) (h_end l c (cl', p', n))"
  using rtranclp_trans [OF _ path_closes] by (auto simp: at_path_def h_end_def)

lemma at_path_fails: "at_path peer (Serving l, cl, p) (h_end l c (cl, p, n))"
  by (rule at_path_end) (auto intro!: r_into_rtranclp client_fails)

lemma exchange_path:
  "at_path peer (Relaying l k, cl, p) (exchange H cfg l req c up k (cl, p, n))"
proof -
  have stay: "at_path peer (Relaying l k, cl, p) (h, cl, p, n)" if "http_shows_as peer h (Relaying l k, cl, p)" for h
    using that by (auto simp: at_path_def)
  have "at_path peer (Relaying l k, cl, p) (h_end l c' (cl, Lease_Release k p, n))" for c'
    by (rule at_path_end) (auto intro!: r_into_rtranclp relay_ends)
  then show ?thesis
    by (auto simp: exchange_def Let_def split: prod.split io_res.split intro!: stay)
qed

lemma dialled_path:
  assumes "DialViaSocks say N cfg host port (StickyKey peer) (p, n) = (r, p', n')"
  shows "(\<And>c k. r = Dialed c k \<Longrightarrow> stage_path peer (Serving l, cl, p) (Relaying l k, cl, p'))"
    and "(\<And>e. r = Dial_Failed e \<Longrightarrow> at_path peer (Serving l, cl, p) (h_end l cc (cl, p', n')))"
    and "(\<And>k. r = Stuck k \<Longrightarrow> at_path peer (Serving l, cl, p) (H_Dialling cc k l, (cl, p', n')))"
    and "(\<And>e. r = Panicked e \<Longrightarrow> at_path peer (Serving l, cl, p) (H_Crashed e, (cl, p', n')))"
  using dial_path [OF assms, of l cl] by (auto simp: at_path_def h_end_def)

lemma handleConnect_path:
  "at_path peer (Serving l, cl, p) (handleConnect say sayd N cfg l (StickyKey peer) req c (cl, p, n))"
proof (cases "proxy_SplitHostPort (rq_Host req) 443")
  case (Inl e)
  then show ?thesis by (simp add: handleConnect_def at_path_fails)
next
  case (Inr t)
  obtain host port where t: "t = (host, port)" by fastforce
  obtain r p1 n1 where dl: "DialViaSocks say N cfg host port (StickyKey peer) (p, n) = (r, p1, n1)"
    by (metis prod_cases3)
  note d = dialled_path [OF dl, where l = l and cl = cl]
  show ?thesis
  proof (cases r)
    case (Dialed up k)
    with d(1) show ?thesis by (auto simp: handleConnect_def Inr t dl at_path_def)
  qed (use d(2-) in \<open>simp_all add: handleConnect_def Inr t dl\<close>)
qed

lemma handlePlain_path:
  "at_path peer (Serving l, cl, p) (handlePlain say sayd N H cfg l (StickyKey peer) req c (cl, p, n))"
proof (cases "proxy_SplitHostPort (rq_Host (rewrite_target req)) 80")
  case (Inl e)
  then show ?thesis by (simp add: handlePlain_def Let_def at_path_fails)
next
  case (Inr t)
  obtain host port where t: "t = (host, port)" by fastforce
  obtain r p1 n1 where dl: "DialViaSocks say N cfg host port (StickyKey peer) (p, n) = (r, p1, n1)"
    by (metis prod_cases3)
  note d = dialled_path [OF dl, where l = l and cl = cl]
  show ?thesis
  proof (cases r)
    case (Dialed up k)
    with d(1) show ?thesis
      by (auto simp: handlePlain_def Let_def Inr t dl intro: at_path_prefix exchange_path)
  qed (use d(2-) in \<open>simp_all add: handlePlain_def Let_def Inr t dl\<close>)
qed

section \<open>Properties\<close>

text \<open>A process that has accepted one SOCKS5 connection and given it a lease.\<close>

definition sample_process :: process where
  "sample_process = (process_start 0 sample_config)
     \<lparr>pr_limiter := snd (Acquire 7 (Some ''10.0.0.1:4000'') (pr_limiter (process_start 0 sample_config))),
      pr_active := (\<lambda>_. 0)(Socks_Server := 1),
      pr_handlers := {#(Socks_Server, Some ''10.0.0.1:4000'', Serving ''10.0.0.1'')#}\<rparr>"

lemma sample_granted:
  "Acquire 7 (Some ''10.0.0.1:4000'') (pr_limiter (process_start 0 sample_config)) =
     (Inr ''10.0.0.1'', pr_limiter sample_process)"
proof -
  have "fst (Acquire 7 (Some ''10.0.0.1:4000'') (pr_limiter (process_start 0 sample_config))) = Inr ''10.0.0.1''"
    by code_simp
  then show ?thesis by (simp add: sample_process_def prod_eq_iff)
qed

lemma sample_history: "history 0 sample_config 1 1 sample_process"
proof -
  let ?s = "process_start 0 sample_config" and ?peer = "Some ''10.0.0.1:4000''"
  have init: "pr_accepting ?s" "pr_handlers ?s = {#}" "pr_active ?s = (\<lambda>_. 0)"
    by (simp_all add: process_start_def Let_def)
  let ?s1 = "spawn Socks_Server ?peer ?s"
  have "accept_step ?s ?s1" by (rule accept) (simp_all add: init)
  with started have h1: "history 0 sample_config (Suc 0) 0 ?s1" by (rule accepted)
  have "work_step ?s1 (?s1\<lparr>pr_limiter := pr_limiter sample_process, pr_pool := pr_pool ?s1,
      pr_handlers := add_mset (Socks_Server, ?peer, Serving ''10.0.0.1'') {#}\<rparr>)"
    by (rule work [where g = Accepted]) (simp_all add: init spawn_def limit_granted [OF sample_granted])
  also have "?s1\<lparr>pr_limiter := pr_limiter sample_process, pr_pool := pr_pool ?s1,
      pr_handlers := add_mset (Socks_Server, ?peer, Serving ''10.0.0.1'') {#}\<rparr> = sample_process"
    by (rule process.equality) (simp_all add: sample_process_def init spawn_def)
  finally have "work_step ?s1 sample_process" .
  with h1 have "history 0 sample_config (Suc 0) (Suc 0) sample_process" by (rule worked)
  then show ?thesis by simp
qed



text \<open>C17. In every history the pool keeps its type: the backends are those it was created with, at the same
  positions, the index leads from an ID to the backend with that ID, the limits are positive, the counters are within
  them, and an open circuit is dated.\<close>

theorem pool_stays_well_formed:
  assumes "history t c a w s"
  shows "map (\<lambda>b. (ID b, Addr b)) (backends (pr_pool s)) = map (\<lambda>b. (ID b, Addr b)) (backends (New t c)) \<and>
    (\<forall>i k. Get i (pr_pool s) = Some k \<longrightarrow>
       k < length (backends (pr_pool s)) \<and> ID (backends (pr_pool s) ! k) = i) \<and>
    (\<forall>b \<in> set (backends (pr_pool s)). 1 \<le> MaxFails b \<and> 1 \<le> MaxInflight b \<and> 0 \<le> inflight b \<and>
       inflight b \<le> MaxInflight b \<and> 0 \<le> fails b \<and> (state b = StateCircuitOpen \<longrightarrow> openedAt b \<noteq> None))"
proof -
  have inv: "pool_inv (pr_pool s)" using history_inv [OF assms] by (simp add: process_inv_def held_inv_def)
  have "map constants (backends (pr_pool s)) = map constants (backends (New t c))"
    using history_roster [OF assms] by (simp add: roster_def)
  from arg_cong [OF this, where f = "map (\<lambda>(i, ad, rest). (i, ad))"]
  have "map (\<lambda>b. (ID b, Addr b)) (backends (pr_pool s)) = map (\<lambda>b. (ID b, Addr b)) (backends (New t c))"
    by (simp add: constants_def comp_def)
  moreover have "\<forall>b \<in> set (backends (pr_pool s)). be_inv b" using inv by (simp add: pool_inv_def)
  ultimately show ?thesis using pool_inv_Get [OF inv] by (simp add: be_inv_def)
qed

lemma pool_stays_well_formed_witness:
  "map (\<lambda>b. (ID b, Addr b)) (backends (pr_pool sample_process)) = [(7, ''127.0.0.1:40000'')] \<and>
   1 \<le> MaxInflight (hd (backends (pr_pool sample_process)))"
proof -
  have "map (\<lambda>b. (ID b, Addr b)) (backends (New 0 sample_config)) = [(7, ''127.0.0.1:40000'')]" by code_simp
  with pool_stays_well_formed [OF sample_history] show ?thesis
    by (cases "backends (pr_pool sample_process)") simp_all
qed



text \<open>C6. The SOCKS5 handler refines the goroutine of the machine: whatever the client, the network and the backends
  do, what \<open>socks_handle\<close> does to the limiter and the pool is a path from \<open>Accepted\<close>, ending at the stage that
  corresponds to where the handler is, a panic included; and so is what its deferred calls do.\<close>

theorem socks_handler_is_a_path:
  "case socks_handle say N cfg auth peer c (cl, p, n) of
     (h, cl', p', n') \<Rightarrow> \<exists>g. stage_path peer (Accepted, cl, p) (g, cl', p') \<and> shows_as peer h (g, cl', p') \<and>
       (case socks_finish h (cl', p', n') of
          (h2, cl2, p2, n2) \<Rightarrow> \<exists>g2. stage_path peer (g, cl', p') (g2, cl2, p2) \<and> shows_as peer h2 (g2, cl2, p2))"
proof -
  obtain h cl' p' n' where run: "socks_handle say N cfg auth peer c (cl, p, n) = (h, cl', p', n')"
    by (metis prod_cases4)
  obtain a cl1 where acq: "Acquire (n_now N n) peer cl = (a, cl1)" by fastforce
  have "\<exists>g. stage_path peer (Accepted, cl, p) (g, cl', p') \<and> shows_as peer h (g, cl', p')"
  proof (cases a)
    case (Inl e)
    with run acq show ?thesis by (auto simp: socks_handle_def intro!: limit_refused)
  next
    case (Inr l)
    note first = path_step [OF limit_granted [OF acq [unfolded Inr]]]
    obtain q c1 where d: "socks_dialogue auth c = (q, c1)" by fastforce
    show ?thesis
    proof (cases q)
      case Blocked
      with run acq Inr d show ?thesis by (auto simp: socks_handle_def intro!: first)
    next
      case (Failed r)
      with run acq Inr d show ?thesis by (auto simp: socks_handle_def intro!: first path_client_fails)
    next
      case (Done t)
      obtain host port where t: "t = (host, port)" by fastforce
      obtain r p1 n1 where dl: "DialViaSocks say N cfg host port (StickyKey peer) (p, n_used N c1 n) = (r, p1, n1)"
        by (metis prod_cases3)
      from run acq Inr d Done t dl dial_path [OF dl, of l cl1] show ?thesis
        by (auto simp: socks_handle_def split: dial_result.splits intro: first)
    qed
  qed
  moreover have "case socks_finish h (cl', p', n') of
      (h2, cl2, p2, n2) \<Rightarrow> \<exists>g2. stage_path peer (g, cl', p') (g2, cl2, p2) \<and> shows_as peer h2 (g2, cl2, p2)"
    if "shows_as peer h (g, cl', p')" for g
    using that by (cases h) (auto simp: socks_finish_def intro: path_relay_ends)
  ultimately show ?thesis unfolding run by auto
qed

text \<open>C16. The HTTP handler, for \<open>CONNECT\<close> and for plain requests, refines the same machine.\<close>

theorem http_handler_is_a_path:
  "case http_handle say sayd N H cfg auth peer c (cl, p, n) of
     (h, cl', p', n') \<Rightarrow> \<exists>g. stage_path peer (Accepted, cl, p) (g, cl', p') \<and> http_shows_as peer h (g, cl', p') \<and>
       (case http_finish h (cl', p', n') of
          (h2, cl2, p2, n2) \<Rightarrow> \<exists>g2. stage_path peer (g, cl', p') (g2, cl2, p2) \<and> http_shows_as peer h2 (g2, cl2, p2))"
proof -
  obtain a cl1 where acq: "Acquire (n_now N n) peer cl = (a, cl1)" by fastforce
  have "at_path peer (Accepted, cl, p) (http_handle say sayd N H cfg auth peer c (cl, p, n))"
  proof (cases a)
    case (Inl e)
    with acq show ?thesis by (auto simp: http_handle_def at_path_def intro!: r_into_rtranclp intro: limit_refused)
  next
    case (Inr l)
    have first: "stage_path peer (Accepted, cl, p) (Serving l, cl1, p)"
      using acq Inr by (auto intro!: r_into_rtranclp intro: limit_granted)
    obtain q c1 where d: "hl_ReadRequest H c = (q, c1)" by fastforce
    have "at_path peer (Serving l, cl1, p) (http_handle say sayd N H cfg auth peer c (cl, p, n))"
      using acq Inr d
      by (cases q) (auto simp: http_handle_def Let_def at_path_fails handleConnect_path handlePlain_path,
          auto simp: at_path_def)
    with first show ?thesis by (rule at_path_prefix)
  qed
  moreover have "case http_finish h (cl', p', n') of
      (h2, cl2, p2, n2) \<Rightarrow> \<exists>g2. stage_path peer (g, cl', p') (g2, cl2, p2) \<and> http_shows_as peer h2 (g2, cl2, p2)"
    if "http_shows_as peer h (g, cl', p')" for h g cl' p' and n' :: 'a
    using that by (cases h) (auto simp: http_finish_def h_end_def intro: path_relay_ends)
  ultimately show ?thesis by (fastforce simp: at_path_def split: prod.splits)
qed

end
