(* ===== verification/Main_Program.thy ===== *)
theory Main_Program
  imports Durations Admin Process
begin

text \<open>
  Model of \<open>main.go\<close>: what is built from the configuration before the first connection, and what \<open>main\<close> does
  afterwards, which is to wait. The logger is a parameter that says whether \<open>zap\<close> can build one. \<open>pool.New\<close> and
  \<open>admin.New\<close> read the clock once.
\<close>

section \<open>Construction\<close>

datatype fatal = Bad_Config config_error | No_Logger

record program =
  pg_Config :: config
  pg_Process :: process
  pg_Supervisor :: supervisor
  pg_Bootstrap :: "config_error + bool"
  pg_Admin :: admin_state

text \<open>
  \<open>main\<close> up to the start of the goroutines. An error of the configuration or of the logger ends the process; one of
  \<open>Bootstrap\<close> is only logged. The admin API gets the closure over the engine of the supervisor.
\<close>

definition main_start :: "host \<Rightarrow> (config \<Rightarrow> bool) \<Rightarrow> string \<Rightarrow> instant \<Rightarrow> fatal + program" where
  "main_start h logger path now =
     (case Load h path of
        Inl e \<Rightarrow> Inl (Bad_Config e)
      | Inr c \<Rightarrow>
          if \<not> logger c then Inl No_Logger
          else (let sup = sup_New c in
            Inr \<lparr>pg_Config = c, pg_Process = process_start now c, pg_Supervisor = sup,
                 pg_Bootstrap = Bootstrap h sup,
                 pg_Admin = admin_New now c\<rparr>))"

text \<open>The admin API with the closure over the engine of the supervisor, which is \<open>e\<close> when the closure is called.\<close>

definition main_admin :: "engine \<Rightarrow> program \<Rightarrow> admin_state" where
  "main_admin e pg = wire_stats (Some e) (pg_Admin pg)"

section \<open>Waiting\<close>

text \<open>
  Whether the context is cancelled, when the process will end, and the process. A goroutine of the process goes on; a
  server returns an error from \<open>Serve\<close>, because its address cannot be listened on or because the \<open>http.Server\<close> of the
  admin API ends; the listeners close, once the context is cancelled; a signal arrives, of which \<open>main\<close> takes the first.
\<close>

datatype main_event = Goroutine | Server_Exits | Listeners_Close | Signal instant

record main_state =
  ms_cancelled :: bool
  ms_exit :: "instant option"
  ms_process :: process

inductive main_step :: "main_event \<Rightarrow> main_state \<Rightarrow> main_state \<Rightarrow> bool" where
  goes_on: "accept_step (ms_process m) s \<or> work_step (ms_process m) s \<or> other_step (ms_process m) s \<Longrightarrow>
     pr_accepting s = pr_accepting (ms_process m) \<Longrightarrow> main_step Goroutine m (m\<lparr>ms_process := s\<rparr>)"
| server_exits: "main_step Server_Exits m (m\<lparr>ms_cancelled := True\<rparr>)"
| listeners_close: "ms_cancelled m \<Longrightarrow>
     main_step Listeners_Close m (m\<lparr>ms_process := (ms_process m)\<lparr>pr_accepting := False\<rparr>\<rparr>)"
| signal: "ms_exit m = None \<Longrightarrow>
     main_step (Signal t) m (m\<lparr>ms_cancelled := True, ms_exit := Some (process_exit t)\<rparr>)"
| signal_ignored: "ms_exit m \<noteq> None \<Longrightarrow> main_step (Signal t) m m"

inductive_simps main_step_simps [simp]:
  "main_step Goroutine m m'" "main_step Server_Exits m m'" "main_step Listeners_Close m m'"
  "main_step (Signal t) m m'"

definition main_begin :: "program \<Rightarrow> main_state" where
  "main_begin pg = \<lparr>ms_cancelled = False, ms_exit = None, ms_process = pg_Process pg\<rparr>"

text \<open>The runs of \<open>main\<close>, with the events so far, the last one first.\<close>

inductive main_run :: "program \<Rightarrow> main_event list \<Rightarrow> main_state \<Rightarrow> bool" for pg where
  main_begins: "main_run pg [] (main_begin pg)"
| main_goes_on: "main_run pg es m \<Longrightarrow> main_step e m m' \<Longrightarrow> main_run pg (e # es) m'"

section \<open>Lemmas\<close>

lemma main_start_Inr:
  "main_start h logger path now = Inr pg \<longleftrightarrow>
     (\<exists>c. Load h path = Inr c \<and> logger c \<and>
        pg = \<lparr>pg_Config = c, pg_Process = process_start now c, pg_Supervisor = sup_New c,
              pg_Bootstrap = Bootstrap h (sup_New c),
              pg_Admin = admin_New now c\<rparr>)"
  by (auto simp: main_start_def Let_def split: sum.split)

text \<open>The backends of a new pool: those of the list whose address splits.\<close>

definition usable :: "cfg_Backend \<Rightarrow> bool" where
  "usable bk \<longleftrightarrow> SplitHostPort (bk_Addr bk) \<noteq> None"

lemma backends_fold_add:
  "backends (fold (add_backend now pc) bks p) = backends p @
     map (\<lambda>bk. NewBackend now (bk_ID bk) (bk_Addr bk) (pc_MaxFails pc) (pc_FailTimeout pc) (pc_OpenAfter pc)
            (i32 (pc_MaxInflightPerBE pc))) (filter usable bks)"
  by (induction bks arbitrary: p) (auto simp: add_backend_def usable_def split: option.splits)

lemmas backends_New = New_def backends_fold_add

lemma New_warming: "b \<in> set (backends (New now c)) \<Longrightarrow> admit b = AdmitWarming"
  by (auto simp: backends_New NewBackend_def)

text \<open>A selection from a pool none of whose backends is admitted returns, whatever the strategy and the key.\<close>

lemma not_admitted: "admit b \<noteq> AdmitInPool \<Longrightarrow> \<not> selectable now b"
  by (simp add: selectable_def IsSelectable_def)

lemma idle_pick: "healthy_ix now p = [] \<Longrightarrow> \<exists>x. pick now key p = Inr x"
  by (simp add: pick_def pickRR_def pickSticky_def Healthy_eq)

lemma warming_refused:
  assumes "pool_inv p" and "\<forall>b \<in> set (backends p). admit b \<noteq> AdmitInPool" and "sticky p = Map.empty"
  shows "\<exists>p'. Select now key p = Inr (Inl ErrNoHealthyBackend, p')"
proof -
  have no: "\<not> avail now b" "\<not> selectable now b" if "b \<in> set (backends p)" for b
    using assms(2) that by (simp_all add: avail_def not_admitted)
  then have "healthy_ix now (entered p) = []" by (simp add: healthy_ix_empty)
  from idle_pick [OF this, of key] obtain r0 q where "pick now key (entered p) = Inr (r0, q)" by auto
  then have "\<exists>x. Select now key p = Inr x"
    using assms(3) by (cases r0) (simp_all add: Select_eq fast_path_def sticky_hit_def)
  then obtain r p' where s: "Select now key p = Inr (r, p')" by auto
  from Select_returns [OF assms(1) s] no show ?thesis
    by (cases r) (use s in \<open>auto simp: selection_def granted_def\<close>)
qed

lemma process_start_frame:
  "pr_pool (process_start now c) = New now c" "pr_handlers (process_start now c) = {#}"
  "pr_accepting (process_start now c)"
  by (simp_all add: process_start_def NewState_def)

lemma sticky_New: "sticky (New now c) = Map.empty"
proof -
  have "sticky (fold (add_backend now pc) bks p) = sticky p" for pc bks p
    by (induction bks arbitrary: p) (auto simp: add_backend_def split: option.splits)
  then show ?thesis by (simp add: New_def)
qed

text \<open>The run of \<open>main\<close>, on the context, the signals and the machine of the process.\<close>

definition signals :: "main_event list \<Rightarrow> instant list" where
  "signals es = List.map_filter (\<lambda>e. case e of Signal t \<Rightarrow> Some t | _ \<Rightarrow> None) es"

lemma signals_simps [simp]:
  "signals [] = []" "signals (Signal t # es) = t # signals es" "signals (Goroutine # es) = signals es"
  "signals (Server_Exits # es) = signals es" "signals (Listeners_Close # es) = signals es"
  by (simp_all add: signals_def)

lemma main_run_state:
  assumes "main_run pg es m" and "pg_Process pg = process_start t0 c"
  shows "(ms_cancelled m \<longleftrightarrow> Server_Exits \<in> set es \<or> signals es \<noteq> []) \<and>
    ms_exit m = (if signals es = [] then None else Some (process_exit (last (signals es)))) \<and>
    (pr_accepting (ms_process m) \<longleftrightarrow> Listeners_Close \<notin> set es) \<and>
    (Listeners_Close \<in> set es \<longrightarrow> ms_cancelled m)"
  using assms
proof (induction rule: main_run.induct)
  case main_begins
  then show ?case by (simp add: main_begin_def process_start_frame)
next
  case (main_goes_on es m e m')
  then show ?case by (cases e) (auto split: if_splits)
qed

lemma main_run_history:
  assumes "main_run pg es m" and "pg_Process pg = process_start t0 c"
  shows "\<exists>a w. history t0 c a w (ms_process m)"
  using assms
proof (induction rule: main_run.induct)
  case main_begins
  then show ?case by (auto simp: main_begin_def intro: started)
next
  case (main_goes_on es m e m')
  then obtain a w where h: "history t0 c a w (ms_process m)" by blast
  from main_goes_on(2) h show ?case
    by (cases e) (auto intro: accepted worked others close_listeners)
qed

text \<open>Addresses that do not split pass validation and give an empty pool.\<close>

theorem unusable_addresses_accepted:
  assumes "Validate h c = None" and "bks \<noteq> []" and "\<forall>bk \<in> set bks. \<not> usable bk"
  shows "Validate h (c\<lparr>Backends := bks\<rparr>) = None \<and> backends (New t (c\<lparr>Backends := bks\<rparr>)) = []"
proof
  show "Validate h (c\<lparr>Backends := bks\<rparr>) = None"
    using assms(1,2) by (auto simp: Validate_def split: if_splits)
  show "backends (New t (c\<lparr>Backends := bks\<rparr>)) = []"
    using assms(2,3) by (simp add: backends_New BackendAddrs_def)
qed

lemma unusable_addresses_accepted_witness:
  "Validate sample_host ((Default sample_host)\<lparr>Backends := [\<lparr>bk_ID = 0, bk_Addr = ''localhost''\<rparr>]\<rparr>) = None \<and>
   backends (New 0 ((Default sample_host)\<lparr>Backends := [\<lparr>bk_ID = 0, bk_Addr = ''localhost''\<rparr>]\<rparr>)) = []"
proof (rule unusable_addresses_accepted)
  show "Validate sample_host (Default sample_host) = None" by code_simp
  show "\<forall>bk \<in> set [\<lparr>bk_ID = 0, bk_Addr = ''localhost''\<rparr>]. \<not> usable bk" by code_simp
qed simp

definition sample_program :: program where
  "sample_program =
     (let c = (Default sample_host)\<lparr>Instances := 6\<rparr> in
      \<lparr>pg_Config = c, pg_Process = process_start 0 c, pg_Supervisor = sup_New c,
       pg_Bootstrap = Inr False, pg_Admin = admin_New 0 c\<rparr>)"

lemma start_sample: "main_start sample_host (\<lambda>c. True) '''' 0 = Inr sample_program"
  using Load_sample
  by (simp add: main_start_Inr sample_program_def Let_def Bootstrap_def sup_New_def Default_def)

section \<open>Properties\<close>

text \<open>C20. When \<open>main\<close> gets past its two fatal errors, the configuration is the loaded one, with at least one
  backend and addresses for all listeners; the bootstrap has not failed and starts the instances exactly in managed mode;
  the pool has the listed backends whose address splits, and without a list \<open>Instances\<close> many numbered from zero; and no
  selection succeeds until something has admitted a backend.\<close>

theorem main_starts:
  assumes "main_start h logger path now = Inr pg"
  shows "Load h path = Inr (pg_Config pg) \<and> BackendAddrs (pg_Config pg) \<noteq> [] \<and>
    (\<forall>a \<in> {ln_Socks5 (Listen (pg_Config pg)), ln_HTTP (Listen (pg_Config pg)), ln_Admin (Listen (pg_Config pg))}.
       Resolvable h a) \<and>
    pg_Bootstrap pg = Inr (config.Mode (pg_Config pg) = ModeManaged) \<and>
    map (\<lambda>b. (ID b, Addr b)) (backends (pr_pool (pg_Process pg))) =
      map (\<lambda>bk. (bk_ID bk, bk_Addr bk)) (filter usable (BackendAddrs (pg_Config pg))) \<and>
    (Backends (pg_Config pg) = [] \<longrightarrow>
       map ID (backends (pr_pool (pg_Process pg))) = map int [0..<nat (Instances (pg_Config pg))]) \<and>
    (\<forall>t key. \<exists>p'. Select t key (pr_pool (pg_Process pg)) = Inr (Inl ErrNoHealthyBackend, p'))"
proof -
  obtain c where c: "Load h path = Inr c" "pg_Config pg = c" "pg_Bootstrap pg = Bootstrap h (sup_New c)"
      "pr_pool (pg_Process pg) = New now c"
    using assms by (auto simp: main_start_Inr process_start_frame)
  note valid = Load_valid [OF c(1)]
  have "pg_Bootstrap pg = Inr (config.Mode c = ModeManaged)"
    using valid by (simp add: c Bootstrap_def sup_New_def)
  moreover have all: "map (\<lambda>b. (ID b, Addr b)) (backends (New now c)) =
      map (\<lambda>bk. (bk_ID bk, bk_Addr bk)) (filter usable (BackendAddrs c))"
    by (simp add: backends_New NewBackend_def)
  moreover have "map ID (backends (New now c)) = map int [0..<nat (Instances c)]" if "Backends c = []"
  proof -
    have "filter usable (BackendAddrs c) = BackendAddrs c"
      using that SplitHostPort_local by (simp add: filter_id_conv BackendAddrs_def usable_def)
    with arg_cong [OF all, where f = "map fst"] default_backends [OF that] show ?thesis by (simp add: comp_def)
  qed
  moreover have "\<exists>p'. Select t key (New now c) = Inr (Inl ErrNoHealthyBackend, p')" for t key
    by (rule warming_refused) (simp_all add: pool_inv_New New_warming sticky_New)
  ultimately show ?thesis using c valid by simp
qed

lemma main_starts_witness:
  "main_start sample_host (\<lambda>c. True) '''' 0 = Inr sample_program \<and>
   map ID (backends (pr_pool (pg_Process sample_program))) = [0, 1, 2, 3, 4, 5]"
proof -
  have "Backends (pg_Config sample_program) = []" "Instances (pg_Config sample_program) = 6"
    by (simp_all add: sample_program_def Let_def Default_def)
  with main_starts [OF start_sample] start_sample show ?thesis by (simp add: upt_rec)
qed



end
