(* ===== verification/System.thy ===== *)
theory System
  imports Main_Program
begin

text \<open>
  The control plane on the machine of the process. The prober, the supervisor, the uniqueness engine and the admin API
  each work in passes on the pool; every pass is a sequence of the background steps of \<open>Process\<close>, which is what the
  machine assumes of them. The whole program, with its passes and its connections in any order, is therefore a history
  of that machine.
\<close>

section \<open>Paths of background steps\<close>

text \<open>
  One operation on a backend of the pool, of the kinds \<open>ok\<close>, or a change of the metrics; and sequences of them. The
  \<open>quiet\<close> operations are the background ones that leave the admission phase alone.
\<close>

inductive pool_step :: "(be_event \<Rightarrow> bool) \<Rightarrow> pool \<Rightarrow> pool \<Rightarrow> bool" for ok where
  pool_touch: "ok e \<Longrightarrow> k < length (backends p) \<Longrightarrow> pool_step ok p (put k (be_step now e (backends p ! k)) p)"
| pool_count: "pool_step ok p (p\<lparr>metrics := m\<rparr>)"

abbreviation pool_path :: "(be_event \<Rightarrow> bool) \<Rightarrow> pool \<Rightarrow> pool \<Rightarrow> bool" where
  "pool_path ok \<equiv> (pool_step ok)\<^sup>*\<^sup>*"

fun quiet :: "be_event \<Rightarrow> bool" where
  "quiet (EvSetAdmit ph ip) = False"
| "quiet e = background e"

lemmas path_trans [trans] = rtranclp_trans [where r = "pool_step ok" for ok]

lemma quiet_background: "quiet e \<Longrightarrow> background e"
  by (cases e) simp_all

lemma quiet_path: "pool_path quiet p q \<Longrightarrow> pool_path background p q"
proof (rule rtranclp_mono [THEN predicate2D, rotated], assumption)
  show "pool_step quiet \<le> pool_step background"
    by (auto elim!: pool_step.cases intro: pool_step.intros quiet_background)
qed

lemma pool_step_other: "pool_step background (pr_pool s) p \<Longrightarrow> other_step s (s\<lparr>pr_pool := p\<rparr>)"
  by (induction "pr_pool s" p rule: pool_step.induct) (auto intro: touch count_probe)

lemma path_keeps:
  assumes "pool_path ok p q" and "\<And>now e b. ok e \<Longrightarrow> field (be_step now e b) = field b"
  shows "map field (backends q) = map field (backends p) \<and> index q = index p"
  using assms(1)
proof (induction rule: rtranclp_induct)
  case (step q q')
  from step(2) have "map field (backends q') = map field (backends q) \<and> index q' = index q"
    by cases (auto simp: assms(2) map_update list_update_same_conv)
  with step.IH show ?case by simp
qed simp

text \<open>
  The contract of an actor of the control plane, whose passes take its own state and the pool to the next ones: its
  passes are sequences of the operations that are \<open>ok\<close>. Then a pass is a stretch of the history of the process, and
  keeps what those operations keep.
\<close>

locale pool_actor =
  fixes ok :: "be_event \<Rightarrow> bool" and acts :: "'x \<Rightarrow> pool \<Rightarrow> 'x \<Rightarrow> pool \<Rightarrow> bool"
  assumes acts_path: "acts x p x' p' \<Longrightarrow> pool_path ok p p'"
    and ok_background: "ok e \<Longrightarrow> background e"
begin

lemma pass_history:
  assumes "history t c a w s" and "acts x (pr_pool s) x' p"
  shows "history t c a w (s\<lparr>pr_pool := p\<rparr>)"
  using acts_path [OF assms(2)]
proof (induction rule: rtranclp_induct)
  case base
  show ?case using assms(1) by simp
next
  case (step p p')
  have "pool_step background p p'"
    using step(2) ok_background by (auto elim!: pool_step.cases intro: pool_step.intros)
  then have "other_step (s\<lparr>pr_pool := p\<rparr>) (s\<lparr>pr_pool := p\<rparr>\<lparr>pr_pool := p'\<rparr>)" by (intro pool_step_other) simp
  then show ?case using others [OF step.IH] by simp
qed

lemma pass_keeps:
  assumes "acts x p x' p'" and "\<And>now e b. ok e \<Longrightarrow> field (be_step now e b) = field b"
  shows "map field (backends p') = map field (backends p)" and "index p' = index p"
  using path_keeps [OF acts_path [OF assms(1)]] assms(2) by blast+

end

lemma path_put: "ok e \<Longrightarrow> pool_path ok p (put k (be_step now e (backends p ! k)) p)"
proof (cases "k < length (backends p)")
  case True
  assume "ok e"
  from pool_touch [where ok = ok, OF this True] show ?thesis by (rule r_into_rtranclp)
next
  case False
  then have "put k (be_step now e (backends p ! k)) p = p" by (simp add: put_def list_update_beyond)
  then show ?thesis by simp
qed

lemma path_at_id:
  assumes "ok e" and "\<And>b. f b = be_step now e b"
  shows "pool_path ok p (at_id i f p)"
  using path_put [where ok = ok, OF assms(1)] by (auto simp: at_id_def assms(2) split: option.split)

lemma path_metrics: "pool_path ok p q \<Longrightarrow> pool_path ok p (q\<lparr>metrics := m\<rparr>)"
  by (rule path_trans [OF _ r_into_rtranclp [where r = "pool_step ok", OF pool_count]])

text \<open>The operations of the pool that the control plane calls.\<close>

lemma quiet_operations:
  "pool_path quiet p (pool_ForceState now i st p)"
  "pool_path quiet p (pool_MarkProbeOK now i info p)" "pool_path quiet p (pool_MarkProbeFail now i why p)"
  "pool_path quiet p (put k (snd (IncUniqueAttempt (backends p ! k))) p)"
proof -
  show "pool_path quiet p (pool_ForceState now i st p)"
    unfolding pool_ForceState_def by (rule path_at_id [of quiet "EvForceState st"]) simp_all
  show "pool_path quiet p (pool_MarkProbeOK now i info p)"
    using path_put [of quiet "EvMarkProbeOK info" p _ now]
    by (auto simp: pool_MarkProbeOK_def intro: path_metrics split: option.split)
  show "pool_path quiet p (pool_MarkProbeFail now i why p)"
    using path_put [of quiet "EvMarkProbeFail why" p _ now]
    by (auto simp: pool_MarkProbeFail_def intro: path_metrics split: option.split)
  show "pool_path quiet p (put k (snd (IncUniqueAttempt (backends p ! k))) p)"
    using path_put [of quiet EvIncUniqueAttempt p k] by simp
qed

lemma admission_operations:
  "pool_path background p (snd (Admit now i ip p))" "pool_path background p (snd (Park now i ip p))"
  "pool_path background p (snd (SetWarming now i p))"
  unfolding Admit_def Park_def SetWarming_def snd_conv
  by (rule path_at_id [of background "EvSetAdmit AdmitInPool ip"], simp_all)
    (rule path_at_id [of background "EvSetAdmit AdmitParked ip"], simp_all,
     rule path_at_id [of background "EvSetAdmit AdmitWarming ''''"], simp_all)

text \<open>Polling every backend, one after the other.\<close>

lemma path_polled: "pool_path quiet p (polled now p)"
proof -
  let ?upto = "\<lambda>n. map (\<lambda>k. if k < n then poll now (backends p ! k) else backends p ! k) [0..<length (backends p)]"
  have "pool_path quiet p (p\<lparr>backends := ?upto n\<rparr>)" if "n \<le> length (backends p)" for n
    using that
  proof (induction n)
    case 0
    have "?upto 0 = backends p" by (simp add: map_nth)
    then show ?case by (metis pool.surjective pool.update_convs(1) rtranclp.rtrancl_refl)
  next
    case (Suc n)
    let ?q = "p\<lparr>backends := ?upto n\<rparr>"
    have "pool_path quiet ?q (put n (be_step now EvIsSelectable (backends ?q ! n)) ?q)" by (rule path_put) simp
    moreover have "put n (be_step now EvIsSelectable (backends ?q ! n)) ?q = p\<lparr>backends := ?upto (Suc n)\<rparr>"
    proof -
      have "(?upto n)[n := poll now (backends p ! n)] = ?upto (Suc n)"
        by (rule nth_equalityI) (simp_all add: nth_list_update less_Suc_eq)
      then show ?thesis using Suc.prems by (simp add: put_def)
    qed
    ultimately show ?case using path_trans [OF Suc.IH] Suc.prems by simp
  qed
  from this [OF order_refl] have "pool_path quiet p (p\<lparr>backends := ?upto (length (backends p))\<rparr>)" .
  moreover have "?upto (length (backends p)) = map (poll now) (backends p)"
    by (auto intro: nth_equalityI)
  ultimately show ?thesis by (simp add: polled_def)
qed

section \<open>The passes\<close>

text \<open>A pass of the prober.\<close>

lemma record_probe_path: "pool_path quiet p (record_probe say now k r p)"
proof (cases r)
  case (Inl err)
  let ?p = "pool_MarkProbeFail now (ID (backends p ! k)) (say err) p"
  have "pool_path quiet p ?p" by (rule quiet_operations)
  also have "pool_path quiet ?p (pool_ForceState now (ID (backends p ! k)) StateUnhealthy ?p)" by (rule quiet_operations)
  finally show ?thesis using Inl quiet_operations(3) by (simp add: record_probe_def Let_def)
next
  case (Inr info)
  then show ?thesis using quiet_operations(2) by (simp add: record_probe_def Let_def)
qed

lemma probe_each_path: "pool_path quiet p (fst (probe_each E say c ks (p, w)))"
proof (induction ks arbitrary: p w)
  case (Cons k ks)
  obtain r w1 where r: "probeOne E (Addr (backends p ! k)) (ProbeURL c) (RequireWarp c) w = (r, w1)" by fastforce
  have "pool_path quiet p (record_probe say (w_now E w1) k r p)" by (rule record_probe_path)
  also have "pool_path quiet \<dots> (fst (probe_each E say c ks (record_probe say (w_now E w1) k r p, w1)))" by (rule Cons.IH)
  finally show ?case by (simp add: r)
qed simp

lemma probeAll_path: "probeAll E say c (p, w) = (p', w') \<Longrightarrow> pool_path quiet p p'"
  using probe_each_path [of p E say c _ w] by (simp add: probeAll_def) (metis fst_conv)

text \<open>A tick of the supervisor.\<close>

lemma tend_path: "tend E h c ctl snap (p, w) = Some (p', w') \<Longrightarrow> pool_path quiet p p'"
  by (auto simp: tend_def quiet_operations split: if_splits option.splits prod.splits)

lemma tend_each_path: "tend_each E h c ctl snaps (p, w) = Some (p', w') \<Longrightarrow> pool_path quiet p p'"
proof (induction snaps arbitrary: p w)
  case (Cons snap snaps)
  then obtain p1 w1 where "tend E h c ctl snap (p, w) = Some (p1, w1)"
      and rest: "tend_each E h c ctl snaps (p1, w1) = Some (p', w')"
    by (auto split: option.splits)
  note tend_path [OF this(1)]
  also note Cons.IH [OF rest]
  finally show ?case .
qed simp

lemma sup_tick_path: "sup_tick E h c ctl (p, w) = Some (p', w') \<Longrightarrow> pool_path quiet p p'"
  unfolding sup_tick_def by (rule tend_each_path)

text \<open>The passes of the uniqueness engine.\<close>

lemma tryReregister_path:
  assumes "tryReregister E c i (e, p, w) = (ok, e', p', w')"
  shows "pool_path background p p'"
proof -
  have "pool_path background p (snd (SetWarming now i (pool_ForceState now i StateUnknown p)))" for now
    by (rule path_trans [OF quiet_path [OF quiet_operations(1)] admission_operations(3)])
  with assms show ?thesis by (auto simp: tryReregister_def Let_def split: if_splits prod.splits)
qed

lemma admit_as_path: "admit_as f E i ip (e, p, w) = (e', p', w') \<Longrightarrow> pool_path background p p'"
  by (auto simp: admit_as_def admission_operations)

lemma park_or_admit_path: "park_or_admit E c i ip (e, p, w) = (e', p', w') \<Longrightarrow> pool_path background p p'"
  by (auto simp: park_or_admit_def admission_operations admit_as_path split: if_splits)

lemma on_collision_path:
  assumes "on_collision E c k ip (e, p, w) = (e', p', w')"
  shows "pool_path background p p'"
proof -
  let ?p = "put k (snd (IncUniqueAttempt (backends p ! k))) p"
  have "pool_path background ?p p'"
    using assms
    by (auto simp: on_collision_def Let_def IncUniqueAttempt_def
        dest: park_or_admit_path tryReregister_path split: if_splits prod.splits)
  with quiet_path [OF quiet_operations(4) [of p k]] show ?thesis by (rule path_trans)
qed

lemma tick_one_path: "tick_one E c effort now k (e, p, w) = (e', p', w') \<Longrightarrow> pool_path background p p'"
  by (auto simp: tick_one_def Let_def dest: admit_as_path on_collision_path
      split: if_splits prod.splits option.splits)

lemma tick_loop_path: "tick_loop E c effort now ks (e, p, w) = (e', p', w') \<Longrightarrow> pool_path background p p'"
proof (induction ks arbitrary: e p w)
  case (Cons k ks)
  obtain e1 p1 w1 where one: "tick_one E c effort now k (e, p, w) = (e1, p1, w1)" by (metis prod_cases3)
  note first = path_trans [OF tick_one_path [OF one]]
  from Cons.prems show ?case by (auto simp: one dest: Cons.IH intro: first split: if_splits)
qed simp

lemma tick_path: "tick E c (e, p, w) = (e', p', w') \<Longrightarrow> pool_path background p p'"
  unfolding tick_def prod.case by (rule tick_loop_path)

lemma refresh_path: "refresh E c ks seen cs (e, p, w) = (r, e', p', w') \<Longrightarrow> pool_path background p p'"
proof (induction ks arbitrary: seen cs e p w)
  case (Cons k ks)
  let ?b = "backends p ! k"
  obtain r1 w1 where r1: "probeEgressIPv4 E (Addr ?b) (probeURL c) w = (r1, w1)" by fastforce
  note admits = path_trans [OF admission_operations(1) [of p "w_now E w1" "ID ?b"]]
  from Cons.prems show ?case
    by (auto simp: r1 Let_def dest: Cons.IH intro: admits split: if_splits option.splits)
qed simp

lemma spread_path: "spread E c is (e, p, w) = (e', p', w') \<Longrightarrow> pool_path background p p'"
proof (induction "is" arbitrary: e p w)
  case (Cons i "is")
  obtain ok e1 p1 w1 where t: "tryReregister E c i (e, p, w) = (ok, e1, p1, w1)" by (metis prod_cases4)
  note first = path_trans [OF tryReregister_path [OF t]]
  from Cons.prems tryReregister_path [OF t] show ?case
    by (auto simp: t Let_def dest: Cons.IH intro: first split: if_splits bool.splits)
qed simp

lemma recheckInPool_path:
  assumes "recheckInPool E c (e, p, w) = (e', p', w')"
  shows "pool_path background p p'"
proof -
  have two: "pool_path background p p2" if "refresh E c ks seen cs (e0, p, w) = (r, e1, p1, w1)"
      and "spread E c is (e1, p1, w1) = (e2, p2, w2)" for ks seen cs e0 r e1 p1 w1 "is" e2 p2 w2
    using refresh_path [OF that(1)] spread_path [OF that(2)] by (rule path_trans)
  with assms show ?thesis
    by (auto simp: recheckInPool_def Let_def dest: refresh_path split: if_splits option.splits prod.splits)
qed

lemma run_step_path: "run_step E c ev (stopped, e, p, w) = (stopped', e', p', w') \<Longrightarrow> pool_path background p p'"
proof (cases ev)
  case Fast
  then show "run_step E c ev (stopped, e, p, w) = (stopped', e', p', w') \<Longrightarrow> pool_path background p p'"
    by (auto simp: Let_def dest: tick_path split: if_splits)
next
  case Slow
  obtain e1 p1 w1 where t: "tick E c (e, p, w) = (e1, p1, w1)" by (metis prod_cases3)
  with Slow show "run_step E c ev (stopped, e, p, w) = (stopped', e', p', w') \<Longrightarrow> pool_path background p p'"
    by (auto intro: path_trans [OF tick_path [OF t] recheckInPool_path])
qed

text \<open>A request to the admin API.\<close>

lemma run_endpoint_path: "run_endpoint e s now r l p = Inr (rp, p') \<Longrightarrow> pool_path quiet p p'"
  using path_polled [of p now] endpoint_pool(1,3,4) [of s now l p] endpoint_pool(2) [of now p]
    quiet_operations(1) [of p now _ StateUnknown]
  by (cases e) (auto simp: run_endpoint_def reconnect_def split: if_splits option.splits)

lemma admin_serve_path: "admin_serve s now r l p = Inr (ans, p') \<Longrightarrow> pool_path quiet p p'"
  by (auto simp: admin_serve_def dest: run_endpoint_path split: sum.splits option.splits prod.splits)

lemma admin_requests_path: "admin_requests s rs p = (as, p') \<Longrightarrow> pool_path quiet p p'"
proof (induction rs arbitrary: p as)
  case (Cons x rs)
  obtain now r l where x: "x = (now, r, l)" by (metis prod_cases3)
  obtain a p1 where one: "admin_serve s now r l p = Inr (a, p1)" using admin_serve_returns by blast
  from Cons.prems obtain as1 where "admin_requests s rs p1 = (as1, p')" by (auto simp: x one Let_def split: prod.splits)
  from path_trans [OF admin_serve_path [OF one] Cons.IH [OF this]] show ?case .
qed simp

lemma admin_requests_answered: "None \<notin> set (fst (admin_requests s rs p)) \<and> length (fst (admin_requests s rs p)) = length rs"
proof (induction rs arbitrary: p)
  case (Cons x rs)
  obtain now r l where x: "x = (now, r, l)" by (metis prod_cases3)
  obtain a p1 where one: "admin_serve s now r l p = Inr (a, p1)" using admin_serve_returns by blast
  from Cons.IH [of p1] show ?case
    by (cases "admin_requests s rs p1") (simp add: x one Let_def)
qed simp

section \<open>The actors\<close>

interpretation prober: pool_actor quiet "\<lambda>w p w' p'. probeAll E say c (p, w) = (p', w')"
  for E :: "'w world" and say c
  by unfold_locales (auto dest: probeAll_path quiet_background)

interpretation reconnector: pool_actor quiet "\<lambda>w p w' p'. sup_tick E h c ctl (p, w) = Some (p', w')"
  for E :: "'w world" and h c ctl
  by unfold_locales (auto dest: sup_tick_path quiet_background)

interpretation admitter: pool_actor background
  "\<lambda>x p x' p'. case (x, x') of ((b, e, w), (b', e', w')) \<Rightarrow> run_step E c ev (b, e, p, w) = (b', e', p', w')"
  for E :: "'w world" and c ev
  by unfold_locales (auto dest: run_step_path)

interpretation operator: pool_actor quiet "\<lambda>(u :: unit) p u' p'. \<exists>ans. admin_serve s now r l p = Inr (ans, p')"
  for s now r l
  by unfold_locales (auto dest: admin_serve_path quiet_background)

section \<open>The whole program\<close>

text \<open>
  The process, the uniqueness engine with its stopped fast ticker, and the outside world of the control plane. A pass
  of the control plane is one step here; taken apart, it is the path of operations that its lemma above gives.
\<close>

record 'w system =
  sy_process :: process
  sy_stopped :: bool
  sy_engine :: engine
  sy_world :: 'w

definition with_pool :: "pool \<Rightarrow> 'w \<Rightarrow> 'w system \<Rightarrow> 'w system" where
  "with_pool p w s = s\<lparr>sy_process := (sy_process s)\<lparr>pr_pool := p\<rparr>, sy_world := w\<rparr>"

abbreviation sy_pool :: "'w system \<Rightarrow> pool" where
  "sy_pool s \<equiv> pr_pool (sy_process s)"

text \<open>
  A step: a connection is accepted or goes on, the listeners close, the prober, the supervisor or the engine makes a
  pass, the admin API serves a request, or something happens outside.
\<close>

inductive system_step ::
  "'w world \<Rightarrow> host \<Rightarrow> (probe_error \<Rightarrow> string) \<Rightarrow> program \<Rightarrow> 'w system \<Rightarrow> 'w system \<Rightarrow> bool" for E h say pg
where
  sys_accepts: "accept_step (sy_process s) q \<Longrightarrow> system_step E h say pg s (s\<lparr>sy_process := q\<rparr>)"
| sys_works: "work_step (sy_process s) q \<Longrightarrow> system_step E h say pg s (s\<lparr>sy_process := q\<rparr>)"
| sys_closes: "system_step E h say pg s (s\<lparr>sy_process := (sy_process s)\<lparr>pr_accepting := False\<rparr>\<rparr>)"
| sys_probes: "probeAll E say (pg_Config pg) (sy_pool s, sy_world s) = (p, w) \<Longrightarrow>
     system_step E h say pg s (with_pool p w s)"
| sys_reconnects: "sup_tick E h (pg_Config pg) (controller (pg_Supervisor pg)) (sy_pool s, sy_world s) = Some (p, w) \<Longrightarrow>
     system_step E h say pg s (with_pool p w s)"
| sys_admits: "run_step E (pg_Config pg) ev (sy_stopped s, sy_engine s, sy_pool s, sy_world s) = (b, e, p, w) \<Longrightarrow>
     system_step E h say pg s (with_pool p w (s\<lparr>sy_stopped := b, sy_engine := e\<rparr>))"
| sys_serves: "admin_serve (main_admin (sy_engine s) pg) now r (pr_limiter (sy_process s)) (sy_pool s) = Inr (ans, p) \<Longrightarrow>
     system_step E h say pg s (with_pool p (sy_world s) s)"
| sys_outside: "system_step E h say pg s (s\<lparr>sy_world := w\<rparr>)"

definition system_begin :: "program \<Rightarrow> 'w \<Rightarrow> 'w system" where
  "system_begin pg w =
     \<lparr>sy_process = pg_Process pg, sy_stopped = False, sy_engine = unique (pg_Supervisor pg), sy_world = w\<rparr>"

abbreviation system_run ::
  "'w world \<Rightarrow> host \<Rightarrow> (probe_error \<Rightarrow> string) \<Rightarrow> program \<Rightarrow> 'w system \<Rightarrow> 'w system \<Rightarrow> bool" where
  "system_run E h say pg \<equiv> (system_step E h say pg)\<^sup>*\<^sup>*"

section \<open>Lemmas on the whole program\<close>

text \<open>Who is in the pool, and whether the index is right, depends on the phases and the IDs of the backends only.\<close>

definition phases :: "pool \<Rightarrow> AdmitPhase list \<times> int list \<times> (int \<rightharpoonup> nat)" where
  "phases p = (map admit (backends p), map ID (backends p), index p)"

lemma map_at: "map f xs = map f ys \<Longrightarrow> k < length ys \<Longrightarrow> f (xs ! k) = f (ys ! k)"
  by (metis length_map nth_map)

lemma phases_indexed:
  assumes "map ID (backends q) = map ID (backends p)" and "index q = index p"
  shows "indexed q = indexed p"
proof -
  have "length (backends q) = length (backends p)" using arg_cong [OF assms(1), of length] by simp
  with assms map_at [OF assms(1)] show ?thesis by (auto simp: indexed_def Get_def)
qed

lemma phases_members:
  assumes "map admit (backends q) = map admit (backends p)"
  shows "members q = members p"
proof -
  have "length (backends q) = length (backends p)" using arg_cong [OF assms, of length] by simp
  with map_at [OF assms] show ?thesis by (auto simp: members_def)
qed

lemma ID_background: "background e \<Longrightarrow> ID (be_step now e b) = ID b"
  by (rule background_frame)

lemma admit_quiet: "quiet e \<Longrightarrow> admit (be_step now e b) = admit b"
  by (cases e) (simp_all add: be_defs Let_def IsSelectable_frame [unfolded IsSelectable_def])

text \<open>The engine knows a first backend exactly when the pool has a member.\<close>

definition first_inv :: "engine \<Rightarrow> pool \<Rightarrow> bool" where
  "first_inv e p \<longleftrightarrow> indexed p \<and> (firstOK e \<longleftrightarrow> members p \<noteq> {})"

lemma first_inv_phases:
  assumes "first_inv e p" and "map ID (backends q) = map ID (backends p)" and "index q = index p"
    and "map admit (backends q) = map admit (backends p)"
  shows "first_inv e q"
  using assms phases_indexed [OF assms(2,3)] phases_members [OF assms(4)] by (simp add: first_inv_def)

lemma first_inv_tick_one:
  assumes "first_inv e p" and "k < length (backends p)" and "tick_one E c effort now k (e, p, w) = (e', p', w')"
  shows "first_inv e' p'"
proof -
  have idx: "indexed p" and first: "firstOK e \<longleftrightarrow> members p \<noteq> {}" using assms(1) by (simp_all add: first_inv_def)
  note one = tick_one_pool [OF idx assms(2,3)] and keep = tick_one_indexed [OF idx assms(2,3)]
  have "members p' \<noteq> {}" if "firstOK e'"
  proof (cases "firstOK e")
    case True
    with first keep show ?thesis by (auto simp: members_def)
  next
    case False
    with assms(3) that obtain ip w1 where "p' = snd (Admit (w_now E w1) (ID (backends p ! k)) ip p)"
      by (auto simp: tick_one_def admit_as_def bump_def Let_def split: if_splits prod.splits option.splits)
    with Admit_indexed(1) [OF idx assms(2)] assms(2) show ?thesis
      using members_put [OF assms(2)] by simp
  qed
  moreover have "firstOK e'" if "members p' \<noteq> {}"
  proof (cases "firstOK e")
    case False
    with first have none: "members p = {}" by blast
    from that obtain j where j: "j < length (backends p')" "admit (backends p' ! j) = AdmitInPool"
      by (auto simp: members_def)
    with none keep have "admit (backends p ! j) \<noteq> AdmitInPool" by (auto simp: members_def)
    with j(2) one only_at_other [of k p p' j] show ?thesis by (cases "j = k") auto
  qed (use one in blast)
  ultimately show ?thesis using keep unfolding first_inv_def by blast
qed

lemma first_inv_tick:
  fixes E :: "'w world"
  assumes "first_inv e p" and "tick E c (e, p, w) = (e', p', w')"
  shows "first_inv e' p'"
proof -
  let ?Q = "\<lambda>(e1, p1, w1 :: 'w). first_inv e1 p1 \<and> length (backends p1) = length (backends p)"
  have "?Q (tick E c (e, p, w))"
  proof (rule tick_inv [where Q = ?Q and n = "length (backends p)"])
    fix k now e1 p1 and w1 :: 'w
    assume k: "k < length (backends p)" and q: "?Q (e1, p1, w1)"
    obtain e2 p2 w2 where t: "tick_one E c (UniqueEffortActive c) now k (e1, p1, w1) = (e2, p2, w2)"
      by (metis prod_cases3)
    have kl: "k < length (backends p1)" using k q by simp
    have "indexed p1" using q by (simp add: first_inv_def)
    from tick_one_indexed [OF this kl t] first_inv_tick_one [OF _ kl t] q t
    show "?Q (tick_one E c (UniqueEffortActive c) now k (e1, p1, w1))" by simp
  qed (use assms(1) in auto)
  with assms(2) show ?thesis by simp
qed

text \<open>A recheck does not touch \<open>firstOK\<close>.\<close>

lemma tryReregister_first: "tryReregister E c i (e, p, w) = (ok, e', p', w') \<Longrightarrow> firstOK e' = firstOK e"
  by (auto simp: tryReregister_def bump_def Let_def split: if_splits prod.splits)

lemma refresh_first: "refresh E c ks seen cols (e, p, w) = (r, e', p', w') \<Longrightarrow> firstOK e' = firstOK e"
proof (induction ks arbitrary: seen cols e p w)
  case (Cons k ks)
  obtain r1 w1 where "probeEgressIPv4 E (Addr (backends p ! k)) (probeURL c) w = (r1, w1)" by fastforce
  with Cons.prems show ?case
    by (auto simp: bump_def Let_def dest!: Cons.IH split: if_splits option.splits)
qed simp

lemma spread_first: "spread E c is (e, p, w) = (e', p', w') \<Longrightarrow> firstOK e' = firstOK e"
proof (induction "is" arbitrary: e p w)
  case (Cons i "is")
  obtain ok e1 p1 w1 where t: "tryReregister E c i (e, p, w) = (ok, e1, p1, w1)" by (metis prod_cases4)
  from Cons.prems tryReregister_first [OF t] show ?case
    by (auto simp: t Let_def dest!: Cons.IH split: if_splits bool.splits)
qed simp

lemma recheck_first: "recheckInPool E c (e, p, w) = (e', p', w') \<Longrightarrow> firstOK e' = firstOK e"
  by (auto simp: recheckInPool_def mark_ceiling_def bump_def Let_def dest!: refresh_first spread_first
      split: if_splits option.splits prod.splits)

lemma first_inv_recheck:
  assumes "first_inv e p" and "recheckInPool E c (e, p, w) = (e', p', w')"
  shows "first_inv e' p'"
proof -
  have idx: "indexed p" using assms(1) by (simp add: first_inv_def)
  have "map ID (backends p') = map ID (backends p) \<and> index p' = index p"
    by (rule path_keeps [OF recheckInPool_path [OF assms(2)]]) (rule ID_background)
  with idx phases_indexed have "indexed p'" by blast
  with assms(1) recheck_members [OF idx assms(2)] recheck_first [OF assms(2)] show ?thesis
    by (auto simp: first_inv_def at_most_one_out_def)
qed

lemma first_inv_run_step:
  assumes "first_inv e p" and "run_step E c ev (b, e, p, w) = (b', e', p', w')"
  shows "first_inv e' p'"
proof (cases ev)
  case Fast
  with assms show ?thesis by (auto simp: Let_def dest: first_inv_tick split: if_splits)
next
  case Slow
  obtain e1 p1 w1 where t: "tick E c (e, p, w) = (e1, p1, w1)" by (metis prod_cases3)
  with Slow assms show ?thesis by (auto intro: first_inv_recheck [OF first_inv_tick [OF _ t]])
qed

text \<open>The steps of the connections leave phases and IDs alone.\<close>

interpretation identity: untouched ID
  by unfold_locales
    (simp_all add: take_slot_def Release_def MarkFailure_def markFailureLocked_def MarkSuccess_def Let_def)

lemma first_inv_work:
  assumes "first_inv e (pr_pool s)" and "work_step s s'" and "pool_inv (pr_pool s)"
  shows "first_inv e (pr_pool s')"
  using assms(2)
proof cases
  case (work v peer g H g' cl' p')
  note frame = identity.stage_step_map [OF work(3) assms(3)] stage_step_index [OF work(3) assms(3)]
    admission.stage_step_map [OF work(3) assms(3)]
  from first_inv_phases [OF assms(1) frame] work(1) show ?thesis by simp
qed (use assms(1) in simp)

text \<open>A quiet pass leaves the engine's knowledge right.\<close>

lemma first_inv_quiet:
  assumes "first_inv e p" and "pool_path quiet p q"
  shows "first_inv e q"
proof -
  have "map ID (backends q) = map ID (backends p) \<and> index q = index p"
    by (rule path_keeps [OF assms(2)]) (simp add: ID_background quiet_background)
  moreover have "map admit (backends q) = map admit (backends p)"
    using path_keeps [OF assms(2), of admit] admit_quiet by blast
  ultimately show ?thesis using first_inv_phases [OF assms(1)] by blast
qed

text \<open>What a step of the program does to the machine of the process, and to the engine's knowledge.\<close>

lemma system_step_history:
  assumes "system_step E h say pg s s'" and "history t c a w (sy_process s)"
  shows "\<exists>a w. history t c a w (sy_process s')"
  using assms(1)
proof cases
  case (sys_accepts q)
  with accepted [OF assms(2) sys_accepts(2)] show ?thesis by auto
next
  case (sys_works q)
  with worked [OF assms(2) sys_works(2)] show ?thesis by auto
next
  case sys_closes
  with others [OF assms(2) close_listeners] show ?thesis by auto
next
  case (sys_probes p w)
  with prober.pass_history [OF assms(2) sys_probes(2)] show ?thesis by (auto simp: with_pool_def)
next
  case (sys_reconnects p w)
  with reconnector.pass_history [OF assms(2) sys_reconnects(2)] show ?thesis by (auto simp: with_pool_def)
next
  case (sys_admits ev b e p w)
  have "case ((sy_stopped s, sy_engine s, sy_world s), (b, e, w)) of ((b0, e0, w0), (b1, e1, w1)) \<Rightarrow>
      run_step E (pg_Config pg) ev (b0, e0, sy_pool s, w0) = (b1, e1, p, w1)"
    using sys_admits(2) by simp
  from sys_admits(1) admitter.pass_history [OF assms(2) this] show ?thesis by (auto simp: with_pool_def)
next
  case (sys_serves now r ans p)
  then have "\<exists>ans. admin_serve (main_admin (sy_engine s) pg) now r (pr_limiter (sy_process s)) (sy_pool s) = Inr (ans, p)"
    by blast
  from sys_serves(1) operator.pass_history [OF assms(2) this] show ?thesis by (auto simp: with_pool_def)
next
  case (sys_outside w)
  with assms(2) show ?thesis by auto
qed

lemma system_step_first:
  assumes "system_step E h say pg s s'" and "history t c a w (sy_process s)" and "first_inv (sy_engine s) (sy_pool s)"
  shows "first_inv (sy_engine s') (sy_pool s')"
  using assms(1)
proof cases
  case (sys_accepts q)
  from sys_accepts(2) have "pr_pool q = sy_pool s" by (auto simp: accept_step_iff spawn_def)
  with sys_accepts(1) assms(3) show ?thesis by simp
next
  case (sys_works q)
  have "pool_inv (sy_pool s)" using history_inv [OF assms(2)] by (simp add: process_inv_def held_inv_def)
  with sys_works assms(3) show ?thesis by (auto intro: first_inv_work)
next
  case (sys_probes p w)
  with first_inv_quiet [OF assms(3) prober.acts_path [OF sys_probes(2)]] show ?thesis by (simp add: with_pool_def)
next
  case (sys_reconnects p w)
  with first_inv_quiet [OF assms(3) reconnector.acts_path [OF sys_reconnects(2)]] show ?thesis by (simp add: with_pool_def)
next
  case (sys_admits ev b e p w)
  with first_inv_run_step [OF assms(3) sys_admits(2)] show ?thesis by (simp add: with_pool_def)
next
  case (sys_serves now r ans p)
  with first_inv_quiet [OF assms(3) admin_serve_path [OF sys_serves(2)]] show ?thesis by (simp add: with_pool_def)
qed (use assms(3) in simp_all)

lemma system_history:
  assumes "system_run E h say pg s s'" and "history t c a w (sy_process s)"
  shows "\<exists>a w. history t c a w (sy_process s')"
  using assms(1)
proof (induction rule: rtranclp_induct)
  case (step s1 s2)
  then show ?case using system_step_history by blast
qed (use assms(2) in blast)

lemma system_first:
  assumes "system_run E h say pg s s'" and "history t c a w (sy_process s)" and "first_inv (sy_engine s) (sy_pool s)"
  shows "first_inv (sy_engine s') (sy_pool s')"
  using assms(1)
proof (induction rule: rtranclp_induct)
  case (step s1 s2)
  obtain a' w' where "history t c a' w' (sy_process s1)" using system_history [OF step(1) assms(2)] by blast
  from system_step_first [OF step(2) this step.IH] show ?case .
qed (rule assms(3))

lemma add_backend_unusable: "\<not> usable bk \<Longrightarrow> add_backend t pc bk p = p"
  by (cases "SplitHostPort (bk_Addr bk)") (simp_all add: add_backend_def usable_def)

lemma indexed_New:
  assumes "distinct (map bk_ID (filter usable (BackendAddrs c)))"
  shows "indexed (New t c)"
proof -
  have "indexed (fold (add_backend t pc) bks p)"
    if "indexed p" "distinct (map ID (backends p) @ map bk_ID (filter usable bks))" for pc bks p
    using that
  proof (induction bks arbitrary: p)
    case (Cons bk bks)
    show ?case
    proof (cases "usable bk")
      case False
      with Cons show ?thesis by (simp add: add_backend_unusable)
    next
      case True
      then obtain h where h: "SplitHostPort (bk_Addr bk) = Some h" by (auto simp: usable_def)
      have new: "bk_ID bk \<notin> ID ` set (backends p)" using Cons.prems(2) True by auto
      have "indexed (add_backend t pc bk p)"
        using Cons.prems(1) new
        by (auto simp: indexed_def Get_def add_backend_def h NewBackend_def nth_append less_Suc_eq split: if_splits)
           (metis image_eqI nth_mem)+
      moreover have "backends (add_backend t pc bk p) = backends p @ [NewBackend t (bk_ID bk) (bk_Addr bk) (pc_MaxFails pc)
          (pc_FailTimeout pc) (pc_OpenAfter pc) (i32 (pc_MaxInflightPerBE pc))]"
        by (simp add: add_backend_def h)
      ultimately have "indexed (fold (add_backend t pc) bks (add_backend t pc bk p))"
        using Cons.prems(2) True by (intro Cons.IH) (auto simp: NewBackend_def)
      then show ?thesis by simp
    qed
  qed simp
  then show ?thesis using assms by (simp add: New_def indexed_def Get_def)
qed

lemma first_inv_begin:
  assumes "main_start h logger path now = Inr pg" and "distinct (map bk_ID (filter usable (BackendAddrs (pg_Config pg))))"
  shows "first_inv (sy_engine (system_begin pg w)) (sy_pool (system_begin pg w))"
proof -
  have eq: "sy_engine (system_begin pg w) = NewUniquenessEngine (pg_Config pg)"
      "sy_pool (system_begin pg w) = New now (pg_Config pg)"
    using assms(1) by (auto simp: main_start_Inr system_begin_def sup_New_def process_start_frame)
  have "members (New now c) = {}" for c
    using New_warming [of _ now c] by (force simp: members_def)
  with indexed_New [OF assms(2)] show ?thesis by (simp add: first_inv_def eq NewUniquenessEngine_def Let_def)
qed

lemma first_stays:
  fixes E :: "'w world"
  assumes "first_inv e p" and "firstOK e" and "run_step E c ev (b, e, p, w) = (b', e', p', w')"
  shows "firstOK e'"
proof -
  have tick: "firstOK e1" if "tick E c (e, p, w) = (e1, p1, w1)" for e1 p1 and w1 :: 'w
  proof -
    obtain k where "k < length (backends p)" "admit (backends p ! k) = AdmitInPool"
      using assms(1,2) by (auto simp: first_inv_def members_def)
    with members_stay [OF _ _ _ that] assms(1,2) show ?thesis by (simp add: first_inv_def)
  qed
  obtain e1 p1 w1 where t: "tick E c (e, p, w) = (e1, p1, w1)" by (metis prod_cases3)
  from assms(2,3) tick [OF t] t show ?thesis
    by (cases ev) (auto simp: Let_def dest: recheck_first split: if_splits)
qed

lemma system_first_stays:
  assumes "system_run E h say pg s s'" and "history t c a w (sy_process s)" and "first_inv (sy_engine s) (sy_pool s)"
    and "firstOK (sy_engine s)"
  shows "firstOK (sy_engine s')"
  using assms(1)
proof (induction rule: rtranclp_induct)
  case base
  show ?case by (rule assms(4))
next
  case (step s1 s2)
  have "first_inv (sy_engine s1) (sy_pool s1)" using system_first [OF step(1) assms(2,3)] .
  with step(2) step.IH show ?case by cases (auto simp: with_pool_def dest: first_stays)
qed

section \<open>Draining\<close>

text \<open>Once the listeners are closed no connection is added: only work and background steps happen.\<close>

definition closed_step :: "process \<Rightarrow> process \<Rightarrow> bool" where
  "closed_step s s' \<longleftrightarrow> work_step s s' \<or> other_step s s'"

lemma closed_step_served: "closed_step s s' \<Longrightarrow> served_by v (pr_handlers s') \<le> served_by v (pr_handlers s)"
  unfolding closed_step_def
  by (elim disjE work_step.cases other_step.cases) (auto split: if_splits)

lemma closed_steps:
  assumes "closed_step\<^sup>*\<^sup>* s s'" and "history t c a w s"
  shows "served_by v (pr_handlers s') \<le> served_by v (pr_handlers s) \<and> (\<exists>w'. history t c a w' s')"
  using assms(1)
proof (induction rule: rtranclp_induct)
  case base
  show ?case using assms(2) by blast
next
  case (step s1 s2)
  then obtain w' where "history t c a w' s1" by blast
  with step(2) have "\<exists>w'. history t c a w' s2" unfolding closed_step_def by (auto intro: worked others)
  with step.IH closed_step_served [OF step(2), of v] show ?case by (auto intro: le_trans)
qed

lemma drain_loop_succeeds:
  assumes "\<And>x. u \<le> x \<Longrightarrow> active x \<le> 0" and "u + 100 * Millisecond \<le> t0 + D"
    and "t0 + int i * (100 * Millisecond) < u + 100 * Millisecond"
  shows "\<exists>x. drain_loop active tie t0 D i = Drained x \<and> x < u + 100 * Millisecond"
  using assms
proof (induction active tie t0 D i rule: drain_loop.induct)
  case (1 active tie t0 D i)
  show ?case
  proof (cases "active (t0 + int i * (100 * Millisecond)) \<le> 0")
    case True
    with 1(4) show ?thesis by (subst drain_loop.simps) simp
  next
    case busy: False
    then have "t0 + int i * (100 * Millisecond) < u" using 1(2) by (meson not_le)
    then have next_tick: "t0 + int (Suc i) * (100 * Millisecond) < u + 100 * Millisecond"
      by (simp add: algebra_simps)
    then have "\<not> (D < int (Suc i) * (100 * Millisecond) \<or> D = int (Suc i) * (100 * Millisecond) \<and> tie)"
      using 1(3) by linarith
    from 1(1) [OF busy this 1(2,3) next_tick] busy this show ?thesis by (subst drain_loop.simps) simp
  qed
qed

section \<open>Sample runs\<close>

text \<open>The sample program after one pass of its engine, all of whose probes answer.\<close>

abbreviation sample_world :: "log world" where
  "sample_world \<equiv> scripted same_address"

lemma sample_start: "sy_engine (system_begin sample_program w) = NewUniquenessEngine (pg_Config sample_program)"
    "sy_pool (system_begin sample_program w) = New 0 (pg_Config sample_program)"
    "sy_stopped (system_begin sample_program w) = False" "sy_world (system_begin sample_program w) = w"
  by (simp_all add: system_begin_def sample_program_def Let_def sup_New_def process_start_frame)

lemma sample_ids: "distinct (map bk_ID (BackendAddrs (pg_Config sample_program)))"
proof -
  have "Backends (pg_Config sample_program) = []" by (simp add: sample_program_def Let_def Default_def)
  from default_backends [OF this] show ?thesis by (simp add: distinct_map)
qed

lemma sample_first_pass:
  "\<exists>s. system_run sample_world sample_host say sample_program (system_begin sample_program []) s \<and> firstOK (sy_engine s)"
proof -
  let ?c = "pg_Config sample_program" and ?p = "New 0 (pg_Config sample_program)"
  obtain b e p w where run: "run_step sample_world ?c Fast (False, NewUniquenessEngine ?c, ?p, []) = (b, e, p, w)"
    by (metis prod_cases4)
  then have tick: "tick sample_world ?c (NewUniquenessEngine ?c, ?p, []) = (e, p, w)" by (auto simp: Let_def)
  have "filter usable (BackendAddrs ?c) = BackendAddrs ?c" "length (BackendAddrs ?c) = 6"
    using SplitHostPort_local
    by (simp_all add: filter_id_conv BackendAddrs_def usable_def sample_program_def Let_def Default_def)
  then have zero: "0 < length (backends ?p)" by (simp add: backends_New)
  then have b: "backends ?p ! 0 \<in> set (backends ?p)" by simp
  have b0: "admit (backends ?p ! 0) = AdmitWarming" by (rule New_warming [OF b])
  have b1: "state (backends ?p ! 0) = StateUnknown" using b by (auto simp: backends_New NewBackend_def)
  have idx: "indexed ?p" by (rule indexed_New) (simp add: distinct_map_filter sample_ids)
  have "egress_ip (take 128 ''1.1.1.1'') = Some ''1.1.1.1''" by code_simp
  then have ans: "answering sample_world ?c (NewUniquenessEngine ?c) (w_now sample_world []) (backends ?p ! 0)"
    using b0 b1 by (simp add: answering_def gate_closed_def NewUniquenessEngine_def Let_def probe_ready_def
        probeEgressIPv4_def same_address_def)
  have "firstOK e"
    using tick_loop_admits [OF idx _ _ ans, of "by_id ?p" "UniqueEffortActive ?c" "[]" e p w] tick zero
    by (simp add: tick_def)
  let ?s = "with_pool p w ((system_begin sample_program [])\<lparr>sy_stopped := b, sy_engine := e\<rparr>)"
  have "system_step sample_world sample_host say sample_program (system_begin sample_program []) ?s"
    by (rule sys_admits [where ev = Fast]) (simp add: sample_start run del: run_step.simps)
  then have "system_run sample_world sample_host say sample_program (system_begin sample_program []) ?s" ..
  moreover have "firstOK (sy_engine ?s)" using \<open>firstOK e\<close> by (simp add: with_pool_def)
  ultimately show ?thesis by blast
qed

text \<open>A process whose only connection fails after a second, with its listeners closed.\<close>

definition closing_down :: "instant \<Rightarrow> process" where
  "closing_down x =
     (let s0 = sample_process\<lparr>pr_accepting := False\<rparr> in
      if x < Second then s0
      else s0\<lparr>pr_limiter := ConnLease_Release ''10.0.0.1'' (pr_limiter s0), pr_active := (pr_active s0)(Socks_Server := 0),
              pr_handlers := {#}\<rparr>)"

lemma closing_down_steps: "x \<le> y \<Longrightarrow> closed_step\<^sup>*\<^sup>* (closing_down x) (closing_down y)"
proof (cases "x < Second \<and> Second \<le> y")
  case True
  let ?s0 = "sample_process\<lparr>pr_accepting := False\<rparr>" and ?peer = "Some ''10.0.0.1:4000''"
  let ?s1 = "?s0\<lparr>pr_limiter := pr_limiter ?s0, pr_pool := pr_pool ?s0, pr_handlers := {#(Socks_Server, ?peer, Closing ''10.0.0.1'')#}\<rparr>"
  let ?s2 = "?s1\<lparr>pr_limiter := ConnLease_Release ''10.0.0.1'' (pr_limiter ?s1), pr_pool := pr_pool ?s1,
    pr_handlers := {#(Socks_Server, ?peer, Leaving)#}\<rparr>"
  have h: "pr_handlers ?s0 = {#(Socks_Server, ?peer, Serving ''10.0.0.1'')#}" "pr_active ?s0 Socks_Server = 1"
    by (simp_all add: sample_process_def)
  let ?s3 = "?s2\<lparr>pr_active := (pr_active ?s2)(Socks_Server := i64 (pr_active ?s2 Socks_Server - 1)), pr_handlers := {#}\<rparr>"
  have st1: "closed_step ?s0 ?s1"
    unfolding closed_step_def by (rule disjI1, rule work [where H = "{#}"], simp add: h, rule client_fails)
  have st2: "closed_step ?s1 ?s2"
    unfolding closed_step_def by (rule disjI1, rule work [where H = "{#}"], simp, rule lease_released)
  have st3: "closed_step ?s2 ?s3" unfolding closed_step_def by (rule disjI1, rule leave) simp
  have "closed_step\<^sup>*\<^sup>* ?s0 ?s3"
    by (rule converse_rtranclp_into_rtranclp [where r = closed_step, OF st1
      converse_rtranclp_into_rtranclp [where r = closed_step, OF st2 r_into_rtranclp [where r = closed_step, OF st3]]])
  moreover have "closing_down x = ?s0" using True by (simp add: closing_down_def)
  moreover have "closing_down y = ?s3"
    by (rule process.equality) (use True in \<open>simp_all add: closing_down_def Let_def sample_process_def i64_id\<close>)
  ultimately show ?thesis by simp
next
  case False
  moreover assume "x \<le> y"
  ultimately have "closing_down x = closing_down y" by (auto simp: closing_down_def)
  then show ?thesis by simp
qed

section \<open>Properties\<close>

text \<open>C2. The whole program refines the machine of the process: whatever the prober, the supervisor, the uniqueness
  engine and the admin API do between and to the connections, every run of the program is a history of \<open>Process\<close>. In
  particular, when no connection is left, no lease of the limiter and no slot of a backend is taken.\<close>

theorem program_refines_process:
  assumes "main_start h logger path now = Inr pg" and "system_run E h say pg (system_begin pg w0) s"
  shows "(\<exists>a w. history now (pg_Config pg) a w (sy_process s)) \<and>
    (pr_handlers (sy_process s) = {#} \<longrightarrow>
       Active (pr_limiter (sy_process s)) = 0 \<and> (\<forall>b \<in> set (backends (sy_pool s)). inflight b = 0))"
proof -
  have "sy_process (system_begin pg w0) = process_start now (pg_Config pg)"
    using assms(1) by (auto simp: main_start_Inr system_begin_def)
  then have "history now (pg_Config pg) 0 0 (sy_process (system_begin pg w0))" by (simp add: started)
  from system_history [OF assms(2) this] obtain a w where h: "history now (pg_Config pg) a w (sy_process s)" by blast
  have "Active (pr_limiter (sy_process s)) = 0" "\<forall>b \<in> set (backends (sy_pool s)). inflight b = 0"
    if "pr_handlers (sy_process s) = {#}"
    using history_inv [OF h] that held_inv_nth [of "sy_pool s" "{#}"]
    by (auto simp: process_inv_def lim_inv_def Active_def in_set_conv_nth)
  with h show ?thesis by blast
qed

lemma program_refines_process_witness:
  "\<exists>s a w. system_run sample_world sample_host (\<lambda>e. ''x'') sample_program (system_begin sample_program []) s \<and>
     firstOK (sy_engine s) \<and> history 0 (pg_Config sample_program) a w (sy_process s)"
  using sample_first_pass program_refines_process [OF start_sample] by metis

text \<open>C4. The pool never runs dry: with distinct IDs, the engine has noted a first admission exactly when the pool has a
  member, and from then on, through all passes, rechecks, restarts, probes, requests and connections, it always has one.\<close>

theorem pool_never_empties:
  assumes "main_start h logger path now = Inr pg" and "distinct (map bk_ID (BackendAddrs (pg_Config pg)))"
    and "system_run E h say pg (system_begin pg w0) s" and "system_run E h say pg s s'"
  shows "(firstOK (sy_engine s) \<longleftrightarrow> members (sy_pool s) \<noteq> {}) \<and>
    (members (sy_pool s) \<noteq> {} \<longrightarrow> members (sy_pool s') \<noteq> {})"
proof -
  have start: "sy_process (system_begin pg w0) = process_start now (pg_Config pg)"
    using assms(1) by (auto simp: main_start_Inr system_begin_def)
  then have h0: "history now (pg_Config pg) 0 0 (sy_process (system_begin pg w0))" by (simp add: started)
  have f0: "first_inv (sy_engine (system_begin pg w0)) (sy_pool (system_begin pg w0))"
    using first_inv_begin [OF assms(1)] assms(2) by (simp add: distinct_map_filter)
  obtain a w where h: "history now (pg_Config pg) a w (sy_process s)" using system_history [OF assms(3) h0] by blast
  have f: "first_inv (sy_engine s) (sy_pool s)" by (rule system_first [OF assms(3) h0 f0])
  have f': "first_inv (sy_engine s') (sy_pool s')" by (rule system_first [OF assms(4) h f])
  show ?thesis
    using f f' system_first_stays [OF assms(4) h f] by (auto simp: first_inv_def)
qed

lemma pool_never_empties_witness:
  "\<exists>s. system_run sample_world sample_host (\<lambda>e. ''x'') sample_program (system_begin sample_program []) s \<and>
     members (sy_pool s) \<noteq> {}"
proof -
  obtain s where s: "system_run sample_world sample_host (\<lambda>e. ''x'') sample_program (system_begin sample_program []) s"
      "firstOK (sy_engine s)"
    using sample_first_pass by blast
  from pool_never_empties [OF start_sample sample_ids s(1) rtranclp.rtrancl_refl] s show ?thesis by blast
qed



text \<open>C26. The admin API answers every request it is sent, as none makes its handler panic, and whatever the requests are
  they leave the pool's members, their slots and their limits alone: the operations behind them are background operations
  other than admissions.\<close>

theorem admin_session_is_quiet:
  assumes "Resolvable h (ln_Admin (Listen (ad_Cfg s)))" and "listen (ln_Admin (Listen (ad_Cfg s)))"
    and "admin_Serve h listen s rs p = (r, as, p')"
  shows "length as = length rs \<and> None \<notin> set as \<and> members p' = members p \<and>
    map (\<lambda>b. (ID b, inflight b, MaxInflight b, admit b)) (backends p') =
      map (\<lambda>b. (ID b, inflight b, MaxInflight b, admit b)) (backends p)"
proof -
  have run: "admin_requests s rs p = (as, p')" using assms by (simp add: admin_Serve_def)
  note path = admin_requests_path [OF run]
  have "map (\<lambda>b. (ID b, inflight b, MaxInflight b, admit b)) (backends p') =
      map (\<lambda>b. (ID b, inflight b, MaxInflight b, admit b)) (backends p)"
  proof (rule path_keeps [OF path, THEN conjunct1])
    fix now e b
    assume e: "quiet e"
    note bg = quiet_background [OF e]
    from constants_background [OF bg, of now b] background_frame(1,2) [OF bg, of now b] admit_quiet [OF e, of now b]
    show "(ID (be_step now e b), inflight (be_step now e b), MaxInflight (be_step now e b), admit (be_step now e b)) =
        (ID b, inflight b, MaxInflight b, admit b)"
      by (simp add: constants_def)
  qed
  moreover from arg_cong [OF this, where f = "map (\<lambda>(i, n, m, a). a)"]
  have "members p' = members p" by (intro phases_members) (simp add: comp_def)
  ultimately show ?thesis using admin_requests_answered [of s rs p] run by simp
qed

lemma admin_session_is_quiet_witness:
  "\<exists>r as p'. admin_Serve sample_host (\<lambda>a. True) (admin_New 0 sample_config)
      [(7, \<lparr>ar_Method = ''POST'', ar_Path = ''/v1/reconnect/7''\<rparr>, NewConnLimiter 10 5 0),
       (8, \<lparr>ar_Method = ''GET'', ar_Path = ''/metrics''\<rparr>, NewConnLimiter 10 5 0)] (New 0 sample_config) = (r, as, p') \<and>
    length as = 2 \<and> members p' = members (New 0 sample_config)"
proof -
  let ?rs = "[(7, \<lparr>ar_Method = ''POST'', ar_Path = ''/v1/reconnect/7''\<rparr>, NewConnLimiter 10 5 0),
       (8, \<lparr>ar_Method = ''GET'', ar_Path = ''/metrics''\<rparr>, NewConnLimiter 10 5 0)]"
  obtain r as p' where run: "admin_Serve sample_host (\<lambda>a. True) (admin_New 0 sample_config) ?rs (New 0 sample_config) = (r, as, p')"
    by (metis prod_cases3)
  from admin_session_is_quiet [OF _ _ run] run show ?thesis by simp
qed

end
