(* ===== verification/Spec2Isabelle.thy ===== *)
theory Spec2Isabelle
  imports Interleaving System
begin

text \<open>
  Verification library of go-multi-warp, a proxy that spreads SOCKS5 and HTTP clients over a pool of WARP instances,
  each a local SOCKS5 backend with its own egress address.

  \<^bold>\<open>The program.\<close> \<open>main.go\<close> loads the configuration, builds the pool of backends and the shared proxy state, and starts
  the supervisor with the uniqueness engine (which start WARP instances and admit them to the pool), the health prober,
  the SOCKS5 server, the HTTP proxy server and the admin API. A connection takes a lease of the connection limiter, is
  authenticated, selects a backend of the pool, dials its target through the backend's SOCKS5 port, and is copied in both
  directions; when it ends it gives back the slot of the backend and the lease. Probes, marks of the handlers, the
  supervisor and the operator drive the circuit breaker of each backend, which decides with the admission phase whether
  the backend can be selected.

  \<^bold>\<open>Theories and sources\<close> (under \<open>src/internal\<close>).
  \<^item> \<open>Go_Prelude\<close>, \<open>Go_Strings\<close>, \<open>Go_Net\<close>, \<open>Go_Float\<close>, \<open>Go_Base64\<close>: Go's integers, durations, panics, and the parts
    of its standard library that the program calls (strings, numbers, host-port pairs, IP addresses, \<open>float64\<close> for the
    token bucket, base64). \<open>Go_Prelude\<close> also has the locales of event machines and of refined machines, which several
    components interpret.
  \<^item> \<open>Config\<close>, \<open>Durations\<close> (\<open>config/config.go\<close>): defaults, YAML overlay, environment overlay, validation; the two
    duration types and \<open>time.ParseDuration\<close>.
  \<^item> \<open>Backend\<close> (\<open>pool/backend.go\<close>): the state machine of one backend with every operation, and its refinement of an
    abstract circuit breaker.
  \<^item> \<open>Pool\<close> (\<open>pool/pool.go\<close>): construction, the index, the three selection strategies with their fallbacks, leases,
    statistics; selection rests on the locale \<open>slots\<close>, which \<open>TryAcquire\<close> provides.
  \<^item> \<open>Conn_Limiter\<close> (\<open>pool/pool.go\<close>): global and per-IP limits, the token bucket, the keys of a peer.
  \<^item> \<open>Interleaving\<close>: the compare-and-swap loop of \<open>TryAcquire\<close> and the atomic counters of the limiter, taken apart into
    single accesses of any number of goroutines.
  \<^item> \<open>World\<close>, \<open>Warp_Control\<close> (\<open>control/warpctl_linux.go\<close>), \<open>Uniqueness\<close> (\<open>control/uniqueness.go\<close>), \<open>Supervisor\<close>
    (\<open>control/supervisor.go\<close>), \<open>Health\<close> (\<open>health/health.go\<close>): commands, files, sleeps and probes are effects on a world
    given as a record of functions; a scripted world records them.
  \<^item> \<open>Net_IO\<close>, \<open>Proxy_State\<close> (\<open>proxy/state.go\<close>), \<open>Tunnel\<close> (\<open>proxy/tunnel.go\<close>), \<open>Socks5\<close> (\<open>proxy/socks5.go\<close>),
    \<open>Http_Proxy\<close> (\<open>proxy/http_proxy.go\<close>): a connection is the chunks its peer sends and what is written to it, a reader
    is a computation that may fail or block; a handler is a function from its connection, its peer and the shared
    limiter, pool and network to where it ends up or stays. The copy of a tunnel is a machine of timed events.
  \<^item> \<open>Admin\<close> (\<open>admin/admin.go\<close>): routing and all handlers, with the Prometheus page as text.
  \<^item> \<open>Process\<close>: the accept loops, and all connections and background goroutines interleaved as a step relation on the
    limiter, the pool, the connection counts and the stages of the goroutines.
  \<^item> \<open>Main_Program\<close> (\<open>main.go\<close>): the construction of everything from the loaded configuration, and the runs of \<open>main\<close>
    with its context and its signals on top of the machine of \<open>Process\<close>.
  \<^item> \<open>System\<close>: the control plane on that machine. Every pass of the prober, the supervisor, the uniqueness engine and the
    admin API is a path of background steps (the locale \<open>pool_actor\<close>, interpreted on each of them), so the whole program
    is a history of \<open>Process\<close>; and what that gives for the members of the pool and for the drains.

  \<^bold>\<open>State and operations.\<close> Structs are records and enumerations datatypes with the names of the source; a pointer to a
  backend is its position in the pool's list. An operation is a function that returns the updated state, or an inductive
  step where the order is free. Errors are values (\<open>Inl\<close>, \<open>None\<close>, constructors of result types), run-time panics are
  values of \<open>panic\<close>. Time is a number of nanoseconds passed to the operation that reads the clock. Fixed-width counters
  wrap; \<open>i64\<close> and \<open>i32\<close> mark where.

  \<^bold>\<open>What is shown.\<close>
  \<^item> Accounts: in every interleaving the limiter, the slots of every backend and the connection counts are exactly what
    the goroutines hold, and within their limits (\<open>Process\<close>); the two handlers refine the goroutine of that machine on
    every path; the same for histories of single operations (\<open>Pool\<close>, \<open>Tunnel\<close>, \<open>Interleaving\<close>).
  \<^item> Start and end: a program that starts has a valid configuration and the backends of it, and serves nobody before a
    backend is admitted; only a signal ends it.
  \<^item> Whole program: its runs, with all passes of the control plane between the connections, refine the machine of
    \<open>Process\<close>; once a backend has been admitted the pool is never without a member; a drain finds its server idle as soon
    as the connections have ended.
  \<^item> Types: the pool keeps its backends, its index and the ranges of its fields.
  \<^item> Selection: it finds a slot exactly when there is one, rotates, takes the least loaded, or keeps to its choice; where
    it panics is stated.
  \<^item> Breaker: refinement of the abstract breaker, when it opens, when a backend recovers.
  \<^item> Admission: strict passes keep egress addresses distinct, a pass admits a first backend, a recheck never empties the
    pool; supervision and probing do what they should to the failing backends.
  \<^item> Protocols: round trips of SOCKS addresses, Basic credentials, durations and the Prometheus page; a client gets to its
    request only with the configured credentials.
  \<^item> Endings: drains, start-up loops and the steps of a connection are bounded.
  \<^item> Defects, each with a theorem: the panic of the sticky strategy, lost early data, lost query strings, endless responses,
    handshakes without deadline, the drain cut by the end of the process, a process that outlives its servers,
    plain requests that hold their slot until the client goes away.

  \<^bold>\<open>Bounds.\<close> Loops over lists and counters are structural or have a measure, so no fuel is chosen: the dial has the three
  attempts of the source, the drain loop the measure of its timeout, waiting for an instance (a \<open>partial_function\<close>)
  returns because its clock advances, under a stated hypothesis. At most \<open>2 ^ 63 - 1\<close> connections exist at a time.
  The round-robin counter reaches \<open>2 ^ 63\<close> only after that many selections; theorems that need it to be below say so, and
  \<open>Process\<close> needs no such hypothesis.

  \<^bold>\<open>Parameters.\<close> The YAML decoder, HTTP messages on the wire, the network, the daemons, and the text of errors are
  arguments of the definitions that use them; hypotheses about them are named in the theorems.

  \<^bold>\<open>Not modelled.\<close> Socket calls (listening, \<open>SetDeadline\<close> other than the idle deadlines), the h2c framing of the admin
  listener, the flags and the logger of \<open>main.go\<close>, log output everywhere, the address and deadline methods of \<open>bodyWrapper\<close>,
  accessors that only lock and read a field, the text of JSON values (their structure is modelled), and how the passes of
  the control plane interleave with one another below the level of a pass: in \<open>System\<close> a pass is one step, whose operations
  \<open>Process\<close> lets happen one by one. An admin request and a selection read the clock once, where the source reads it
  several times in a row.
\<close>

end
